(* ===== verification/Prelude.thy ===== *)
theory Prelude
  imports Main "HOL-Library.Word" "HOL-Library.Monad_Syntax"
begin

text \<open>
  Shared vocabulary of the development.

  \<^item> \<open>byte\<close> is Rust's \<open>u8\<close>; \<open>usize\<close> offsets, lengths and indices are \<open>nat\<close>: every
    offset the modelled code forms is bounded by the size of a document or of a buffer, which
    fits in \<open>usize\<close>, so no wrap-around is reachable. Subtractions that Rust could underflow are
    guarded in the model exactly where the source guards them, and where it does not the text at
    the definition says why the difference is not negative.
  \<^item> a computation that can panic has an \<open>option\<close> result, \<open>None\<close> being the panic; a Rust
    \<open>Option\<close> result is an \<open>option\<close> as well, and a function that can do both has an
    \<open>option option\<close>.
  \<^item> \<open>partition_point\<close> and \<open>binary_search\<close> are the slice methods of the standard library on
    sorted slices; \<open>ceil_log2\<close> is \<open>f64::log2\<close> followed by \<open>ceil\<close> on a leaf count.
  \<^item> \<open>count_nl\<close> and \<open>line_offset\<close> are the reference notions of a line feed count and of the
    byte offset at which a line of a text starts.
\<close>

type_synonym byte = "8 word"

named_theorems line_simps "facts about line feeds and line starts of byte lists"
named_theorems text_simps "facts that compute the text of a piece, a node or a document"

definition newline :: byte where
  "newline = 10"

subsection \<open>Standard library functions on slices\<close>

definition partition_point :: "('a \<Rightarrow> bool) \<Rightarrow> 'a list \<Rightarrow> nat" where
  "partition_point p xs = length (takeWhile p xs)"

text \<open>\<open>binary_search\<close>: \<open>Inr i\<close> is \<open>Ok(i)\<close>, \<open>Inl i\<close> is \<open>Err(i)\<close> with the insertion index.\<close>

definition binary_search :: "'a::linorder list \<Rightarrow> 'a \<Rightarrow> nat + nat" where
  "binary_search xs x =
     (let i = partition_point (\<lambda>y. y < x) xs
      in if i < length xs \<and> xs ! i = x then Inr i else Inl i)"

definition slice_get :: "'a list \<Rightarrow> nat \<Rightarrow> 'a option" where
  "slice_get xs i = (if i < length xs then Some (xs ! i) else None)"

text \<open>\<open>&xs[a..b]\<close>: panics unless \<open>a \<le> b\<close> and \<open>b\<close> is at most the length.\<close>

definition index_range :: "'a list \<Rightarrow> nat \<Rightarrow> nat \<Rightarrow> 'a list option" where
  "index_range xs a b =
     (if a \<le> b \<and> b \<le> length xs then Some (take (b - a) (drop a xs)) else None)"

text \<open>An unsigned subtraction: the overflow check fails where the result would be negative.\<close>

definition usub :: "nat \<Rightarrow> nat \<Rightarrow> nat option" where
  "usub a b = (if b \<le> a then Some (a - b) else None)"

fun ceil_log2 :: "nat \<Rightarrow> nat" where
  "ceil_log2 n = (if n \<le> 1 then 0 else Suc (ceil_log2 (Suc n div 2)))"

declare ceil_log2.simps [simp del]

subsection \<open>Line feeds and line starts of a text\<close>

definition count_nl :: "byte list \<Rightarrow> nat" where
  "count_nl xs = length (filter (\<lambda>b. b = newline) xs)"

fun line_offset :: "byte list \<Rightarrow> nat \<Rightarrow> nat" where
  "line_offset xs 0 = 0"
| "line_offset [] (Suc k) = 0"
| "line_offset (b # bs) (Suc k) =
     Suc (if b = newline then line_offset bs k else line_offset bs (Suc k))"

lemma count_nl_Nil [simp]: "count_nl [] = 0"
  by (simp add: count_nl_def)

lemma count_nl_Cons [simp]:
  "count_nl (b # bs) = (if b = newline then Suc (count_nl bs) else count_nl bs)"
  by (simp add: count_nl_def)

lemma count_nl_append [simp]: "count_nl (xs @ ys) = count_nl xs + count_nl ys"
  by (simp add: count_nl_def)

lemma count_nl_le_length: "count_nl xs \<le> length xs"
  by (simp add: count_nl_def)

lemma count_nl_take_drop: "count_nl (take n xs) + count_nl (drop n xs) = count_nl xs"
  by (metis append_take_drop_id count_nl_append)

lemma count_nl_take_mono: "m \<le> n \<Longrightarrow> count_nl (take m xs) \<le> count_nl (take n xs)"
  by (metis count_nl_append le_add1 le_add_diff_inverse take_add)

lemma line_offset_le_length: "line_offset xs k \<le> length xs"
  by (induction xs k rule: line_offset.induct) auto

lemma line_offset_beyond: "count_nl xs < k \<Longrightarrow> line_offset xs k = length xs"
  by (induction xs k rule: line_offset.induct) (auto split: if_splits)

lemma line_offset_pos: "0 < k \<Longrightarrow> xs \<noteq> [] \<Longrightarrow> 0 < line_offset xs k"
  by (cases k; cases xs) auto

lemma line_offset_less: "k < count_nl xs \<Longrightarrow> line_offset xs k < length xs"
  by (induction xs k rule: line_offset.induct) (auto split: if_splits)

lemma line_offset_last:
  "xs \<noteq> [] \<Longrightarrow> last xs = newline \<Longrightarrow> line_offset xs (count_nl xs) = length xs"
proof (induction xs)
  case (Cons b bs)
  then show ?case by (cases bs; cases "count_nl bs") auto
qed simp

lemma count_nl_take_line_offset: "k \<le> count_nl xs \<Longrightarrow> count_nl (take (line_offset xs k) xs) = k"
  by (induction xs k rule: line_offset.induct) (auto split: if_splits)

text \<open>The line start after \<open>k\<close> line feeds is the end of the shortest prefix that holds them.\<close>

lemma line_offset_append:
  "line_offset (xs @ ys) k =
     (if k \<le> count_nl xs then line_offset xs k else length xs + line_offset ys (k - count_nl xs))"
proof (induction xs k rule: line_offset.induct)
  case (3 b bs k)
  then show ?case by (cases "b = newline"; cases "k - count_nl bs") auto
qed auto

lemma line_offset_take: "line_offset (take n xs) k = min n (line_offset xs k)"
proof (induction xs k arbitrary: n rule: line_offset.induct)
  case (3 b bs k)
  then show ?case by (cases n) auto
qed auto

lemma line_offset_Nil [simp]: "line_offset [] k = 0"
  by (cases k) auto

lemma line_offset_mono: "j \<le> k \<Longrightarrow> line_offset xs j \<le> line_offset xs k"
proof (induction xs k arbitrary: j rule: line_offset.induct)
  case (3 b bs k)
  then show ?case by (cases j) auto
qed auto

text \<open>The line an offset lies on starts at or before it, and no line feed lies between.\<close>

lemma line_offset_count_le: "line_offset xs (count_nl (take n xs)) \<le> n"
proof (induction xs arbitrary: n)
  case (Cons b bs)
  show ?case
  proof (cases n)
    case (Suc m)
    then show ?thesis using Cons[of m] by (cases "count_nl (take m bs)") auto
  qed simp
qed simp

lemmas line_facts = count_nl_take_drop line_offset_append line_offset_take line_offset_le_length

end
