(* ===== verification/String_Buffer.thy ===== *)
theory String_Buffer
  imports Prelude
begin

text \<open>
  \<open>StringBuffer\<close> of \<open>model/piece_tree.rs\<close>: a chunk of text, loaded in memory with an optional
  line index or still a reference to a region of a file. The file system is a parameter: the
  result of \<open>FileSystem::read_range\<close> for a path, an offset and a length, and, for the
  specification, the bytes of every file. The invariant \<open>sb_ok\<close> says that an index that is
  present is the index of the data; \<open>buffer_bytes\<close> is the text a buffer stands for, loaded or not.
\<close>

subsection \<open>Data\<close>

datatype BufferData =
    Loaded "byte list" "nat list option"
  | Unloaded string nat nat

record StringBuffer =
  sb_id :: nat
  sb_data :: BufferData
  stored_file_offset :: "nat option"

subsection \<open>Operations\<close>

text \<open>The line starts a scan over \<open>data\<close> pushes when its first byte has offset \<open>i\<close>.\<close>

fun nl_starts :: "nat \<Rightarrow> byte list \<Rightarrow> nat list" where
  "nl_starts i [] = []"
| "nl_starts i (b # bs) =
     (if b = newline then (i + 1) # nl_starts (i + 1) bs else nl_starts (i + 1) bs)"

definition compute_line_starts :: "byte list \<Rightarrow> nat list" where
  "compute_line_starts data = 0 # nl_starts 0 data"

definition sb_new :: "nat \<Rightarrow> byte list \<Rightarrow> StringBuffer" where
  "sb_new i data =
     \<lparr>sb_id = i, sb_data = Loaded data (Some (compute_line_starts data)),
      stored_file_offset = None\<rparr>"

definition new_loaded :: "nat \<Rightarrow> byte list \<Rightarrow> bool \<Rightarrow> StringBuffer" where
  "new_loaded i data compute_lines =
     \<lparr>sb_id = i,
      sb_data = Loaded data (if compute_lines then Some (compute_line_starts data) else None),
      stored_file_offset = None\<rparr>"

definition new_unloaded :: "nat \<Rightarrow> string \<Rightarrow> nat \<Rightarrow> nat \<Rightarrow> StringBuffer" where
  "new_unloaded i file_path file_offset bytes =
     \<lparr>sb_id = i, sb_data = Unloaded file_path file_offset bytes, stored_file_offset = None\<rparr>"

definition is_loaded :: "StringBuffer \<Rightarrow> bool" where
  "is_loaded b = (case sb_data b of Loaded _ _ \<Rightarrow> True | Unloaded _ _ _ \<Rightarrow> False)"

definition resident_bytes :: "StringBuffer \<Rightarrow> nat" where
  "resident_bytes b = (case sb_data b of Loaded data _ \<Rightarrow> length data | Unloaded _ _ _ \<Rightarrow> 0)"

definition unloaded_bytes :: "StringBuffer \<Rightarrow> nat option" where
  "unloaded_bytes b =
     (case sb_data b of Unloaded _ _ bytes \<Rightarrow> Some bytes | Loaded _ _ \<Rightarrow> None)"

definition get_data :: "StringBuffer \<Rightarrow> byte list option" where
  "get_data b = (case sb_data b of Loaded data _ \<Rightarrow> Some data | Unloaded _ _ _ \<Rightarrow> None)"

definition get_line_starts :: "StringBuffer \<Rightarrow> nat list option" where
  "get_line_starts b = (case sb_data b of Loaded _ ls \<Rightarrow> ls | Unloaded _ _ _ \<Rightarrow> None)"

definition nth_line_start_in_piece ::
  "StringBuffer \<Rightarrow> nat \<Rightarrow> nat \<Rightarrow> nat \<Rightarrow> nat option" where
  "nth_line_start_in_piece b piece_start piece_end line_in_piece =
     (if line_in_piece = 0 then Some piece_start
      else do {
        line_starts \<leftarrow> get_line_starts b;
        let start_idx = partition_point (\<lambda>ls. ls \<le> piece_start) line_starts;
        let target_idx = start_idx + line_in_piece - 1;
        ls \<leftarrow> slice_get line_starts target_idx;
        if ls < piece_end then Some ls else None
      })"

text \<open>
  \<open>load\<close>: \<open>None\<close> is the failed assertion on the length that was read; \<open>Some (Inl e)\<close> is the
  I/O error, with the buffer as it was; \<open>Some (Inr b)\<close> is success with the new buffer.
\<close>

definition load ::
  "(string \<Rightarrow> nat \<Rightarrow> nat \<Rightarrow> 'e + byte list) \<Rightarrow> StringBuffer \<Rightarrow> ('e + StringBuffer) option" where
  "load read_range b =
     (case sb_data b of
        Loaded _ _ \<Rightarrow> Some (Inr b)
      | Unloaded file_path file_offset bytes \<Rightarrow>
          (case read_range file_path file_offset bytes of
             Inl e \<Rightarrow> Some (Inl e)
           | Inr buffer \<Rightarrow>
               (if length buffer \<noteq> bytes then None
                else Some (Inr (b\<lparr>sb_data := Loaded buffer (Some (compute_line_starts buffer))\<rparr>)))))"

definition create_chunk_buffer ::
  "StringBuffer \<Rightarrow> nat \<Rightarrow> nat \<Rightarrow> nat \<Rightarrow> StringBuffer option" where
  "create_chunk_buffer b new_id chunk_offset chunk_bytes =
     (case sb_data b of
        Unloaded file_path file_offset bytes \<Rightarrow>
          (if chunk_offset + chunk_bytes > bytes then None
           else let absolute_file_offset = file_offset + chunk_offset in
             Some ((new_unloaded new_id file_path absolute_file_offset chunk_bytes)
                     \<lparr>stored_file_offset := Some absolute_file_offset\<rparr>))
      | Loaded _ _ \<Rightarrow> None)"

definition line_feed_count :: "StringBuffer \<Rightarrow> nat option" where
  "line_feed_count b =
     (case sb_data b of
        Loaded _ line_starts \<Rightarrow> map_option (\<lambda>starts. length starts - 1) line_starts
      | Unloaded _ _ _ \<Rightarrow> None)"

definition sb_append :: "StringBuffer \<Rightarrow> byte list \<Rightarrow> StringBuffer \<times> nat" where
  "sb_append b data_to_append =
     (case sb_data b of
        Loaded data line_starts \<Rightarrow>
          (let start_offset = length data in
             (b\<lparr>sb_data := Loaded (data @ data_to_append)
                 (map_option (\<lambda>ls. ls @ nl_starts start_offset data_to_append) line_starts)\<rparr>,
              start_offset))
      | Unloaded _ _ _ \<Rightarrow> (b, 0))"

subsection \<open>Specification\<close>

text \<open>The bytes a buffer stands for, given the bytes of every file.\<close>

definition buffer_bytes :: "(string \<Rightarrow> byte list) \<Rightarrow> StringBuffer \<Rightarrow> byte list" where
  "buffer_bytes files b =
     (case sb_data b of
        Loaded data _ \<Rightarrow> data
      | Unloaded p off n \<Rightarrow> take n (drop off (files p)))"

definition sb_ok :: "StringBuffer \<Rightarrow> bool" where
  "sb_ok b =
     (case sb_data b of
        Loaded data (Some ls) \<Rightarrow> ls = compute_line_starts data
      | _ \<Rightarrow> True)"

text \<open>
  What \<open>FileSystem::read_range\<close> documents: it returns exactly the requested bytes or an error.
\<close>

definition read_range_contract ::
  "(string \<Rightarrow> byte list) \<Rightarrow> (string \<Rightarrow> nat \<Rightarrow> nat \<Rightarrow> 'e + byte list) \<Rightarrow> bool" where
  "read_range_contract files read_range \<longleftrightarrow>
     (\<forall>p off n bs. read_range p off n = Inr bs \<longrightarrow>
        bs = take n (drop off (files p)) \<and> length bs = n)"

lemmas sb_defs = sb_new_def new_loaded_def new_unloaded_def is_loaded_def get_data_def
  get_line_starts_def buffer_bytes_def sb_ok_def

subsection \<open>The line index\<close>

lemma length_nl_starts [simp]: "length (nl_starts i xs) = count_nl xs"
  by (induction i xs rule: nl_starts.induct) auto

lemma nl_starts_append [line_simps]:
  "nl_starts i (xs @ ys) = nl_starts i xs @ nl_starts (i + length xs) ys"
  by (induction i xs rule: nl_starts.induct) (auto simp: add.commute add.left_commute)

lemma nl_starts_bounds: "s \<in> set (nl_starts i xs) \<Longrightarrow> i < s \<and> s \<le> i + length xs"
  by (induction i xs rule: nl_starts.induct) (auto split: if_splits)

lemma nl_starts_nth: "k < count_nl xs \<Longrightarrow> nl_starts i xs ! k = i + line_offset xs (Suc k)"
proof (induction i xs arbitrary: k rule: nl_starts.induct)
  case (2 i b bs)
  then show ?case by (cases k) auto
qed simp

lemma sorted_nl_starts: "sorted_wrt (<) (nl_starts i xs)"
proof (induction i xs rule: nl_starts.induct)
  case (2 i b bs)
  then show ?case using nl_starts_bounds[of _ "i + 1" bs] by auto
qed simp

lemma strict_sorted_line_starts: "sorted_wrt (<) (compute_line_starts data)"
  using nl_starts_bounds[of _ 0 data] sorted_nl_starts[of 0 data]
  by (auto simp: compute_line_starts_def)

lemma line_starts_split:
  assumes "p \<le> length data"
  shows "compute_line_starts data =
           (0 # nl_starts 0 (take p data)) @ nl_starts p (drop p data)"
  using nl_starts_append[of 0 "take p data" "drop p data"] assms
  by (simp add: compute_line_starts_def)

text \<open>The number of line starts at or before an offset is one more than the line feeds before it.\<close>

lemma takeWhile_append_split:
  "(\<And>x. x \<in> set xs \<Longrightarrow> P x) \<Longrightarrow> (\<And>x. x \<in> set ys \<Longrightarrow> \<not> P x) \<Longrightarrow> takeWhile P (xs @ ys) = xs"
  by (cases ys) (auto simp: takeWhile_append2)

lemma partition_point_line_starts [line_simps]:
  assumes "p \<le> length data"
  shows "partition_point (\<lambda>ls. ls \<le> p) (compute_line_starts data) = Suc (count_nl (take p data))"
proof -
  have "takeWhile (\<lambda>ls. ls \<le> p) (compute_line_starts data) = 0 # nl_starts 0 (take p data)"
    unfolding line_starts_split[OF assms]
    using nl_starts_bounds[of _ 0 "take p data"] nl_starts_bounds[of _ p "drop p data"] assms
    by (intro takeWhile_append_split) fastforce+
  then show ?thesis by (simp add: partition_point_def)
qed

lemma line_starts_nth:
  assumes "p \<le> length data" and "0 < k"
  shows "slice_get (compute_line_starts data) (count_nl (take p data) + k) =
           (if k \<le> count_nl (drop p data) then Some (p + line_offset (drop p data) k) else None)"
proof -
  obtain j where k: "k = Suc j" using assms(2) by (cases k) auto
  show ?thesis
    using nl_starts_nth[of j "drop p data" p] count_nl_take_drop[of p data]
    unfolding slice_get_def line_starts_split[OF assms(1)] k
    by (auto simp: nth_append)
qed

text \<open>
  \<open>nth_line_start_in_piece\<close> finds the start of a line of the piece wherever the piece holds it,
  and nothing when the piece ends before or exactly there.
\<close>

lemma nth_line_start_correct:
  assumes "sb_ok b" and "sb_data b = Loaded data (Some ls)" and "s + n \<le> length data"
  defines "piece \<equiv> take n (drop s data)"
  shows "nth_line_start_in_piece b s (s + n) k =
           (if k = 0 then Some s
            else if line_offset piece k < n then Some (s + line_offset piece k) else None)"
proof (cases "k = 0")
  case True
  then show ?thesis by (simp add: nth_line_start_in_piece_def)
next
  case False
  have ls: "get_line_starts b = Some (compute_line_starts data)"
    using assms(1,2) by (simp add: sb_defs)
  have s: "s \<le> length data" using assms(3) by simp
  have "line_offset (drop s data) k = length (drop s data)" if "count_nl (drop s data) < k"
    using that by (rule line_offset_beyond)
  then show ?thesis
    using False assms(3) line_starts_nth[OF s, of k]
    by (auto simp: nth_line_start_in_piece_def ls partition_point_line_starts[OF s] Let_def
        piece_def line_offset_take)
qed

text \<open>On a strictly sorted slice \<open>binary_search\<close> agrees with counting the elements at most \<open>x\<close>.\<close>

lemma partition_point_le_less:
  fixes x :: "'a::linorder"
  assumes "sorted_wrt (<) xs"
  shows "partition_point (\<lambda>y. y \<le> x) xs =
           partition_point (\<lambda>y. y < x) xs +
             (let i = partition_point (\<lambda>y. y < x) xs
              in if i < length xs \<and> xs ! i = x then 1 else 0)"
  using assms
proof (induction xs)
  case (Cons y ys)
  have "takeWhile (\<lambda>z. z \<le> x) ys = []" if "y = x"
    using that Cons.prems by (cases ys) auto
  with Cons show ?case by (auto simp: partition_point_def Let_def)
qed (simp add: partition_point_def)

lemma binary_search_partition_point:
  assumes "sorted_wrt (<) xs"
  shows "(case binary_search xs x of Inr i \<Rightarrow> i | Inl i \<Rightarrow> i - 1) =
           partition_point (\<lambda>y. y \<le> x) xs - 1"
  using partition_point_le_less[OF assms, of x] by (simp add: binary_search_def Let_def)

lemma line_starts_binary_search [line_simps]:
  assumes "p \<le> length data"
  shows "(case binary_search (compute_line_starts data) p of Inr i \<Rightarrow> i | Inl i \<Rightarrow> i - 1) =
           count_nl (take p data)"
  using binary_search_partition_point[OF strict_sorted_line_starts, of data p]
  by (simp add: partition_point_line_starts[OF assms])

subsection \<open>The operations keep the invariant and the text\<close>

lemma sb_new_ok [simp]: "sb_ok (sb_new i d)" "buffer_bytes f (sb_new i d) = d"
  by (simp_all add: sb_defs)

lemma new_loaded_ok [simp]: "sb_ok (new_loaded i d c)" "buffer_bytes f (new_loaded i d c) = d"
  by (simp_all add: sb_defs)

lemma new_unloaded_ok [simp]: "sb_ok (new_unloaded i p off n)"
  by (simp add: sb_defs)

lemma append_ok: "sb_ok b \<Longrightarrow> sb_ok (fst (sb_append b d))"
  by (auto simp: sb_append_def sb_ok_def compute_line_starts_def nl_starts_append Let_def
      split: BufferData.splits option.splits)

lemma append_bytes:
  "is_loaded b \<Longrightarrow> buffer_bytes f (fst (sb_append b d)) = buffer_bytes f b @ d"
  "is_loaded b \<Longrightarrow> snd (sb_append b d) = length (buffer_bytes f b)"
  by (auto simp: sb_append_def sb_defs Let_def split: BufferData.splits)

lemma load_ok:
  assumes "read_range_contract files rr" and "load rr b = Some (Inr b')" and "sb_ok b"
  shows "is_loaded b'" and "sb_ok b'" and "buffer_bytes files b' = buffer_bytes files b"
    and "sb_id b' = sb_id b"
  using assms
  by (auto simp: load_def sb_defs read_range_contract_def
      split: BufferData.splits sum.splits if_splits)

lemma load_never_panics:
  "read_range_contract files rr \<Longrightarrow> load rr b \<noteq> None"
  by (auto simp: load_def read_range_contract_def split: BufferData.splits sum.splits)

subsection \<open>Properties\<close>

text \<open>
  The line index is maintained incrementally. Appending to an indexed buffer pushes only the
  line starts of the new bytes, and the result is the index a scan of all the bytes computes.
\<close>

theorem incremental_line_index:
  assumes "sb_data b = Loaded data (Some (compute_line_starts data))"
  shows "sb_append b d =
           (b\<lparr>sb_data := Loaded (data @ d) (Some (compute_line_starts (data @ d)))\<rparr>, length data)"
  using assms by (simp add: sb_append_def compute_line_starts_def nl_starts_append Let_def)

theorem incremental_line_index_witness:
  "sb_append (sb_new 0 [97, 10]) [98, 10] =
     ((sb_new 0 [97, 10])\<lparr>sb_data := Loaded [97, 10, 98, 10] (Some [0, 2, 4])\<rparr>, 2)"
  using incremental_line_index[of "sb_new 0 [97, 10]" "[97, 10]" "[98, 10]"]
  by (simp add: sb_new_def compute_line_starts_def newline_def)

text \<open>
  A line of a piece is found through the index of the whole buffer. For an indexed buffer and
  a piece inside it, the lookup gives the buffer offset at which that line of the piece starts,
  and gives nothing exactly when no byte of the piece belongs to the line.
\<close>

theorem line_start_in_piece:
  assumes "sb_data b = Loaded data (Some (compute_line_starts data))"
    and "ps \<le> pe" and "pe \<le> length data"
  shows "nth_line_start_in_piece b ps pe k =
           (if k = 0 then Some ps
            else let off = line_offset (take (pe - ps) (drop ps data)) k in
                 if off < pe - ps then Some (ps + off) else None)"
  using nth_line_start_correct[of b data _ ps "pe - ps" k] assms by (simp add: sb_ok_def Let_def)

theorem line_start_in_piece_witness:
  "nth_line_start_in_piece (sb_new 0 [97, 10, 98, 10, 99, 10]) 1 5 2 = Some 4 \<and>
   nth_line_start_in_piece (sb_new 0 [97, 10, 98, 10, 99, 10]) 2 4 1 = None"
  by (intro conjI; subst line_start_in_piece[where data = "[97, 10, 98, 10, 99, 10]"]; code_simp)

end
