(* ===== verification/Piece_Tree.thy ===== *)
theory Piece_Tree
  imports String_Buffer
begin

text \<open>
  The nodes of the piece tree of \<open>model/piece_tree.rs\<close>: the data types, the read-only node
  methods, the balanced build, and the well-formedness of a node with the text it stands for.
  \<open>Arc\<close> sharing is not observable by these operations, so a shared child is a child.
\<close>

subsection \<open>Data\<close>

datatype BufferLocation = Stored nat | Added nat

fun buffer_id :: "BufferLocation \<Rightarrow> nat" where
  "buffer_id (Stored i) = i"
| "buffer_id (Added i) = i"

text \<open>
  \<open>Internal left_bytes lf_left left right\<close> and \<open>Leaf location offset bytes line_feed_cnt\<close>.
\<close>

datatype PieceTreeNode =
    Internal nat "nat option" PieceTreeNode PieceTreeNode
  | Leaf BufferLocation nat nat "nat option"

record LeafData =
  ld_location :: BufferLocation
  ld_offset :: nat
  ld_bytes :: nat
  ld_line_feed_cnt :: "nat option"

definition LeafData_new :: "BufferLocation \<Rightarrow> nat \<Rightarrow> nat \<Rightarrow> nat option \<Rightarrow> LeafData" where
  "LeafData_new location offset bytes line_feed_cnt =
     \<lparr>ld_location = location, ld_offset = offset, ld_bytes = bytes,
      ld_line_feed_cnt = line_feed_cnt\<rparr>"

record PieceInfo =
  pi_location :: BufferLocation
  pi_offset :: nat
  pi_bytes :: nat
  pi_offset_in_piece :: "nat option"
  pi_line_feeds :: "nat option"

record OffsetFindResult =
  info :: PieceInfo
  bytes_before :: nat

record TreeStats =
  ts_total_bytes :: nat
  ts_depth :: nat
  ts_leaf_count :: nat
  ts_line_feed_count :: "nat option"

subsection \<open>Node methods\<close>

fun node_find_by_offset :: "PieceTreeNode \<Rightarrow> nat \<Rightarrow> OffsetFindResult option" where
  "node_find_by_offset (Internal left_bytes _ left right) offset =
     (if offset < left_bytes then node_find_by_offset left offset
      else map_option (\<lambda>result. result\<lparr>bytes_before := bytes_before result + left_bytes\<rparr>)
             (node_find_by_offset right (offset - left_bytes)))"
| "node_find_by_offset (Leaf location piece_offset bytes line_feed_cnt) offset =
     (if offset < bytes
      then Some \<lparr>info = \<lparr>pi_location = location, pi_offset = piece_offset, pi_bytes = bytes,
                          pi_offset_in_piece = Some offset, pi_line_feeds = line_feed_cnt\<rparr>,
                 bytes_before = 0\<rparr>
      else None)"

fun node_total_bytes :: "PieceTreeNode \<Rightarrow> nat" where
  "node_total_bytes (Internal left_bytes _ _ right) = left_bytes + node_total_bytes right"
| "node_total_bytes (Leaf _ _ bytes _) = bytes"

fun total_line_feeds :: "PieceTreeNode \<Rightarrow> nat option" where
  "total_line_feeds (Internal _ lf_left _ right) =
     (case (lf_left, total_line_feeds right) of
        (Some l, Some r) \<Rightarrow> Some (l + r)
      | _ \<Rightarrow> None)"
| "total_line_feeds (Leaf _ _ _ line_feed_cnt) = line_feed_cnt"

fun node_depth :: "PieceTreeNode \<Rightarrow> nat" where
  "node_depth (Internal _ _ left right) = 1 + max (node_depth left) (node_depth right)"
| "node_depth (Leaf _ _ _ _) = 1"

fun count_leaves :: "PieceTreeNode \<Rightarrow> nat" where
  "count_leaves (Internal _ _ left right) = count_leaves left + count_leaves right"
| "count_leaves (Leaf _ _ _ _) = 1"

fun update_leaf_lf_by_index :: "PieceTreeNode \<Rightarrow> nat \<Rightarrow> nat \<Rightarrow> PieceTreeNode \<times> bool" where
  "update_leaf_lf_by_index (Leaf location offset bytes lf) leaf_index lf_count =
     (if leaf_index = 0 then (Leaf location offset bytes (Some lf_count), True)
      else (Leaf location offset bytes lf, False))"
| "update_leaf_lf_by_index (Internal left_bytes lf_left left right) leaf_index lf_count =
     (let left_leaf_count = count_leaves left in
      if leaf_index < left_leaf_count then
        (case update_leaf_lf_by_index left leaf_index lf_count of (new_left, found) \<Rightarrow>
           if found then (Internal left_bytes (total_line_feeds new_left) new_left right, True)
           else (Internal left_bytes lf_left left right, False))
      else
        (case update_leaf_lf_by_index right (leaf_index - left_leaf_count) lf_count of
           (new_right, found) \<Rightarrow>
             if found then (Internal left_bytes lf_left left new_right, True)
             else (Internal left_bytes lf_left left right, False)))"

fun set_leaf_lf_at :: "PieceTreeNode \<Rightarrow> nat \<Rightarrow> nat \<Rightarrow> nat \<Rightarrow> PieceTreeNode \<times> bool" where
  "set_leaf_lf_at (Leaf location offset leaf_bytes line_feed_cnt) doc_offset bytes lf_count =
     (if doc_offset \<noteq> 0 \<or> leaf_bytes \<noteq> bytes
      then (Leaf location offset leaf_bytes line_feed_cnt, False)
      else if line_feed_cnt = Some lf_count
      then (Leaf location offset leaf_bytes line_feed_cnt, False)
      else (Leaf location offset leaf_bytes (Some lf_count), True))"
| "set_leaf_lf_at (Internal left_bytes lf_left left right) doc_offset bytes lf_count =
     (if doc_offset < left_bytes then
        (case set_leaf_lf_at left doc_offset bytes lf_count of (new_left, found) \<Rightarrow>
           if \<not> found then (Internal left_bytes lf_left left right, False)
           else (Internal left_bytes (total_line_feeds new_left) new_left right, True))
      else
        (case set_leaf_lf_at right (doc_offset - left_bytes) bytes lf_count of
           (new_right, found) \<Rightarrow>
             if \<not> found then (Internal left_bytes lf_left left right, False)
             else (Internal left_bytes lf_left left new_right, True)))"

fun collect_leaves :: "PieceTreeNode \<Rightarrow> LeafData list \<Rightarrow> LeafData list" where
  "collect_leaves (Internal _ _ left right) leaves =
     collect_leaves right (collect_leaves left leaves)"
| "collect_leaves (Leaf location offset bytes line_feed_cnt) leaves =
     leaves @ [LeafData_new location offset bytes line_feed_cnt]"

fun count_lines_in_byte_range :: "PieceTreeNode \<Rightarrow> nat \<Rightarrow> nat \<Rightarrow> nat \<Rightarrow> nat option" where
  "count_lines_in_byte_range (Internal left_bytes lf_left left right) current_offset start fin =
     (let left_end = current_offset + left_bytes;
          total = node_total_bytes (Internal left_bytes lf_left left right) in
      if fin \<le> current_offset \<or> start \<ge> current_offset + total then Some 0
      else if start \<le> current_offset \<and> fin \<ge> current_offset + total
      then total_line_feeds (Internal left_bytes lf_left left right)
      else if fin \<le> left_end then count_lines_in_byte_range left current_offset start fin
      else if start \<ge> left_end then count_lines_in_byte_range right left_end start fin
      else do {
        left_count \<leftarrow> count_lines_in_byte_range left current_offset start fin;
        right_count \<leftarrow> count_lines_in_byte_range right left_end start fin;
        Some (left_count + right_count)
      })"
| "count_lines_in_byte_range (Leaf _ _ bytes line_feed_cnt) current_offset start fin =
     (let node_end = current_offset + bytes in
      if fin \<le> current_offset \<or> start \<ge> node_end then Some 0
      else if start \<le> current_offset \<and> fin \<ge> node_end then line_feed_cnt
      else line_feed_cnt)"

text \<open>
  \<open>find_byte_offset_for_line\<close>. The last byte of a leaf is read at \<open>offset + bytes - 1\<close>; for an
  empty leaf at offset 0 the subtraction has no non-negative value and no byte is found there.
\<close>

definition leaf_last_byte :: "StringBuffer list \<Rightarrow> BufferLocation \<Rightarrow> nat \<Rightarrow> nat \<Rightarrow> byte option" where
  "leaf_last_byte buffers location offset bytes =
     do {
       buffer \<leftarrow> slice_get buffers (buffer_id location);
       data \<leftarrow> get_data buffer;
       if offset + bytes = 0 then None else slice_get data (offset + bytes - 1)
     }"

definition leaf_offset_for_line ::
  "nat \<Rightarrow> nat \<Rightarrow> nat \<Rightarrow> nat \<Rightarrow> StringBuffer list \<Rightarrow> BufferLocation \<Rightarrow> nat \<Rightarrow> nat \<Rightarrow> nat option
   \<Rightarrow> nat option" where
  "leaf_offset_for_line current_offset lines_before target_line column buffers
       location offset bytes line_feed_cnt =
     do {
       lf \<leftarrow> line_feed_cnt;
       let lines_in_piece = lines_before + lf;
       ends_here \<leftarrow>
         (if column = 0 \<and> target_line = lines_in_piece \<and> target_line > lines_before
          then map_option (\<lambda>last_byte. last_byte = newline)
                 (leaf_last_byte buffers location offset bytes)
          else Some False);
       if ends_here then None
       else if target_line < lines_before \<or> target_line > lines_in_piece then None
       else do {
         buffer \<leftarrow> slice_get buffers (buffer_id location);
         let line_in_piece = target_line - lines_before;
         line_start_in_buffer \<leftarrow>
           nth_line_start_in_piece buffer offset (offset + bytes) line_in_piece;
         let target_offset_in_buffer = line_start_in_buffer + column;
         let offset_in_piece = target_offset_in_buffer - offset;
         Some (current_offset + min offset_in_piece bytes)
       }
     }"

fun find_byte_offset_for_line ::
  "PieceTreeNode \<Rightarrow> nat \<Rightarrow> nat \<Rightarrow> nat \<Rightarrow> nat \<Rightarrow> StringBuffer list \<Rightarrow> nat option" where
  "find_byte_offset_for_line (Internal left_bytes lf_left left right)
       current_offset lines_before target_line column buffers =
     (case lf_left of
        None \<Rightarrow> None
      | Some lf \<Rightarrow>
          (let lines_after_left = lines_before + lf;
               go_left = (if column = 0 then target_line \<le> lines_after_left
                          else target_line < lines_after_left) in
           if go_left then
             (case find_byte_offset_for_line left current_offset lines_before
                     target_line column buffers of
                Some r \<Rightarrow> Some r
              | None \<Rightarrow> find_byte_offset_for_line right (current_offset + left_bytes)
                          lines_after_left target_line column buffers)
           else find_byte_offset_for_line right (current_offset + left_bytes)
                  lines_after_left target_line column buffers))"
| "find_byte_offset_for_line (Leaf location offset bytes line_feed_cnt)
       current_offset lines_before target_line column buffers =
     leaf_offset_for_line current_offset lines_before target_line column buffers
       location offset bytes line_feed_cnt"

fun find_piece_for_line ::
  "PieceTreeNode \<Rightarrow> nat \<Rightarrow> nat \<Rightarrow> nat \<Rightarrow> (nat \<times> nat \<times> nat \<times> nat \<times> nat) option" where
  "find_piece_for_line (Internal left_bytes lf_left left right)
       current_offset lines_before target_line =
     (case lf_left of
        None \<Rightarrow> None
      | Some lf \<Rightarrow>
          (let lines_after_left = lines_before + lf in
           if target_line \<le> lines_after_left then
             (case find_piece_for_line left current_offset lines_before target_line of
                Some r \<Rightarrow> Some r
              | None \<Rightarrow> find_piece_for_line right (current_offset + left_bytes)
                          lines_after_left target_line)
           else find_piece_for_line right (current_offset + left_bytes)
                  lines_after_left target_line))"
| "find_piece_for_line (Leaf location offset bytes line_feed_cnt)
       current_offset lines_before target_line =
     (case line_feed_cnt of
        None \<Rightarrow> None
      | Some lf \<Rightarrow>
          (if target_line \<ge> lines_before \<and> target_line \<le> lines_before + lf
           then Some (current_offset, buffer_id location, offset, bytes, lines_before)
           else None))"

subsection \<open>The balanced build\<close>

definition leaf_node :: "LeafData \<Rightarrow> PieceTreeNode" where
  "leaf_node ld = Leaf (ld_location ld) (ld_offset ld) (ld_bytes ld) (ld_line_feed_cnt ld)"

definition empty_leaf :: PieceTreeNode where
  "empty_leaf = Leaf (Stored 0) 0 0 (Some 0)"

function build_balanced :: "LeafData list \<Rightarrow> PieceTreeNode" where
  "build_balanced leaves =
     (if leaves = [] then empty_leaf
      else if length leaves = 1 then leaf_node (leaves ! 0)
      else let mid = length leaves div 2;
               left = build_balanced (take mid leaves);
               right = build_balanced (drop mid leaves)
           in Internal (node_total_bytes left) (total_line_feeds left) left right)"
  by pat_completeness auto
termination
  by (relation "measure length") (auto simp: neq_Nil_conv)

declare build_balanced.simps [simp del]

subsection \<open>The text of a node and its well-formedness\<close>

text \<open>
  \<open>files\<close> gives the bytes of every file and \<open>bufs\<close> is the buffer list. A piece is in order
  when its range lies inside the text of its buffer and a recorded line feed count is the count
  of that range; an internal node is in order when its two cached sums are those of its left child.
\<close>

definition piece_text ::
  "(string \<Rightarrow> byte list) \<Rightarrow> StringBuffer list \<Rightarrow> BufferLocation \<Rightarrow> nat \<Rightarrow> nat \<Rightarrow> byte list" where
  "piece_text files bufs location offset bytes =
     (case slice_get bufs (buffer_id location) of
        Some b \<Rightarrow> take bytes (drop offset (buffer_bytes files b))
      | None \<Rightarrow> [])"

definition piece_ok ::
  "(string \<Rightarrow> byte list) \<Rightarrow> StringBuffer list \<Rightarrow> BufferLocation \<Rightarrow> nat \<Rightarrow> nat \<Rightarrow> nat option \<Rightarrow> bool"
  where
  "piece_ok files bufs location offset bytes lf \<longleftrightarrow>
     length (piece_text files bufs location offset bytes) = bytes \<and>
     (case lf of Some k \<Rightarrow> k = count_nl (piece_text files bufs location offset bytes)
      | None \<Rightarrow> True)"

definition ld_text :: "(string \<Rightarrow> byte list) \<Rightarrow> StringBuffer list \<Rightarrow> LeafData \<Rightarrow> byte list" where
  "ld_text files bufs ld = piece_text files bufs (ld_location ld) (ld_offset ld) (ld_bytes ld)"

definition ld_ok :: "(string \<Rightarrow> byte list) \<Rightarrow> StringBuffer list \<Rightarrow> LeafData \<Rightarrow> bool" where
  "ld_ok files bufs ld =
     piece_ok files bufs (ld_location ld) (ld_offset ld) (ld_bytes ld) (ld_line_feed_cnt ld)"

fun node_leaves :: "PieceTreeNode \<Rightarrow> LeafData list" where
  "node_leaves (Internal _ _ left right) = node_leaves left @ node_leaves right"
| "node_leaves (Leaf location offset bytes lf) = [LeafData_new location offset bytes lf]"

fun caches_ok :: "PieceTreeNode \<Rightarrow> bool" where
  "caches_ok (Internal lb lf left right) \<longleftrightarrow>
     lb = node_total_bytes left \<and> lf = total_line_feeds left \<and> caches_ok left \<and> caches_ok right"
| "caches_ok (Leaf _ _ _ _) \<longleftrightarrow> True"

definition leaves_text :: "(string \<Rightarrow> byte list) \<Rightarrow> StringBuffer list \<Rightarrow> LeafData list \<Rightarrow> byte list"
  where "leaves_text files bufs lds = concat (map (ld_text files bufs) lds)"

definition node_text :: "(string \<Rightarrow> byte list) \<Rightarrow> StringBuffer list \<Rightarrow> PieceTreeNode \<Rightarrow> byte list"
  where "node_text files bufs n = leaves_text files bufs (node_leaves n)"

definition node_ok :: "(string \<Rightarrow> byte list) \<Rightarrow> StringBuffer list \<Rightarrow> PieceTreeNode \<Rightarrow> bool" where
  "node_ok files bufs n \<longleftrightarrow> caches_ok n \<and> list_all (ld_ok files bufs) (node_leaves n)"

lemma LeafData_new_sel [simp]:
  "ld_location (LeafData_new l o' b lf) = l" "ld_offset (LeafData_new l o' b lf) = o'"
  "ld_bytes (LeafData_new l o' b lf) = b" "ld_line_feed_cnt (LeafData_new l o' b lf) = lf"
  by (simp_all add: LeafData_new_def)

lemma LeafData_new_collapse [simp]:
  "LeafData_new (ld_location ld) (ld_offset ld) (ld_bytes ld) (ld_line_feed_cnt ld) = ld"
  by (simp add: LeafData_new_def)

lemma leaves_text_simps [simp]:
  "leaves_text f b [] = []"
  "leaves_text f b (x # xs) = ld_text f b x @ leaves_text f b xs"
  "leaves_text f b (xs @ ys) = leaves_text f b xs @ leaves_text f b ys"
  by (simp_all add: leaves_text_def)

lemma ld_new_text [simp]: "ld_text f b (LeafData_new l off n lf) = piece_text f b l off n"
  by (simp add: ld_text_def)

lemma ld_new_ok [simp]: "ld_ok f b (LeafData_new l off n lf) = piece_ok f b l off n lf"
  by (simp add: ld_ok_def)

lemma ld_ok_alt:
  "ld_ok f b ld \<longleftrightarrow> length (ld_text f b ld) = ld_bytes ld \<and>
     (case ld_line_feed_cnt ld of Some k \<Rightarrow> k = count_nl (ld_text f b ld) | None \<Rightarrow> True)"
  by (simp add: ld_ok_def piece_ok_def ld_text_def split: option.splits)

lemma node_text_simps [simp]:
  "node_text f b (Internal lb lf l r) = node_text f b l @ node_text f b r"
  "node_text f b (Leaf loc off n k) = piece_text f b loc off n"
  by (simp_all add: node_text_def)

lemma node_ok_simps [simp]:
  "node_ok f b (Internal lb lf l r) \<longleftrightarrow>
     lb = node_total_bytes l \<and> lf = total_line_feeds l \<and> node_ok f b l \<and> node_ok f b r"
  "node_ok f b (Leaf loc off n k) \<longleftrightarrow> piece_ok f b loc off n k"
  by (auto simp: node_ok_def)

lemma collect_leaves_eq [simp]: "collect_leaves n acc = acc @ node_leaves n"
  by (induction n arbitrary: acc) auto

lemma count_leaves_length [simp]: "count_leaves n = length (node_leaves n)"
  by (induction n) auto

lemma node_leaves_nonempty [simp]: "node_leaves n \<noteq> []"
  by (induction n) auto

lemma node_leaves_leaf_node [simp]: "node_leaves (leaf_node ld) = [ld]"
  by (simp add: leaf_node_def)

lemma piece_ok_length: "piece_ok f b l off n lf \<Longrightarrow> length (piece_text f b l off n) = n"
  by (simp add: piece_ok_def)

lemma piece_ok_count: "piece_ok f b l off n (Some k) \<Longrightarrow> k = count_nl (piece_text f b l off n)"
  by (simp add: piece_ok_def)

lemma node_ok_length: "node_ok f b n \<Longrightarrow> length (node_text f b n) = node_total_bytes n"
  by (induction n) (auto simp: piece_ok_length)

lemma node_ok_count:
  "node_ok f b n \<Longrightarrow> total_line_feeds n = Some k \<Longrightarrow> k = count_nl (node_text f b n)"
proof (induction n arbitrary: k)
  case (Internal lb lf l r)
  then show ?case by (auto split: option.splits)
qed (auto simp: piece_ok_count)

lemma empty_leaf_ok [simp]: "node_ok f b empty_leaf"
  by (auto simp: empty_leaf_def piece_ok_def piece_text_def split: option.splits)

lemma piece_text_0 [simp]: "piece_text f b l off 0 = []"
  by (auto simp: piece_text_def split: option.splits)

lemma empty_leaf_simps [simp]:
  "node_text f b empty_leaf = []" "node_total_bytes empty_leaf = 0"
  "total_line_feeds empty_leaf = Some 0"
  by (simp_all add: empty_leaf_def)

subsection \<open>The balanced build is correct\<close>

lemma build_balanced_Nil [simp]: "build_balanced [] = empty_leaf"
  by (simp add: build_balanced.simps)

lemma build_balanced_single [simp]: "build_balanced [ld] = leaf_node ld"
  by (simp add: build_balanced.simps)

lemma build_balanced_leaves:
  "leaves \<noteq> [] \<Longrightarrow> node_leaves (build_balanced leaves) = leaves"
proof (induction leaves rule: build_balanced.induct)
  case (1 leaves)
  show ?case
  proof (cases "length leaves = 1")
    case True
    then show ?thesis by (auto simp: length_Suc_conv)
  next
    case False
    with "1.prems" have "2 \<le> length leaves" by (cases leaves; cases "tl leaves") auto
    with False "1.prems" "1.IH" show ?thesis
      by (subst build_balanced.simps) (simp add: Let_def)
  qed
qed

lemma build_balanced_caches: "caches_ok (build_balanced leaves)"
proof (induction leaves rule: build_balanced.induct)
  case (1 leaves)
  then show ?case
    by (subst build_balanced.simps) (simp add: Let_def empty_leaf_def leaf_node_def)
qed

lemma build_balanced_text [simp]:
  "node_text f b (build_balanced leaves) = leaves_text f b leaves"
  by (cases "leaves = []") (simp_all add: node_text_def build_balanced_leaves empty_leaf_def)

lemma build_balanced_ok:
  "list_all (ld_ok f b) leaves \<Longrightarrow> node_ok f b (build_balanced leaves)"
  by (cases "leaves = []") (simp_all add: node_ok_def build_balanced_caches build_balanced_leaves,
      simp add: empty_leaf_def piece_ok_def)

lemma leaves_total_bytes:
  "caches_ok n \<Longrightarrow> node_total_bytes n = sum_list (map ld_bytes (node_leaves n))"
  by (induction n) auto

lemma build_balanced_bytes [simp]:
  "node_total_bytes (build_balanced leaves) = sum_list (map ld_bytes leaves)"
  by (cases "leaves = []")
     (simp_all add: leaves_total_bytes[OF build_balanced_caches] build_balanced_leaves)

lemma ceil_log2_simps [simp]: "ceil_log2 0 = 0" "ceil_log2 (Suc 0) = 0"
  by (simp_all add: ceil_log2.simps)

lemma ceil_log2_rec: "2 \<le> n \<Longrightarrow> ceil_log2 n = Suc (ceil_log2 (Suc n div 2))"
  by (subst ceil_log2.simps) simp

lemma ceil_log2_mono: "m \<le> n \<Longrightarrow> ceil_log2 m \<le> ceil_log2 n"
proof (induction n arbitrary: m rule: ceil_log2.induct)
  case (1 n)
  show ?case
  proof (cases "m \<le> 1")
    case True
    then show ?thesis by (simp add: ceil_log2.simps)
  next
    case False
    with "1.prems" have "ceil_log2 (Suc m div 2) \<le> ceil_log2 (Suc n div 2)"
      by (intro "1.IH") auto
    with False "1.prems" show ?thesis by (simp add: ceil_log2_rec)
  qed
qed

lemma ceil_log2_pos: "2 \<le> n \<Longrightarrow> 1 \<le> ceil_log2 n"
  by (simp add: ceil_log2_rec)

lemma ceil_log2_spec: "n \<le> 2 ^ ceil_log2 n"
proof (induction n rule: ceil_log2.induct)
  case (1 n)
  then show ?case by (cases "n \<le> 1") (auto simp: ceil_log2.simps[of n])
qed

text \<open>A balanced build of \<open>n\<close> leaves has depth \<open>1 + \<lceil>log2 n\<rceil>\<close>.\<close>

lemma build_balanced_depth:
  "leaves \<noteq> [] \<Longrightarrow> node_depth (build_balanced leaves) = Suc (ceil_log2 (length leaves))"
proof (induction leaves rule: build_balanced.induct)
  case (1 leaves)
  show ?case
  proof (cases "length leaves = 1")
    case True
    then show ?thesis by (auto simp: length_Suc_conv leaf_node_def)
  next
    case False
    let ?n = "length leaves" let ?m = "length leaves div 2"
    from False "1.prems" have n: "2 \<le> ?n" by (cases leaves; cases "tl leaves") auto
    have half: "?n - ?m = Suc ?n div 2" by presburger
    have "ceil_log2 ?m \<le> ceil_log2 (Suc ?n div 2)" by (rule ceil_log2_mono) simp
    moreover have "node_depth (build_balanced (take ?m leaves)) = Suc (ceil_log2 ?m)"
      using n False "1.prems" "1.IH"(1) by simp
    moreover have "node_depth (build_balanced (drop ?m leaves)) = Suc (ceil_log2 (Suc ?n div 2))"
      using n False "1.prems" "1.IH"(2) half by simp
    ultimately show ?thesis
      using n False "1.prems" ceil_log2_rec[OF n]
      by (subst build_balanced.simps) (simp add: Let_def)
  qed
qed

end
