(* ===== verification/Piece_Edit.thy ===== *)
theory Piece_Edit
  imports Piece_Tree
begin

text \<open>
  The editing operations of \<open>PieceTree\<close> (\<open>model/piece_tree.rs\<close>): path-copying insert and delete,
  rebalancing, splitting, buffer replacement and line feed updates, and the proof that they act on
  the text of the document as the corresponding list operations do. An operation that indexes
  buffer data with a range can panic and has an \<open>option\<close> result; on a well-formed tree it does not.
\<close>

subsection \<open>Data\<close>

record PieceTree =
  root :: PieceTreeNode
  pt_total_bytes :: nat

text \<open>The \<open>Cursor\<close> of \<open>piece_tree.rs\<close>, the position an insertion returns.\<close>

record PtCursor =
  pc_byte_offset :: nat
  pc_line :: nat
  pc_col :: nat

subsection \<open>Construction\<close>

definition pt_new :: "BufferLocation \<Rightarrow> nat \<Rightarrow> nat \<Rightarrow> nat option \<Rightarrow> PieceTree" where
  "pt_new location offset bytes line_feed_cnt =
     \<lparr>root = Leaf location offset bytes line_feed_cnt, pt_total_bytes = bytes\<rparr>"

definition pt_empty :: PieceTree where
  "pt_empty = \<lparr>root = Leaf (Stored 0) 0 0 (Some 0), pt_total_bytes = 0\<rparr>"

definition from_root :: "PieceTreeNode \<Rightarrow> PieceTree" where
  "from_root n = \<lparr>root = n, pt_total_bytes = node_total_bytes n\<rparr>"

definition from_leaves :: "LeafData list \<Rightarrow> PieceTree" where
  "from_leaves leaves =
     \<lparr>root = build_balanced leaves, pt_total_bytes = sum_list (map ld_bytes leaves)\<rparr>"

subsection \<open>Editing\<close>

definition compute_line_feeds_static ::
  "StringBuffer list \<Rightarrow> BufferLocation \<Rightarrow> nat \<Rightarrow> nat \<Rightarrow> nat option option" where
  "compute_line_feeds_static buffers location offset bytes =
     (case slice_get buffers (buffer_id location) of
        Some buffer \<Rightarrow>
          (case get_data buffer of
             Some data \<Rightarrow>
               (let fin = min (offset + bytes) (length data) in
                map_option (\<lambda>s. Some (count_nl s)) (index_range data offset fin))
           | None \<Rightarrow> Some None)
      | None \<Rightarrow> Some None)"

fun path_copy_insert ::
  "PieceTreeNode \<Rightarrow> nat \<Rightarrow> nat \<Rightarrow> LeafData \<Rightarrow> StringBuffer list \<Rightarrow> PieceTreeNode option" where
  "path_copy_insert (Internal left_bytes lf_left left right)
       current_offset insert_offset insert_leaf buffers =
     (let left_end = current_offset + left_bytes in
      if insert_offset < left_end then do {
        new_left \<leftarrow> path_copy_insert left current_offset insert_offset insert_leaf buffers;
        Some (Internal (node_total_bytes new_left) (total_line_feeds new_left) new_left right)
      }
      else if insert_offset > left_end then do {
        new_right \<leftarrow> path_copy_insert right left_end insert_offset insert_leaf buffers;
        Some (Internal left_bytes lf_left left new_right)
      }
      else do {
        new_right \<leftarrow> path_copy_insert right left_end insert_offset insert_leaf buffers;
        Some (Internal left_bytes lf_left left new_right)
      })"
| "path_copy_insert (Leaf location offset bytes line_feed_cnt)
       current_offset insert_offset insert_leaf buffers =
     (let piece_end = current_offset + bytes;
          offset_in_piece = insert_offset - current_offset in
      if offset_in_piece > 0 \<and> insert_offset < piece_end then do {
        let before_bytes = offset_in_piece;
        let after_bytes = bytes - offset_in_piece;
        lf_before \<leftarrow> compute_line_feeds_static buffers location offset before_bytes;
        lf_after \<leftarrow> compute_line_feeds_static buffers location (offset + before_bytes) after_bytes;
        let leaf_before = LeafData_new location offset before_bytes lf_before;
        let leaf_after = LeafData_new location (offset + before_bytes) after_bytes lf_after;
        Some (build_balanced [leaf_before, insert_leaf, leaf_after])
      }
      else if insert_offset \<le> current_offset then
        (if bytes = 0 then Some (leaf_node insert_leaf)
         else let existing = LeafData_new location offset bytes line_feed_cnt
              in Some (build_balanced [insert_leaf, existing]))
      else let existing = LeafData_new location offset bytes line_feed_cnt
           in Some (build_balanced [existing, insert_leaf]))"

fun path_copy_delete ::
  "PieceTreeNode \<Rightarrow> nat \<Rightarrow> nat \<Rightarrow> nat \<Rightarrow> StringBuffer list \<Rightarrow> PieceTreeNode option" where
  "path_copy_delete (Internal left_bytes lf_left left right)
       current_offset delete_start delete_end buffers =
     (let left_end = current_offset + left_bytes in
      if delete_end \<le> left_end then do {
        new_left \<leftarrow> path_copy_delete left current_offset delete_start delete_end buffers;
        let new_left_bytes = node_total_bytes new_left;
        if new_left_bytes = 0 then Some right
        else Some (Internal new_left_bytes (total_line_feeds new_left) new_left right)
      }
      else if delete_start \<ge> left_end then do {
        new_right \<leftarrow> path_copy_delete right left_end delete_start delete_end buffers;
        if node_total_bytes new_right = 0 then Some left
        else Some (Internal left_bytes lf_left left new_right)
      }
      else do {
        new_left \<leftarrow> path_copy_delete left current_offset delete_start
                      (min left_end delete_end) buffers;
        new_right \<leftarrow> path_copy_delete right left_end (max left_end delete_start)
                       delete_end buffers;
        let new_left_bytes = node_total_bytes new_left;
        let new_right_bytes = node_total_bytes new_right;
        if new_left_bytes = 0 \<and> new_right_bytes = 0 then Some (Leaf (Stored 0) 0 0 (Some 0))
        else if new_left_bytes = 0 then Some new_right
        else if new_right_bytes = 0 then Some new_left
        else Some (Internal new_left_bytes (total_line_feeds new_left) new_left new_right)
      })"
| "path_copy_delete (Leaf location offset bytes line_feed_cnt)
       current_offset delete_start delete_end buffers =
     (let piece_start = current_offset; piece_end = current_offset + bytes in
      if piece_end \<le> delete_start \<or> piece_start \<ge> delete_end
      then Some (Leaf location offset bytes line_feed_cnt)
      else if delete_start \<le> piece_start \<and> delete_end \<ge> piece_end
      then Some (Leaf (Stored 0) 0 0 (Some 0))
      else let before_bytes = delete_start - piece_start;
               after_bytes = piece_end - delete_end in
        if before_bytes > 0 \<and> after_bytes > 0 then do {
          lf_before \<leftarrow> compute_line_feeds_static buffers location offset before_bytes;
          lf_after \<leftarrow> compute_line_feeds_static buffers location
                        (offset + bytes - after_bytes) after_bytes;
          let leaf_before = LeafData_new location offset before_bytes lf_before;
          let leaf_after = LeafData_new location (offset + bytes - after_bytes)
                             after_bytes lf_after;
          Some (build_balanced [leaf_before, leaf_after])
        }
        else if before_bytes > 0 then do {
          lf_cnt \<leftarrow> compute_line_feeds_static buffers location offset before_bytes;
          Some (Leaf location offset before_bytes lf_cnt)
        }
        else do {
          let skip = delete_end - piece_start;
          lf_cnt \<leftarrow> compute_line_feeds_static buffers location (offset + skip) after_bytes;
          Some (Leaf location (offset + skip) after_bytes lf_cnt)
        })"

definition rebalance :: "PieceTree \<Rightarrow> PieceTree" where
  "rebalance t = t\<lparr>root := build_balanced (collect_leaves (root t) [])\<rparr>"

definition check_and_rebalance :: "PieceTree \<Rightarrow> PieceTree" where
  "check_and_rebalance t =
     (let count = count_leaves (root t) in
      if count < 2 then t
      else let depth = node_depth (root t); max_depth = 2 * ceil_log2 count
           in if depth > max_depth then rebalance t else t)"

definition pt_find_by_offset :: "PieceTree \<Rightarrow> nat \<Rightarrow> PieceInfo option" where
  "pt_find_by_offset t offset =
     (if offset \<ge> pt_total_bytes t then None
      else map_option info (node_find_by_offset (root t) offset))"

definition cursor_at_offset :: "PieceTree \<Rightarrow> nat \<Rightarrow> PtCursor" where
  "cursor_at_offset t offset =
     \<lparr>pc_byte_offset = min offset (pt_total_bytes t), pc_line = 0, pc_col = 0\<rparr>"

definition pt_insert ::
  "PieceTree \<Rightarrow> nat \<Rightarrow> BufferLocation \<Rightarrow> nat \<Rightarrow> nat \<Rightarrow> nat option \<Rightarrow> StringBuffer list
   \<Rightarrow> (PieceTree \<times> PtCursor) option" where
  "pt_insert t offset location buffer_offset bytes line_feed_cnt buffers =
     (if bytes = 0 then Some (t, cursor_at_offset t offset)
      else do {
        let insert_leaf = LeafData_new location buffer_offset bytes line_feed_cnt;
        new_root \<leftarrow> path_copy_insert (root t) 0 offset insert_leaf buffers;
        let t' = check_and_rebalance
                   \<lparr>root = new_root, pt_total_bytes = pt_total_bytes t + bytes\<rparr>;
        Some (t', cursor_at_offset t' (offset + bytes))
      })"

definition pt_delete :: "PieceTree \<Rightarrow> nat \<Rightarrow> nat \<Rightarrow> StringBuffer list \<Rightarrow> PieceTree option" where
  "pt_delete t offset delete_bytes buffers =
     (if delete_bytes = 0 \<or> offset \<ge> pt_total_bytes t then Some t
      else do {
        let delete_bytes = min delete_bytes (pt_total_bytes t - offset);
        let end_offset = offset + delete_bytes;
        new_root \<leftarrow> path_copy_delete (root t) 0 offset end_offset buffers;
        Some (check_and_rebalance
                \<lparr>root = new_root, pt_total_bytes = pt_total_bytes t - delete_bytes\<rparr>)
      })"

fun collect_leaves_with_split ::
  "PieceTreeNode \<Rightarrow> nat \<Rightarrow> nat \<Rightarrow> LeafData option \<Rightarrow> LeafData list \<Rightarrow> StringBuffer list
   \<Rightarrow> LeafData list option" where
  "collect_leaves_with_split (Internal left_bytes _ left right)
       current_offset split_offset ins leaves buffers =
     (if split_offset < current_offset + left_bytes then do {
        leaves1 \<leftarrow> collect_leaves_with_split left current_offset split_offset ins leaves buffers;
        collect_leaves_with_split right (current_offset + left_bytes) split_offset None
          leaves1 buffers
      }
      else do {
        leaves1 \<leftarrow> collect_leaves_with_split left current_offset split_offset None leaves buffers;
        collect_leaves_with_split right (current_offset + left_bytes) split_offset ins
          leaves1 buffers
      })"
| "collect_leaves_with_split (Leaf location offset bytes line_feed_cnt)
       current_offset split_offset ins leaves buffers =
     (let piece_end = current_offset + bytes;
          inserted = (case ins of Some insert_leaf \<Rightarrow> [insert_leaf] | None \<Rightarrow> []) in
      if split_offset > current_offset \<and> split_offset < piece_end then do {
        let offset_in_piece = split_offset - current_offset;
        first_part \<leftarrow> (if offset_in_piece > 0 then do {
             lf_cnt \<leftarrow> compute_line_feeds_static buffers location offset offset_in_piece;
             Some [LeafData_new location offset offset_in_piece lf_cnt]
           } else Some []);
        let remaining = bytes - offset_in_piece;
        second_part \<leftarrow> (if remaining > 0 then do {
             lf_cnt \<leftarrow> compute_line_feeds_static buffers location (offset + offset_in_piece)
                         remaining;
             Some [LeafData_new location (offset + offset_in_piece) remaining lf_cnt]
           } else Some []);
        Some (leaves @ first_part @ inserted @ second_part)
      }
      else if split_offset = current_offset
      then Some (leaves @ inserted @ [LeafData_new location offset bytes line_feed_cnt])
      else Some (leaves @ [LeafData_new location offset bytes line_feed_cnt]))"

definition split_at_offset :: "PieceTree \<Rightarrow> nat \<Rightarrow> StringBuffer list \<Rightarrow> PieceTree option" where
  "split_at_offset t offset buffers =
     (if offset = 0 \<or> offset \<ge> pt_total_bytes t then Some t
      else case node_find_by_offset (root t) offset of
        Some _ \<Rightarrow> do {
          leaves \<leftarrow> collect_leaves_with_split (root t) 0 offset None [] buffers;
          Some (check_and_rebalance (t\<lparr>root := build_balanced leaves\<rparr>))
        }
      | None \<Rightarrow> Some t)"

definition replace_buffer_reference ::
  "PieceTree \<Rightarrow> nat \<Rightarrow> nat \<Rightarrow> nat \<Rightarrow> BufferLocation \<Rightarrow> PieceTree" where
  "replace_buffer_reference t old_buffer_id old_buffer_offset old_buffer_bytes
       new_buffer_location =
     (let leaves = collect_leaves (root t) [];
          matches = (\<lambda>leaf. buffer_id (ld_location leaf) = old_buffer_id \<and>
                            ld_offset leaf = old_buffer_offset \<and>
                            ld_bytes leaf = old_buffer_bytes);
          modified = list_ex matches leaves;
          leaves' = map (\<lambda>leaf. if matches leaf
                                then leaf\<lparr>ld_location := new_buffer_location, ld_offset := 0\<rparr>
                                else leaf) leaves
      in if modified then check_and_rebalance (t\<lparr>root := build_balanced leaves'\<rparr>) else t)"

definition line_count :: "PieceTree \<Rightarrow> nat option" where
  "line_count t = map_option (\<lambda>lf. lf + 1) (total_line_feeds (root t))"

definition piece_info_for_line :: "PieceTree \<Rightarrow> nat \<Rightarrow> (nat \<times> nat \<times> nat \<times> nat \<times> nat) option" where
  "piece_info_for_line t target_line = find_piece_for_line (root t) 0 0 target_line"

definition pt_stats :: "PieceTree \<Rightarrow> TreeStats" where
  "pt_stats t =
     \<lparr>ts_total_bytes = pt_total_bytes t, ts_depth = node_depth (root t),
      ts_leaf_count = count_leaves (root t), ts_line_feed_count = total_line_feeds (root t)\<rparr>"

definition get_leaves :: "PieceTree \<Rightarrow> LeafData list" where
  "get_leaves t = collect_leaves (root t) []"

subsection \<open>Line feed counts of parts of a piece\<close>

lemma piece_text_take [text_simps]:
  "a \<le> n \<Longrightarrow> take a (piece_text f b l off n) = piece_text f b l off a"
  by (auto simp: piece_text_def min_def split: option.splits)

lemma piece_text_drop [text_simps]:
  "drop a (piece_text f b l off n) = piece_text f b l (off + a) (n - a)"
  by (auto simp: piece_text_def drop_take add.commute split: option.splits)

lemma piece_text_split:
  "a \<le> n \<Longrightarrow> piece_text f b l off n = piece_text f b l off a @ piece_text f b l (off + a) (n - a)"
  by (metis append_take_drop_id piece_text_drop piece_text_take)

lemma compute_line_feeds_ok:
  assumes "piece_ok f b l off n lf" and "a + m \<le> n" and "0 < m"
  shows "\<exists>lf'. compute_line_feeds_static b l (off + a) m = Some lf' \<and>
               piece_ok f b l (off + a) m lf'"
proof -
  obtain buf where buf: "slice_get b (buffer_id l) = Some buf"
    using assms by (cases "slice_get b (buffer_id l)") (auto simp: piece_ok_def piece_text_def)
  have len: "off + n \<le> length (buffer_bytes f buf)"
    using assms buf by (auto simp: piece_ok_def piece_text_def min_def split: if_splits)
  show ?thesis
  proof (cases "sb_data buf")
    case (Loaded data ls)
    then have "data = buffer_bytes f buf" by (simp add: buffer_bytes_def)
    with Loaded buf len assms show ?thesis
      by (auto simp: compute_line_feeds_static_def get_data_def index_range_def piece_ok_def
          piece_text_def Let_def)
  next
    case (Unloaded fp fo bs)
    with buf len assms show ?thesis
      by (auto simp: compute_line_feeds_static_def get_data_def piece_ok_def piece_text_def)
  qed
qed

lemma compute_line_feeds_prefix:
  assumes "piece_ok f b l off n lf" and "m \<le> n" and "0 < m"
  obtains lf' where "compute_line_feeds_static b l off m = Some lf'" and "piece_ok f b l off m lf'"
  using compute_line_feeds_ok[OF assms(1), of 0 m] assms(2,3) by auto

lemma compute_line_feeds_suffix:
  assumes "piece_ok f b l off n lf" and "a < n"
  obtains lf' where "compute_line_feeds_static b l (off + a) (n - a) = Some lf'"
    and "piece_ok f b l (off + a) (n - a) lf'"
  using compute_line_feeds_ok[OF assms(1), of a "n - a"] assms(2) by auto

subsection \<open>Insertion and deletion in a node\<close>

lemma leaf_node_ok [simp]: "node_ok f b (leaf_node ld) = ld_ok f b ld"
  by (simp add: node_ok_def leaf_node_def)

lemma leaf_node_text [simp]: "node_text f b (leaf_node ld) = ld_text f b ld"
  by (simp add: node_text_def)

lemma path_copy_insert_correct:
  assumes "node_ok f b n" and "ld_ok f b ins" and "cur \<le> p"
  shows "\<exists>n'. path_copy_insert n cur p ins b = Some n' \<and> node_ok f b n' \<and>
           node_text f b n' =
             take (p - cur) (node_text f b n) @ ld_text f b ins @ drop (p - cur) (node_text f b n)"
  using assms
proof (induction n arbitrary: cur)
  case (Internal lb lf l r)
  let ?m = "node_total_bytes l"
  have len: "length (node_text f b l) = ?m" using Internal.prems by (simp add: node_ok_length)
  show ?case
  proof (cases "p < cur + ?m")
    case True
    then show ?thesis using Internal.IH(1)[of cur] Internal.prems len by auto
  next
    case False
    then have "cur + ?m \<le> p" by simp
    with False show ?thesis using Internal.IH(2)[of "cur + ?m"] Internal.prems len by auto
  qed
next
  case (Leaf loc off n lf)
  have ok: "piece_ok f b loc off n lf" using Leaf.prems by simp
  consider (split) "0 < p - cur" "p < cur + n" | (before) "p \<le> cur" | (after) "cur + n \<le> p" "cur < p"
    using Leaf.prems by linarith
  then show ?case
  proof cases
    case split
    obtain lf1 lf2 where
      "compute_line_feeds_static b loc off (p - cur) = Some lf1"
      "piece_ok f b loc off (p - cur) lf1"
      "compute_line_feeds_static b loc (off + (p - cur)) (n - (p - cur)) = Some lf2"
      "piece_ok f b loc (off + (p - cur)) (n - (p - cur)) lf2"
      using compute_line_feeds_prefix[OF ok] compute_line_feeds_suffix[OF ok] split
      by (metis less_diff_conv2 less_imp_le_nat less_or_eq_imp_le add.commute Leaf.prems(3))
    with split Leaf.prems show ?thesis
      by (auto simp: Let_def piece_text_take piece_text_drop intro!: build_balanced_ok)
  next
    case before
    with ok Leaf.prems show ?thesis by (auto simp: Let_def intro!: build_balanced_ok)
  next
    case after
    with ok Leaf.prems show ?thesis
      by (auto simp: Let_def piece_ok_length intro!: build_balanced_ok)
  qed
qed

lemma path_copy_delete_correct:
  assumes "node_ok f b n" and "cur \<le> s" and "s < e"
  shows "\<exists>n'. path_copy_delete n cur s e b = Some n' \<and> node_ok f b n' \<and>
           node_text f b n' = take (s - cur) (node_text f b n) @ drop (e - cur) (node_text f b n)"
  using assms
proof (induction n arbitrary: cur s e)
  case (Internal lb lf l r)
  let ?m = "node_total_bytes l"
  have len: "length (node_text f b l) = ?m" using Internal.prems by (simp add: node_ok_length)
  have null: "node_text f b n' = []" if "node_ok f b n'" "node_total_bytes n' = 0" for n'
    using node_ok_length[OF that(1)] that(2) by simp
  consider (left) "e \<le> cur + ?m" | (right) "cur + ?m < e" "cur + ?m \<le> s"
    | (both) "cur + ?m < e" "s < cur + ?m" by linarith
  then show ?case
  proof cases
    case left
    then show ?thesis
      using Internal.IH(1)[of cur s e] Internal.prems len null by (fastforce simp: Let_def)
  next
    case right
    then show ?thesis
      using Internal.IH(2)[of "cur + ?m" s e] Internal.prems len null by (fastforce simp: Let_def)
  next
    case both
    obtain nl where nl: "path_copy_delete l cur s (min (cur + ?m) e) b = Some nl" "node_ok f b nl"
      "node_text f b nl = take (s - cur) (node_text f b l)"
      using Internal.IH(1)[of cur s "min (cur + ?m) e"] Internal.prems both len by auto
    obtain nr where nr: "path_copy_delete r (cur + ?m) (max (cur + ?m) s) e b = Some nr"
      "node_ok f b nr" "node_text f b nr = drop (e - (cur + ?m)) (node_text f b r)"
      using Internal.IH(2)[of "cur + ?m" "max (cur + ?m) s" e] Internal.prems both by auto
    show ?thesis using nl nr Internal.prems both len null[of nl] null[of nr] empty_leaf_ok[of f b]
      by (auto simp: Let_def empty_leaf_def)
  qed
next
  case (Leaf loc off n lf)
  have ok: "piece_ok f b loc off n lf" using Leaf.prems by simp
  have el: "piece_ok f b (Stored 0) 0 0 (Some 0)" by (simp add: piece_ok_def)
  consider (keep) "cur + n \<le> s \<or> e \<le> cur" | (all) "s \<le> cur" "cur + n \<le> e" "cur < e" "s < cur + n"
    | (mid) "cur < s" "e < cur + n" | (pre) "cur < s" "s < cur + n" "cur + n \<le> e"
    | (post) "s \<le> cur" "cur < e" "e < cur + n"
    using Leaf.prems by linarith
  then show ?case
  proof cases
    case keep
    with ok Leaf.prems show ?thesis by (auto simp: piece_ok_length)
  next
    case all
    with ok el Leaf.prems show ?thesis by (auto simp: piece_ok_length)
  next
    case mid
    have ix: "off + n - (cur + n - e) = off + (e - cur)" "cur + n - e = n - (e - cur)"
      using mid Leaf.prems by linarith+
    obtain lf1 where l1: "compute_line_feeds_static b loc off (s - cur) = Some lf1"
      "piece_ok f b loc off (s - cur) lf1"
      using compute_line_feeds_prefix[OF ok, of "s - cur"] mid Leaf.prems by force
    obtain lf2 where l2: "compute_line_feeds_static b loc (off + (e - cur)) (n - (e - cur)) = Some lf2"
      "piece_ok f b loc (off + (e - cur)) (n - (e - cur)) lf2"
      using compute_line_feeds_suffix[OF ok, of "e - cur"] mid Leaf.prems by force
    show ?thesis using mid l1 l2 Leaf.prems ix
      by (auto simp: Let_def piece_text_take piece_text_drop intro!: build_balanced_ok)
  next
    case pre
    obtain lf1 where l1: "compute_line_feeds_static b loc off (s - cur) = Some lf1"
      "piece_ok f b loc off (s - cur) lf1"
      using compute_line_feeds_prefix[OF ok, of "s - cur"] pre by force
    show ?thesis using pre l1 ok Leaf.prems
      by (auto simp: Let_def piece_text_take piece_ok_length)
  next
    case post
    obtain lf2 where l2: "compute_line_feeds_static b loc (off + (e - cur)) (n - (e - cur)) = Some lf2"
      "piece_ok f b loc (off + (e - cur)) (n - (e - cur)) lf2"
      using compute_line_feeds_suffix[OF ok, of "e - cur"] post by force
    have ix: "cur + n - e = n - (e - cur)" using post by linarith
    show ?thesis using post l2 Leaf.prems ix
      by (auto simp: Let_def piece_text_drop)
  qed
qed

subsection \<open>Well-formed trees\<close>

definition pt_ok :: "(string \<Rightarrow> byte list) \<Rightarrow> StringBuffer list \<Rightarrow> PieceTree \<Rightarrow> bool" where
  "pt_ok files bufs t \<longleftrightarrow>
     node_ok files bufs (root t) \<and> pt_total_bytes t = node_total_bytes (root t)"

definition pt_text :: "(string \<Rightarrow> byte list) \<Rightarrow> StringBuffer list \<Rightarrow> PieceTree \<Rightarrow> byte list" where
  "pt_text files bufs t = node_text files bufs (root t)"

text \<open>The bound \<open>check_and_rebalance\<close> keeps: the depth is at most twice the binary logarithm.\<close>

definition depth_ok :: "PieceTree \<Rightarrow> bool" where
  "depth_ok t \<longleftrightarrow> 2 \<le> count_leaves (root t) \<longrightarrow> node_depth (root t) \<le> 2 * ceil_log2 (count_leaves (root t))"

lemma pt_ok_length: "pt_ok f b t \<Longrightarrow> length (pt_text f b t) = pt_total_bytes t"
  by (simp add: pt_ok_def pt_text_def node_ok_length)

lemma pt_new_ok [simp]: "pt_ok f b (pt_new l off n lf) = piece_ok f b l off n lf"
  "pt_text f b (pt_new l off n lf) = piece_text f b l off n"
  by (simp_all add: pt_ok_def pt_text_def pt_new_def)

lemma pt_empty_ok [simp]: "pt_ok f b pt_empty" "pt_text f b pt_empty = []"
  by (simp_all add: pt_ok_def pt_text_def pt_empty_def piece_ok_def)

lemma from_leaves_ok:
  "list_all (ld_ok f b) lds \<Longrightarrow> pt_ok f b (from_leaves lds)"
  "pt_text f b (from_leaves lds) = leaves_text f b lds"
  by (simp_all add: pt_ok_def pt_text_def from_leaves_def build_balanced_ok)

lemma from_root_ok: "node_ok f b n \<Longrightarrow> pt_ok f b (from_root n)"
  "pt_text f b (from_root n) = node_text f b n"
  by (simp_all add: pt_ok_def pt_text_def from_root_def)

lemma rebuild_ok:
  assumes "pt_ok f b t" and "list_all (ld_ok f b) lds"
    and "sum_list (map ld_bytes lds) = pt_total_bytes t"
  shows "pt_ok f b (t\<lparr>root := build_balanced lds\<rparr>)"
  using assms by (simp add: pt_ok_def build_balanced_ok)

lemma check_and_rebalance_simps [simp]:
  "pt_total_bytes (check_and_rebalance t) = pt_total_bytes t"
  "pt_text f b (check_and_rebalance t) = pt_text f b t"
  by (auto simp: check_and_rebalance_def rebalance_def pt_text_def node_text_def Let_def
      build_balanced_leaves)

lemma check_and_rebalance_leaves [simp]:
  "node_leaves (root (check_and_rebalance t)) = node_leaves (root t)"
  by (simp add: check_and_rebalance_def rebalance_def Let_def build_balanced_leaves)

lemma check_and_rebalance_node_text [simp]:
  "node_text f b (root (check_and_rebalance t)) = node_text f b (root t)"
  by (simp add: node_text_def)

lemma check_and_rebalance_ok: "pt_ok f b t \<Longrightarrow> pt_ok f b (check_and_rebalance t)"
  by (auto simp: check_and_rebalance_def rebalance_def pt_ok_def Let_def node_ok_def
      leaves_total_bytes build_balanced_caches build_balanced_leaves)

lemma check_and_rebalance_depth: "depth_ok (check_and_rebalance t)"
  using ceil_log2_pos[of "length (node_leaves (root t))"]
  by (auto simp: depth_ok_def check_and_rebalance_def rebalance_def Let_def build_balanced_leaves
      build_balanced_depth)

lemma pt_insert_correct:
  assumes "pt_ok f b t" and "piece_ok f b l off n lf"
  shows "\<exists>t' c. pt_insert t p l off n lf b = Some (t', c) \<and> pt_ok f b t' \<and>
           pt_text f b t' =
             take p (pt_text f b t) @ piece_text f b l off n @ drop p (pt_text f b t) \<and>
           pc_byte_offset c = min (p + n) (pt_total_bytes t') \<and>
           pt_total_bytes t' = pt_total_bytes t + n \<and>
           (0 < n \<longrightarrow> depth_ok t') \<and> (n = 0 \<longrightarrow> t' = t)"
proof (cases "n = 0")
  case True
  with assms show ?thesis by (simp add: pt_insert_def cursor_at_offset_def)
next
  case False
  obtain n' where n': "path_copy_insert (root t) 0 p (LeafData_new l off n lf) b = Some n'"
    "node_ok f b n'" "node_text f b n' = take p (node_text f b (root t)) @
       piece_text f b l off n @ drop p (node_text f b (root t))"
    using path_copy_insert_correct[of f b "root t" "LeafData_new l off n lf" 0 p] assms
    by (auto simp: pt_ok_def)
  let ?t = "\<lparr>root = n', pt_total_bytes = pt_total_bytes t + n\<rparr>"
  have "node_total_bytes n' = node_total_bytes (root t) + n"
    using node_ok_length[OF n'(2)] node_ok_length[of f b "root t"] assms n'(3)
    by (simp add: pt_ok_def piece_ok_length)
  then have "pt_ok f b ?t" using assms n' by (simp add: pt_ok_def)
  with False n' check_and_rebalance_ok[of f b ?t] check_and_rebalance_depth[of ?t] show ?thesis
    by (simp add: pt_insert_def cursor_at_offset_def pt_text_def[of f b ?t] pt_text_def[of f b t]
        Let_def)
qed

lemma pt_delete_correct:
  assumes "pt_ok f b t"
  shows "\<exists>t'. pt_delete t p n b = Some t' \<and> pt_ok f b t' \<and>
           pt_text f b t' = take p (pt_text f b t) @ drop (p + n) (pt_text f b t) \<and>
           (depth_ok t \<longrightarrow> depth_ok t')"
proof (cases "n = 0 \<or> pt_total_bytes t \<le> p")
  case True
  with assms pt_ok_length[OF assms] show ?thesis by (auto simp: pt_delete_def)
next
  case False
  define d where "d = min n (pt_total_bytes t - p)"
  have d: "0 < d" "p + d \<le> pt_total_bytes t" using False by (auto simp: d_def)
  obtain n' where n': "path_copy_delete (root t) 0 p (p + d) b = Some n'" "node_ok f b n'"
    "node_text f b n' = take p (node_text f b (root t)) @ drop (p + d) (node_text f b (root t))"
    using path_copy_delete_correct[of f b "root t" 0 p "p + d"] assms d by (auto simp: pt_ok_def)
  let ?t = "\<lparr>root = n', pt_total_bytes = pt_total_bytes t - d\<rparr>"
  have "node_total_bytes n' = node_total_bytes (root t) - d"
    using node_ok_length[OF n'(2)] node_ok_length[of f b "root t"] assms n'(3) d
    by (simp add: pt_ok_def)
  then have ok: "pt_ok f b ?t" using assms n' by (simp add: pt_ok_def)
  have "drop (p + d) (pt_text f b t) = drop (p + n) (pt_text f b t)"
    using pt_ok_length[OF assms] by (auto simp: d_def min_def)
  with False n' check_and_rebalance_ok[OF ok] check_and_rebalance_depth[of ?t] show ?thesis
    by (simp add: pt_delete_def pt_text_def[of f b ?t] pt_text_def[of f b t] Let_def
        flip: d_def)
qed

subsection \<open>Splitting and replacing pieces\<close>

lemma collect_leaves_with_split_correct:
  assumes "node_ok f b n"
  shows "\<exists>lds. collect_leaves_with_split n cur p None acc b = Some (acc @ lds) \<and>
           list_all (ld_ok f b) lds \<and> leaves_text f b lds = node_text f b n \<and>
           sum_list (map ld_bytes lds) = node_total_bytes n"
  using assms
proof (induction n arbitrary: cur acc)
  case (Internal lb lf l r)
  obtain ls where ls: "collect_leaves_with_split l cur p None acc b = Some (acc @ ls)"
    "list_all (ld_ok f b) ls" "leaves_text f b ls = node_text f b l"
    "sum_list (map ld_bytes ls) = node_total_bytes l"
    using Internal.IH(1)[of cur acc] Internal.prems by auto
  obtain rs where "collect_leaves_with_split r (cur + lb) p None (acc @ ls) b = Some ((acc @ ls) @ rs)"
    "list_all (ld_ok f b) rs" "leaves_text f b rs = node_text f b r"
    "sum_list (map ld_bytes rs) = node_total_bytes r"
    using Internal.IH(2)[of "cur + lb" "acc @ ls"] Internal.prems by auto
  with ls Internal.prems show ?case by auto
next
  case (Leaf loc off n lf)
  then have ok: "piece_ok f b loc off n lf" by simp
  show ?case
  proof (cases "cur < p \<and> p < cur + n")
    case True
    then have a: "0 < p - cur" "p - cur < n" by auto
    obtain lf1 where l1: "compute_line_feeds_static b loc off (p - cur) = Some lf1"
      "piece_ok f b loc off (p - cur) lf1"
      using compute_line_feeds_prefix[OF ok, of "p - cur"] a by force
    obtain lf2 where l2:
      "compute_line_feeds_static b loc (off + (p - cur)) (n - (p - cur)) = Some lf2"
      "piece_ok f b loc (off + (p - cur)) (n - (p - cur)) lf2"
      using compute_line_feeds_suffix[OF ok, of "p - cur"] a by force
    show ?thesis using True a l1 l2 by (auto simp: Let_def piece_text_split[of "p - cur" n])
  next
    case False
    with ok show ?thesis by (auto simp: Let_def)
  qed
qed

lemma split_at_offset_correct:
  assumes "pt_ok f b t"
  shows "\<exists>t'. split_at_offset t p b = Some t' \<and> pt_ok f b t' \<and> pt_text f b t' = pt_text f b t \<and>
           pt_total_bytes t' = pt_total_bytes t"
proof -
  obtain lds where l: "collect_leaves_with_split (root t) 0 p None [] b = Some lds"
    "list_all (ld_ok f b) lds" "leaves_text f b lds = node_text f b (root t)"
    "sum_list (map ld_bytes lds) = node_total_bytes (root t)"
    using collect_leaves_with_split_correct[of f b "root t" 0 p "[]"] assms
    by (auto simp: pt_ok_def)
  have "pt_ok f b (t\<lparr>root := build_balanced lds\<rparr>)"
    using rebuild_ok[OF assms l(2)] l(4) assms by (simp add: pt_ok_def)
  then show ?thesis using assms l check_and_rebalance_ok
    by (auto simp: split_at_offset_def pt_text_def split: option.splits)
qed

lemma leaves_text_map:
  "(\<And>ld. ld \<in> set lds \<Longrightarrow> ld_text f b (g ld) = ld_text f b ld) \<Longrightarrow>
     leaves_text f b (map g lds) = leaves_text f b lds"
  by (induction lds) auto

lemma replace_buffer_reference_correct:
  assumes "pt_ok f b t"
    and same: "\<And>l. buffer_id l = old_id \<Longrightarrow>
      piece_text f b new_loc 0 old_bytes = piece_text f b l old_off old_bytes"
  defines "t' \<equiv> replace_buffer_reference t old_id old_off old_bytes new_loc"
  shows "pt_ok f b t'" and "pt_text f b t' = pt_text f b t"
proof -
  define m where "m = (\<lambda>leaf::LeafData. buffer_id (ld_location leaf) = old_id \<and>
      ld_offset leaf = old_off \<and> ld_bytes leaf = old_bytes)"
  define g where "g = (\<lambda>leaf. if m leaf then leaf\<lparr>ld_location := new_loc, ld_offset := 0\<rparr> else leaf)"
  have t': "t' = (if list_ex m (node_leaves (root t))
                  then check_and_rebalance (t\<lparr>root := build_balanced (map g (node_leaves (root t)))\<rparr>)
                  else t)"
    by (simp add: t'_def replace_buffer_reference_def Let_def m_def g_def)
  have gt: "ld_text f b (g ld) = ld_text f b ld" for ld
    using same[of "ld_location ld"] by (auto simp: g_def m_def ld_text_def)
  have gb: "ld_bytes (g ld) = ld_bytes ld" "ld_line_feed_cnt (g ld) = ld_line_feed_cnt ld" for ld
    by (auto simp: g_def)
  have go: "ld_ok f b (g ld) = ld_ok f b ld" for ld
    by (simp add: ld_ok_alt gt gb split: option.splits)
  have lo: "list_all (ld_ok f b) (map g (node_leaves (root t)))"
    using assms(1) by (auto simp: pt_ok_def node_ok_def list_all_iff go)
  have "sum_list (map ld_bytes (map g (node_leaves (root t)))) = pt_total_bytes t"
    using assms(1) by (simp add: pt_ok_def node_ok_def leaves_total_bytes gb o_def)
  from rebuild_ok[OF assms(1) lo this] show "pt_ok f b t'"
    using assms(1) by (simp add: t' check_and_rebalance_ok)
  show "pt_text f b t' = pt_text f b t"
    by (simp add: t' pt_text_def leaves_text_map[OF gt]) (simp add: node_text_def)
qed

subsection \<open>Properties\<close>

text \<open>A document of two pieces, used to instantiate the properties.\<close>

definition sample_buffers :: "StringBuffer list" where
  "sample_buffers = [sb_new 0 [97, 98, 10, 99], sb_new 1 [100, 10]]"

definition sample_tree :: PieceTree where
  "sample_tree = from_leaves [LeafData_new (Stored 0) 0 4 (Some 1), LeafData_new (Added 1) 0 2 (Some 1)]"

lemma sample_tree_ok: "pt_ok (\<lambda>_. []) sample_buffers sample_tree"
  "pt_text (\<lambda>_. []) sample_buffers sample_tree = [97, 98, 10, 99, 100, 10]"
  by code_simp+

text \<open>
  Inserting a piece refines inserting its bytes into the document. On a well-formed tree the
  operation never panics, the text of the new tree is the old text with the piece's bytes at the
  offset (an offset past the end appends), all cached byte and line feed sums stay right, the
  returned cursor is just behind the insertion, and after the rebalancing check the depth is at
  most twice the logarithm of the number of leaves.
\<close>

theorem insert_piece_refines:
  assumes "pt_ok files bufs t" and "piece_ok files bufs l off n lf" and "0 < n"
  shows "\<exists>t' c. pt_insert t p l off n lf bufs = Some (t', c) \<and> pt_ok files bufs t' \<and>
           pt_text files bufs t' =
             take p (pt_text files bufs t) @ piece_text files bufs l off n @
             drop p (pt_text files bufs t) \<and>
           pt_total_bytes t' = pt_total_bytes t + n \<and>
           pc_byte_offset c = min (p + n) (pt_total_bytes t') \<and> depth_ok t'"
  using pt_insert_correct[OF assms(1,2), of p] assms(3) by blast

theorem insert_piece_refines_witness:
  "\<exists>t' c. pt_insert sample_tree 1 (Stored 0) 2 2 (Some 1) sample_buffers = Some (t', c) \<and>
     pt_text (\<lambda>_. []) sample_buffers t' = [97, 10, 99, 98, 10, 99, 100, 10] \<and> depth_ok t'"
proof -
  have "piece_ok (\<lambda>_. []) sample_buffers (Stored 0) 2 2 (Some 1)"
    "piece_text (\<lambda>_. []) sample_buffers (Stored 0) 2 2 = [10, 99]" by code_simp+
  then show ?thesis
    using insert_piece_refines[OF sample_tree_ok(1), of "Stored 0" 2 2 "Some 1" 1]
    by (auto simp: sample_tree_ok(2))
qed

text \<open>
  Deleting a byte range refines deleting it from the document. On a well-formed tree the
  operation never panics (also for ranges past the end), keeps every cached sum right, its text is
  the old text without the range, and a tree within the depth bound stays within it.
\<close>

theorem delete_range_refines:
  assumes "pt_ok files bufs t"
  shows "\<exists>t'. pt_delete t p n bufs = Some t' \<and> pt_ok files bufs t' \<and>
           pt_text files bufs t' =
             take p (pt_text files bufs t) @ drop (p + n) (pt_text files bufs t) \<and>
           (depth_ok t \<longrightarrow> depth_ok t')"
  by (rule pt_delete_correct[OF assms])

theorem delete_range_refines_witness:
  "\<exists>t'. pt_delete sample_tree 2 3 sample_buffers = Some t' \<and>
     pt_text (\<lambda>_. []) sample_buffers t' = [97, 98, 10]"
  using delete_range_refines[OF sample_tree_ok(1), of 2 3] by (auto simp: sample_tree_ok(2))

end
