(* ===== verification/Piece_Scan.thy ===== *)
theory Piece_Scan
  imports Piece_Edit
begin

text \<open>
  The line feed scan of \<open>PieceTree\<close> (\<open>model/piece_tree.rs\<close>): recording counts by leaf index (by
  rebuilding and by path copying) or at a document offset, and cutting large leaves into chunks.
  None of them changes the text; the path-copying update is equivalent to the rebuilding one, and
  recording a correct count keeps the tree well-formed.
\<close>

subsection \<open>Operations\<close>

fun apply_lf_updates :: "LeafData list \<Rightarrow> (nat \<times> nat) list \<Rightarrow> LeafData list" where
  "apply_lf_updates leaves [] = leaves"
| "apply_lf_updates leaves ((idx, lf_count) # updates) =
     apply_lf_updates
       (if idx < length leaves
        then leaves[idx := (leaves ! idx)\<lparr>ld_line_feed_cnt := Some lf_count\<rparr>]
        else leaves) updates"

definition update_leaf_line_feeds :: "PieceTree \<Rightarrow> (nat \<times> nat) list \<Rightarrow> PieceTree" where
  "update_leaf_line_feeds t updates =
     (if updates = [] then t
      else t\<lparr>root := build_balanced (apply_lf_updates (collect_leaves (root t) []) updates)\<rparr>)"

fun update_leaf_line_feeds_path_copy :: "PieceTree \<Rightarrow> (nat \<times> nat) list \<Rightarrow> PieceTree" where
  "update_leaf_line_feeds_path_copy t [] = t"
| "update_leaf_line_feeds_path_copy t ((idx, lf_count) # updates) =
     update_leaf_line_feeds_path_copy
       (t\<lparr>root := fst (update_leaf_lf_by_index (root t) idx lf_count)\<rparr>) updates"

definition set_leaf_line_feeds_at :: "PieceTree \<Rightarrow> nat \<Rightarrow> nat \<Rightarrow> nat \<Rightarrow> PieceTree \<times> bool" where
  "set_leaf_line_feeds_at t doc_offset bytes lf_count =
     (if bytes = 0 \<or> doc_offset \<ge> pt_total_bytes t then (t, False)
      else case set_leaf_lf_at (root t) doc_offset bytes lf_count of (new_root, found) \<Rightarrow>
        (if found then t\<lparr>root := new_root\<rparr> else t, found))"

text \<open>
  The inner loop of \<open>split_leaves_to_chunk_size\<close> advances by \<open>min max_bytes (bytes - off)\<close>: with a
  chunk size of 0 it never ends, so the loop is a partial function.
\<close>

partial_function (option) split_leaf_loop :: "nat \<Rightarrow> LeafData \<Rightarrow> nat \<Rightarrow> LeafData list option" where
  "split_leaf_loop max_bytes leaf off =
     (if off < ld_bytes leaf then
        (let len = min max_bytes (ld_bytes leaf - off) in
         Option.bind (split_leaf_loop max_bytes leaf (off + len))
           (\<lambda>rest. Some (LeafData_new (ld_location leaf) (ld_offset leaf + off) len None # rest)))
      else Some [])"

fun split_leaves_loop :: "nat \<Rightarrow> LeafData list \<Rightarrow> LeafData list option" where
  "split_leaves_loop max_bytes [] = Some []"
| "split_leaves_loop max_bytes (leaf # leaves) = do {
     here \<leftarrow> (if ld_bytes leaf \<le> max_bytes then Some [leaf] else split_leaf_loop max_bytes leaf 0);
     rest \<leftarrow> split_leaves_loop max_bytes leaves;
     Some (here @ rest)
   }"

definition split_leaves_to_chunk_size :: "PieceTree \<Rightarrow> nat \<Rightarrow> PieceTree option" where
  "split_leaves_to_chunk_size t max_bytes = do {
     let old_leaves = get_leaves t;
     let changed = list_ex (\<lambda>leaf. ld_bytes leaf > max_bytes) old_leaves;
     new_leaves \<leftarrow> split_leaves_loop max_bytes old_leaves;
     Some (if changed then t\<lparr>root := build_balanced new_leaves\<rparr> else t)
   }"

subsection \<open>Counts by leaf index\<close>

abbreviation set_lf :: "nat \<Rightarrow> LeafData \<Rightarrow> LeafData" where
  "set_lf k ld \<equiv> ld\<lparr>ld_line_feed_cnt := Some k\<rparr>"

lemma update_by_index_correct:
  assumes "caches_ok n"
  shows "node_leaves (fst (update_leaf_lf_by_index n i k)) =
           (if i < count_leaves n then (node_leaves n)[i := set_lf k (node_leaves n ! i)]
            else node_leaves n)"
    and "caches_ok (fst (update_leaf_lf_by_index n i k))"
    and "snd (update_leaf_lf_by_index n i k) \<longleftrightarrow> i < count_leaves n"
    and "node_total_bytes (fst (update_leaf_lf_by_index n i k)) = node_total_bytes n"
proof -
  have "node_leaves (fst (update_leaf_lf_by_index n i k)) =
           (if i < count_leaves n then (node_leaves n)[i := set_lf k (node_leaves n ! i)]
            else node_leaves n) \<and>
        caches_ok (fst (update_leaf_lf_by_index n i k)) \<and>
        (snd (update_leaf_lf_by_index n i k) \<longleftrightarrow> i < count_leaves n) \<and>
        node_total_bytes (fst (update_leaf_lf_by_index n i k)) = node_total_bytes n"
    using assms
  proof (induction n arbitrary: i)
    case (Internal lb lf l r)
    show ?case
    proof (cases "i < count_leaves l")
      case True
      then show ?thesis using Internal.IH(1)[of i] Internal.prems
        by (auto simp: Let_def list_update_append nth_append split: prod.splits)
    next
      case False
      then show ?thesis using Internal.IH(2)[of "i - count_leaves l"] Internal.prems
        by (auto simp: Let_def list_update_append nth_append split: prod.splits)
    qed
  qed (simp add: LeafData_new_def)
  then show "node_leaves (fst (update_leaf_lf_by_index n i k)) =
           (if i < count_leaves n then (node_leaves n)[i := set_lf k (node_leaves n ! i)]
            else node_leaves n)"
    and "caches_ok (fst (update_leaf_lf_by_index n i k))"
    and "snd (update_leaf_lf_by_index n i k) \<longleftrightarrow> i < count_leaves n"
    and "node_total_bytes (fst (update_leaf_lf_by_index n i k)) = node_total_bytes n"
    by blast+
qed

lemma path_copy_updates:
  assumes "caches_ok (root t)" and "t' = update_leaf_line_feeds_path_copy t us"
  shows "node_leaves (root t') = apply_lf_updates (node_leaves (root t)) us \<and>
         caches_ok (root t') \<and> pt_total_bytes t' = pt_total_bytes t \<and>
         node_total_bytes (root t') = node_total_bytes (root t)"
  using assms(1) unfolding assms(2)
proof (induction t us rule: update_leaf_line_feeds_path_copy.induct)
  case (2 t idx k us)
  then show ?case using update_by_index_correct[of "root t" idx k] by simp
qed simp

text \<open>The range a leaf stands for, which is all its text depends on.\<close>

definition ld_range :: "LeafData \<Rightarrow> BufferLocation \<times> nat \<times> nat" where
  "ld_range ld = (ld_location ld, ld_offset ld, ld_bytes ld)"

lemma leaves_text_ranges:
  "leaves_text f b lds = concat (map (\<lambda>(l, off, n). piece_text f b l off n) (map ld_range lds))"
  by (induction lds) (simp_all add: ld_text_def ld_range_def)

lemma apply_lf_updates_frame: "map ld_range (apply_lf_updates lds us) = map ld_range lds"
proof (induction lds us rule: apply_lf_updates.induct)
  case (2 leaves idx k us)
  have "ld_range (set_lf k ld) = ld_range ld" for ld by (simp add: ld_range_def)
  then have "map ld_range (leaves[idx := set_lf k (leaves ! idx)]) = map ld_range leaves"
    if "idx < length leaves"
    using that by (simp add: map_update list_update_same_conv)
  with 2 show ?case by auto
qed simp

lemma apply_lf_updates_nonempty: "lds \<noteq> [] \<Longrightarrow> apply_lf_updates lds us \<noteq> []"
  using apply_lf_updates_frame[of lds us] by force

lemma apply_lf_updates_text: "leaves_text f b (apply_lf_updates lds us) = leaves_text f b lds"
  by (simp add: leaves_text_ranges apply_lf_updates_frame)

subsection \<open>A count at a document offset\<close>

text \<open>A leaf that is found spans the given range of the text.\<close>

lemma set_leaf_lf_at_found:
  "snd (set_leaf_lf_at n p m k) \<Longrightarrow> node_ok f b n \<Longrightarrow> p + m \<le> length (node_text f b n)"
proof (induction n arbitrary: p)
  case (Internal lb lf l r)
  show ?case
  proof (cases "p < lb")
    case True
    with Internal.prems have "snd (set_leaf_lf_at l p m k)"
      by (auto split: prod.splits if_splits)
    with Internal.IH(1)[of p] Internal.prems show ?thesis by simp
  next
    case False
    with Internal.prems have "snd (set_leaf_lf_at r (p - lb) m k)"
      by (auto split: prod.splits if_splits)
    with Internal.IH(2)[of "p - lb"] Internal.prems False show ?thesis by (simp add: node_ok_length)
  qed
qed (auto simp: piece_ok_length split: if_splits)

lemma set_leaf_lf_at_correct:
  assumes "node_ok f b n" and "0 < m"
    and "k = count_nl (take m (drop p (node_text f b n)))"
  shows "node_ok f b (fst (set_leaf_lf_at n p m k)) \<and>
         node_text f b (fst (set_leaf_lf_at n p m k)) = node_text f b n \<and>
         node_total_bytes (fst (set_leaf_lf_at n p m k)) = node_total_bytes n"
  using assms
proof (induction n arbitrary: p)
  case (Internal lb lf l r)
  have len: "length (node_text f b l) = lb" using Internal.prems by (simp add: node_ok_length)
  show ?case
  proof (cases "p < lb \<and> snd (set_leaf_lf_at l p m k)")
    case True
    then have "p + m \<le> length (node_text f b l)"
      using Internal.prems(1) set_leaf_lf_at_found[of l p m k f b] by simp
    then have "k = count_nl (take m (drop p (node_text f b l)))"
      using Internal.prems(3) by simp
    then show ?thesis using Internal.IH(1)[of p] Internal.prems True
      by (auto split: prod.splits)
  next
    case False
    then show ?thesis
      using Internal.IH(2)[of "p - lb"] Internal.prems len by (auto split: prod.splits)
  qed
qed (auto simp: piece_ok_def split: if_splits)

lemma set_leaf_line_feeds_at_correct:
  assumes "pt_ok f b t" and "k = count_nl (take m (drop p (pt_text f b t)))"
  shows "pt_ok f b (fst (set_leaf_line_feeds_at t p m k))"
    and "pt_text f b (fst (set_leaf_line_feeds_at t p m k)) = pt_text f b t"
  using set_leaf_lf_at_correct[of f b "root t" m k p] assms
  by (auto simp: set_leaf_line_feeds_at_def pt_ok_def pt_text_def split: prod.splits)

lemma set_leaf_lf_at_changed: "snd (set_leaf_lf_at n p m k) \<longleftrightarrow> fst (set_leaf_lf_at n p m k) \<noteq> n"
proof (induction n arbitrary: p)
  case (Internal lb lf l r)
  show ?case using Internal.IH(1)[of p] Internal.IH(2)[of "p - lb"] by (auto split: prod.splits)
qed auto

subsection \<open>Chunks\<close>

lemma split_leaf_loop_returns:
  assumes "0 < m" and "ld_ok f b leaf" and "off \<le> ld_bytes leaf"
  shows "\<exists>lds. split_leaf_loop m leaf off = Some lds \<and>
           leaves_text f b lds = drop off (ld_text f b leaf) \<and>
           list_all (\<lambda>ld. ld_ok f b ld \<and> ld_bytes ld \<le> m) lds \<and>
           sum_list (map ld_bytes lds) = ld_bytes leaf - off"
  using assms
proof (induction "ld_bytes leaf - off" arbitrary: off rule: less_induct)
  case less
  let ?n = "min m (ld_bytes leaf - off)"
  show ?case
  proof (cases "off < ld_bytes leaf")
    case False
    then show ?thesis using less.prems by (subst split_leaf_loop.simps) (simp add: ld_ok_alt)
  next
    case True
    have dec: "ld_bytes leaf - (off + ?n) < ld_bytes leaf - off" "off + ?n \<le> ld_bytes leaf"
      using True assms(1) by auto
    obtain lds where r: "split_leaf_loop m leaf (off + ?n) = Some lds"
      "leaves_text f b lds = drop (off + ?n) (ld_text f b leaf)"
      "list_all (\<lambda>ld. ld_ok f b ld \<and> ld_bytes ld \<le> m) lds"
      "sum_list (map ld_bytes lds) = ld_bytes leaf - (off + ?n)"
      using less.hyps[OF dec(1) assms(1) less.prems(2) dec(2)] by blast
    let ?l = "LeafData_new (ld_location leaf) (ld_offset leaf + off) ?n None"
    have tx: "ld_text f b ?l = take ?n (drop off (ld_text f b leaf))"
      by (simp add: ld_text_def text_simps)
    then have "length (ld_text f b ?l) = ?n" using less.prems True by (simp add: ld_ok_alt)
    then have "ld_ok f b ?l" by (simp add: ld_ok_alt)
    moreover have "drop off (ld_text f b leaf) =
        take ?n (drop off (ld_text f b leaf)) @ drop (off + ?n) (ld_text f b leaf)"
      using append_take_drop_id[of ?n "drop off (ld_text f b leaf)"] by (simp add: add.commute)
    ultimately show ?thesis using r True tx
      by (subst split_leaf_loop.simps) (simp add: Let_def)
  qed
qed

lemma split_leaves_loop_returns:
  assumes "0 < m" and "list_all (ld_ok f b) leaves"
  shows "\<exists>lds. split_leaves_loop m leaves = Some lds \<and> leaves_text f b lds = leaves_text f b leaves \<and>
           list_all (\<lambda>ld. ld_ok f b ld \<and> ld_bytes ld \<le> m) lds \<and>
           sum_list (map ld_bytes lds) = sum_list (map ld_bytes leaves)"
  using assms(2)
proof (induction leaves)
  case (Cons leaf leaves)
  then obtain lds where l: "split_leaves_loop m leaves = Some lds"
    "leaves_text f b lds = leaves_text f b leaves"
    "list_all (\<lambda>ld. ld_ok f b ld \<and> ld_bytes ld \<le> m) lds"
    "sum_list (map ld_bytes lds) = sum_list (map ld_bytes leaves)" by auto
  have "ld_ok f b leaf" using Cons.prems by simp
  then obtain ls where s: "split_leaf_loop m leaf 0 = Some ls"
    "leaves_text f b ls = ld_text f b leaf"
    "list_all (\<lambda>ld. ld_ok f b ld \<and> ld_bytes ld \<le> m) ls"
    "sum_list (map ld_bytes ls) = ld_bytes leaf"
    using split_leaf_loop_returns[OF assms(1), of f b leaf 0] by auto
  show ?case using l s \<open>ld_ok f b leaf\<close> by (cases "ld_bytes leaf \<le> m") auto
qed simp

lemma split_leaf_loop_zero:
  assumes "off < ld_bytes leaf"
  shows "split_leaf_loop 0 leaf off = None"
proof (rule ccontr)
  assume "split_leaf_loop 0 leaf off \<noteq> None"
  then obtain r where r: "split_leaf_loop 0 leaf off = Some r" by auto
  have "(0::nat) = 0 \<longrightarrow> \<not> off < ld_bytes leaf"
  proof (rule split_leaf_loop.raw_induct
      [where P = "\<lambda>m l off r. m = 0 \<longrightarrow> \<not> off < ld_bytes l", OF _ r])
    fix loop m l off r
    assume IH: "\<And>m l off r. loop m l off = Some r \<Longrightarrow> m = 0 \<longrightarrow> \<not> off < ld_bytes l"
      and eq: "(if off < ld_bytes l
           then let len = min m (ld_bytes l - off)
                in Option.bind (loop m l (off + len))
                     (\<lambda>rest. Some (LeafData_new (ld_location l) (ld_offset l + off) len None # rest))
           else Some []) = Some r"
    show "m = 0 \<longrightarrow> \<not> off < ld_bytes l"
    proof (intro impI notI)
      assume m: "m = 0" and lt: "off < ld_bytes l"
      from eq lt m obtain y where "loop 0 l off = Some y"
        by (cases "loop 0 l off") (simp_all add: Let_def)
      with IH[of 0 l off y] lt show False by simp
    qed
  qed
  with assms show False by simp
qed

lemma split_to_chunk_size_correct:
  assumes "0 < max_bytes" and "pt_ok files bufs t"
  shows "\<exists>t'. split_leaves_to_chunk_size t max_bytes = Some t' \<and> pt_ok files bufs t' \<and>
           pt_text files bufs t' = pt_text files bufs t \<and>
           (\<forall>ld \<in> set (get_leaves t'). ld_bytes ld \<le> max_bytes)"
proof -
  have leaves: "list_all (ld_ok files bufs) (node_leaves (root t))"
    using assms(2) by (simp add: pt_ok_def node_ok_def)
  obtain lds where lds: "split_leaves_loop max_bytes (node_leaves (root t)) = Some lds"
      "leaves_text files bufs lds = leaves_text files bufs (node_leaves (root t))"
      "list_all (\<lambda>ld. ld_ok files bufs ld \<and> ld_bytes ld \<le> max_bytes) lds"
      "sum_list (map ld_bytes lds) = sum_list (map ld_bytes (node_leaves (root t)))"
    using split_leaves_loop_returns[OF assms(1) leaves] by blast
  show ?thesis
  proof (cases "list_ex (\<lambda>leaf. ld_bytes leaf > max_bytes) (node_leaves (root t))")
    case False
    then show ?thesis using assms(2) lds(1)
      by (auto simp: split_leaves_to_chunk_size_def get_leaves_def list_ex_iff not_less)
  next
    case True
    define t' where "t' = t\<lparr>root := build_balanced lds\<rparr>"
    have "split_leaves_to_chunk_size t max_bytes = Some t'"
      using lds(1) True by (simp add: split_leaves_to_chunk_size_def get_leaves_def t'_def)
    moreover have "pt_ok files bufs t'"
      using assms(2) lds(3,4) build_balanced_ok[of files bufs lds]
      by (simp add: pt_ok_def t'_def list_all_iff leaves_total_bytes node_ok_def)
    moreover have "pt_text files bufs t' = pt_text files bufs t"
      using lds(2) by (simp add: pt_text_def t'_def) (simp add: node_text_def)
    moreover have "\<forall>ld \<in> set (get_leaves t'). ld_bytes ld \<le> max_bytes"
      using lds(3) assms(1) by (cases "lds = []")
        (auto simp: get_leaves_def t'_def build_balanced_leaves list_all_iff empty_leaf_def)
    ultimately show ?thesis by blast
  qed
qed

fun known_sum :: "nat option list \<Rightarrow> nat option" where
  "known_sum [] = Some 0"
| "known_sum (c # cs) = (case (c, known_sum cs) of (Some a, Some b) \<Rightarrow> Some (a + b) | _ \<Rightarrow> None)"

lemma known_sum_append:
  "known_sum (as @ bs) =
     (case (known_sum as, known_sum bs) of (Some a, Some b) \<Rightarrow> Some (a + b) | _ \<Rightarrow> None)"
  by (induction as) (auto split: option.splits)

lemma total_line_feeds_leaves:
  "caches_ok n \<Longrightarrow> total_line_feeds n = known_sum (map ld_line_feed_cnt (node_leaves n))"
  by (induction n) (auto simp: known_sum_append split: option.splits)

lemma update_leaf_line_feeds_leaves:
  "node_leaves (root (update_leaf_line_feeds t us)) = apply_lf_updates (node_leaves (root t)) us"
  "pt_total_bytes (update_leaf_line_feeds t us) = pt_total_bytes t"
  "caches_ok (root t) \<Longrightarrow> caches_ok (root (update_leaf_line_feeds t us))"
  by (simp_all add: update_leaf_line_feeds_def build_balanced_leaves build_balanced_caches
      apply_lf_updates_nonempty)

subsection \<open>Properties\<close>

text \<open>
  Recording line feed counts by path copying is equivalent to recording them by rebuilding
  the tree. For every list of updates (also with indices out of range or repeated) the two trees
  have the same leaves in the same order, the same cached size, and right caches, so they answer
  every query alike; and neither changes the text.
\<close>

theorem path_copy_equals_rebuild:
  fixes updates :: "(nat \<times> nat) list"
  assumes "pt_ok files bufs t"
  defines "a \<equiv> update_leaf_line_feeds_path_copy t updates"
    and "b \<equiv> update_leaf_line_feeds t updates"
  shows "get_leaves a = get_leaves b \<and> caches_ok (root a) \<and> caches_ok (root b) \<and>
         pt_total_bytes a = pt_total_bytes b \<and> total_line_feeds (root a) = total_line_feeds (root b) \<and>
         pt_text files bufs a = pt_text files bufs t \<and> pt_text files bufs b = pt_text files bufs t"
proof -
  have ca: "caches_ok (root t)" using assms(1) by (simp add: pt_ok_def node_ok_def)
  note pc = path_copy_updates[OF ca meta_eq_to_obj_eq[OF a_def]] and rb = update_leaf_line_feeds_leaves[of t updates, folded b_def]
  have "node_leaves (root a) = node_leaves (root b)" using pc rb by simp
  then show ?thesis
    using pc rb(2) rb(3)[OF ca]
    by (simp add: get_leaves_def total_line_feeds_leaves pt_text_def node_text_def rb(1)
        apply_lf_updates_text)
qed

theorem path_copy_equals_rebuild_witness:
  "get_leaves (update_leaf_line_feeds_path_copy sample_tree [(1, 7), (4, 2)]) =
     get_leaves (update_leaf_line_feeds sample_tree [(1, 7), (4, 2)])"
  using path_copy_equals_rebuild[OF sample_tree_ok(1), of "[(1, 7), (4, 2)]"] by blast

text \<open>
  Handing back a count a reader has found keeps the tree well-formed and its text unchanged,
  and the reported flag says exactly whether the tree was changed.
\<close>

theorem set_count_at_offset:
  assumes "pt_ok files bufs t" and "k = count_nl (take m (drop p (pt_text files bufs t)))"
  shows "pt_ok files bufs (fst (set_leaf_line_feeds_at t p m k)) \<and>
         pt_text files bufs (fst (set_leaf_line_feeds_at t p m k)) = pt_text files bufs t \<and>
         (snd (set_leaf_line_feeds_at t p m k) \<longleftrightarrow>
            fst (set_leaf_line_feeds_at t p m k) \<noteq> t)"
proof -
  have "snd (set_leaf_line_feeds_at t p m k) \<longleftrightarrow> fst (set_leaf_line_feeds_at t p m k) \<noteq> t"
    using set_leaf_lf_at_changed[of "root t" p m k]
    by (cases t) (auto simp: set_leaf_line_feeds_at_def split: prod.splits)
  then show ?thesis using set_leaf_line_feeds_at_correct[OF assms] by blast
qed

theorem set_count_at_offset_witness:
  "pt_ok (\<lambda>_. []) sample_buffers (fst (set_leaf_line_feeds_at sample_tree 4 2 1))"
proof -
  have "1 = count_nl (take 2 (drop 4 (pt_text (\<lambda>_. []) sample_buffers sample_tree)))" by code_simp
  from set_count_at_offset[OF sample_tree_ok(1) this] show ?thesis by blast
qed

text \<open>
  C36: cutting the leaves to a chunk size ends for every positive size. The result has only leaves
  of at most that size, is well-formed and has the same text.
\<close>

theorem chunk_split_terminates:
  assumes "0 < max_bytes" and "pt_ok files bufs t"
  shows "\<exists>t'. split_leaves_to_chunk_size t max_bytes = Some t' \<and> pt_ok files bufs t' \<and>
           pt_text files bufs t' = pt_text files bufs t \<and>
           (\<forall>ld \<in> set (get_leaves t'). ld_bytes ld \<le> max_bytes)"
  using assms by (rule split_to_chunk_size_correct)

theorem chunk_split_terminates_witness:
  "\<exists>t'. split_leaves_to_chunk_size sample_tree 3 = Some t' \<and>
     pt_text (\<lambda>_. []) sample_buffers t' = [97, 98, 10, 99, 100, 10]"
  using chunk_split_terminates[OF _ sample_tree_ok(1), of 3] by (auto simp: sample_tree_ok(2))

end
