(* ===== verification/Piece_Lines.thy ===== *)
theory Piece_Lines
  imports Piece_Scan
begin

text \<open>
  Reading a document and navigating it by line (\<open>model/piece_tree.rs\<close>): the pieces of a range,
  the bytes of a range, byte offset to line and column and back, line ranges, and the edits given
  by line and column. Where every count is known and every buffer is loaded and indexed, the line
  functions agree with the text of the document.
\<close>

subsection \<open>The pieces of a range\<close>

record PieceView =
  pv_location :: BufferLocation
  pv_buffer_offset :: nat
  pv_bytes :: nat
  pv_doc_offset :: nat
  pv_line_feed_cnt :: "nat option"

fun collect_pieces ::
  "PieceTreeNode \<Rightarrow> nat \<Rightarrow> nat \<Rightarrow> nat \<Rightarrow> PieceView list \<Rightarrow> PieceView list" where
  "collect_pieces (Internal left_bytes _ left right) doc_offset range_start range_end pieces =
     (let left_end = doc_offset + left_bytes;
          pieces1 = (if range_start < left_end
                     then collect_pieces left doc_offset range_start range_end pieces else pieces)
      in if range_end > left_end
         then collect_pieces right left_end range_start range_end pieces1 else pieces1)"
| "collect_pieces (Leaf location offset bytes line_feed_cnt) doc_offset range_start range_end pieces =
     (let piece_end = doc_offset + bytes in
      if doc_offset < range_end \<and> piece_end > range_start
      then pieces @ [\<lparr>pv_location = location, pv_buffer_offset = offset, pv_bytes = bytes,
                      pv_doc_offset = doc_offset, pv_line_feed_cnt = line_feed_cnt\<rparr>]
      else pieces)"

definition iter_pieces_in_range :: "PieceTree \<Rightarrow> nat \<Rightarrow> nat \<Rightarrow> PieceView list" where
  "iter_pieces_in_range t start fin = collect_pieces (root t) 0 start fin []"

fun read_pieces :: "StringBuffer list \<Rightarrow> nat \<Rightarrow> nat \<Rightarrow> PieceView list \<Rightarrow> byte list option" where
  "read_pieces buffers offset end_offset [] = Some []"
| "read_pieces buffers offset end_offset (piece # pieces) =
     (let read_start = max offset (pv_doc_offset piece);
          read_end = min end_offset (pv_doc_offset piece + pv_bytes piece) in
      if read_end \<le> read_start then read_pieces buffers offset end_offset pieces
      else do {
        let start = pv_buffer_offset piece + (read_start - pv_doc_offset piece);
        buffer \<leftarrow> slice_get buffers (buffer_id (pv_location piece));
        data \<leftarrow> get_data buffer;
        chunk \<leftarrow> index_range data start (start + (read_end - read_start));
        rest \<leftarrow> read_pieces buffers offset end_offset pieces;
        Some (chunk @ rest)
      })"

definition read_range :: "PieceTree \<Rightarrow> StringBuffer list \<Rightarrow> nat \<Rightarrow> nat \<Rightarrow> byte list option" where
  "read_range t buffers offset bytes =
     (let end_offset = offset + bytes in
      read_pieces buffers offset end_offset (iter_pieces_in_range t offset end_offset))"

definition range_line_feed_free :: "PieceTree \<Rightarrow> nat \<Rightarrow> nat \<Rightarrow> bool" where
  "range_line_feed_free t start fin =
     (let fin = min fin (pt_total_bytes t) in
      if start \<ge> fin then True
      else list_all (\<lambda>p. pv_line_feed_cnt p = Some 0) (iter_pieces_in_range t start fin))"

subsection \<open>Lines and columns\<close>

definition find_offset_for_line :: "PieceTree \<Rightarrow> nat \<Rightarrow> nat \<Rightarrow> StringBuffer list \<Rightarrow> nat option" where
  "find_offset_for_line t target_line column buffers =
     find_byte_offset_for_line (root t) 0 0 target_line column buffers"

definition position_to_offset :: "PieceTree \<Rightarrow> nat \<Rightarrow> nat \<Rightarrow> StringBuffer list \<Rightarrow> nat" where
  "position_to_offset t line column buffers =
     (if line = 0 \<and> column = 0 then 0
      else case find_offset_for_line t line column buffers of
        Some off \<Rightarrow> off | None \<Rightarrow> pt_total_bytes t)"

definition count_lines_in_range :: "PieceTree \<Rightarrow> nat \<Rightarrow> nat \<Rightarrow> nat option" where
  "count_lines_in_range t start fin =
     (if start \<ge> fin then Some 0 else count_lines_in_byte_range (root t) 0 start fin)"

definition count_lines_before_offset :: "PieceTree \<Rightarrow> nat \<Rightarrow> nat option" where
  "count_lines_before_offset t byte_offset = count_lines_in_range t 0 byte_offset"

text \<open>
  The three ways \<open>offset_to_position\<close> finds a position inside a piece: by the line index of the
  buffer, by scanning loaded data, and by a proportional estimate for an unloaded buffer.
\<close>

definition line_index_of :: "nat list \<Rightarrow> nat \<Rightarrow> nat" where
  "line_index_of line_starts p =
     (case binary_search line_starts p of Inr i \<Rightarrow> i | Inl i \<Rightarrow> i - 1)"

definition position_indexed ::
  "PieceTree \<Rightarrow> StringBuffer list \<Rightarrow> nat \<Rightarrow> OffsetFindResult \<Rightarrow> nat \<Rightarrow> StringBuffer \<Rightarrow> nat list
   \<Rightarrow> (nat \<times> nat) option" where
  "position_indexed t buffers offset result lines_before buffer line_starts = do {
     let piece = info result;
     let offset_in_piece = (case pi_offset_in_piece piece of Some x \<Rightarrow> x | None \<Rightarrow> 0);
     let byte_offset_in_buffer = pi_offset piece + offset_in_piece;
     let line_in_buffer = line_index_of line_starts byte_offset_in_buffer;
     let piece_start_line = line_index_of line_starts (pi_offset piece);
     line_in_piece \<leftarrow> usub line_in_buffer piece_start_line;
     let doc_line = lines_before + line_in_piece;
     column \<leftarrow>
       (if line_in_piece = 0 \<and> bytes_before result = 0 then Some offset_in_piece
        else if line_in_piece = 0
        then Some (offset - position_to_offset t doc_line 0 buffers)
        else do {
          let line_start_in_buf =
            (case nth_line_start_in_piece buffer (pi_offset piece)
                    (pi_offset piece + pi_bytes piece) line_in_piece of
               Some x \<Rightarrow> x | None \<Rightarrow> pi_offset piece);
          line_start_offset_in_piece \<leftarrow> usub line_start_in_buf (pi_offset piece);
          usub offset_in_piece line_start_offset_in_piece
        });
     Some (doc_line, column)
   }"

definition position_scanned ::
  "PieceTree \<Rightarrow> StringBuffer list \<Rightarrow> nat \<Rightarrow> OffsetFindResult \<Rightarrow> nat \<Rightarrow> byte list
   \<Rightarrow> (nat \<times> nat) option" where
  "position_scanned t buffers offset result lines_before data = do {
     let piece = info result;
     let offset_in_piece = (case pi_offset_in_piece piece of Some x \<Rightarrow> x | None \<Rightarrow> 0);
     let piece_start = pi_offset piece;
     let scan_end = min (piece_start + offset_in_piece) (length data);
     scanned \<leftarrow> index_range data piece_start scan_end;
     let line_in_piece = count_nl scanned;
     let doc_line = lines_before + line_in_piece;
     column \<leftarrow>
       (if line_in_piece = 0 then
          (if bytes_before result = 0 then Some offset_in_piece
           else Some (offset - position_to_offset t doc_line 0 buffers))
        else do {
          let last_nl = length scanned - 1 - length (takeWhile (\<lambda>b. b \<noteq> newline) (rev scanned));
          d \<leftarrow> usub offset_in_piece last_nl;
          usub d 1
        });
     Some (doc_line, column)
   }"

definition position_estimated :: "OffsetFindResult \<Rightarrow> nat \<Rightarrow> nat \<Rightarrow> nat \<times> nat" where
  "position_estimated result lines_before lf_count =
     (let piece = info result;
          offset_in_piece = (case pi_offset_in_piece piece of Some x \<Rightarrow> x | None \<Rightarrow> 0);
          piece_bytes = pi_bytes piece;
          lines_in_partial = (if piece_bytes > 0 then offset_in_piece * lf_count div piece_bytes
                              else 0);
          doc_line = lines_before + lines_in_partial;
          avg_bytes_per_line = (if lf_count = 0 then 80 else piece_bytes div lf_count);
          column = (if avg_bytes_per_line > 0 then offset_in_piece mod avg_bytes_per_line else 0)
      in (doc_line, column))"

definition position_at_end :: "PieceTree \<Rightarrow> StringBuffer list \<Rightarrow> nat \<Rightarrow> (nat \<times> nat) option" where
  "position_at_end t buffers offset =
     (if offset \<ge> pt_total_bytes t then
        (case line_count t of
           Some count \<Rightarrow>
             (let last_line = count - 1;
                  line_start = position_to_offset t last_line 0 buffers
              in Some (last_line, pt_total_bytes t - line_start))
         | None \<Rightarrow> None)
      else None)"

definition offset_to_position ::
  "PieceTree \<Rightarrow> nat \<Rightarrow> StringBuffer list \<Rightarrow> (nat \<times> nat) option option" where
  "offset_to_position t offset buffers =
     (if offset = 0 then Some (Some (0, 0))
      else
        (let offset = min offset (pt_total_bytes t) in
         case node_find_by_offset (root t) offset of
           None \<Rightarrow> Some (position_at_end t buffers offset)
         | Some result \<Rightarrow>
             (case count_lines_before_offset t (bytes_before result) of
                None \<Rightarrow> Some None
              | Some lines_before \<Rightarrow>
                  (case slice_get buffers (buffer_id (pi_location (info result))) of
                     None \<Rightarrow> Some (position_at_end t buffers offset)
                   | Some buffer \<Rightarrow>
                       (case get_line_starts buffer of
                          Some line_starts \<Rightarrow>
                            map_option Some (position_indexed t buffers offset result
                                               lines_before buffer line_starts)
                        | None \<Rightarrow>
                            (case get_data buffer of
                               Some data \<Rightarrow>
                                 map_option Some (position_scanned t buffers offset result
                                                    lines_before data)
                             | None \<Rightarrow>
                                 (case pi_line_feeds (info result) of
                                    Some lf_count \<Rightarrow>
                                      Some (Some (position_estimated result lines_before lf_count))
                                  | None \<Rightarrow> Some (position_at_end t buffers offset))))))))"

definition line_range ::
  "PieceTree \<Rightarrow> nat \<Rightarrow> StringBuffer list \<Rightarrow> (nat \<times> nat option) option" where
  "line_range t line buffers = do {
     count \<leftarrow> line_count t;
     if line \<ge> count then None
     else do {
       let start = position_to_offset t line 0 buffers;
       let fin = (if line + 1 < count then Some (position_to_offset t (line + 1) 0 buffers)
                  else None);
       Some (start, fin)
     }
   }"

definition insert_at_position ::
  "PieceTree \<Rightarrow> nat \<Rightarrow> nat \<Rightarrow> BufferLocation \<Rightarrow> nat \<Rightarrow> nat \<Rightarrow> nat \<Rightarrow> StringBuffer list
   \<Rightarrow> (PieceTree \<times> PtCursor) option" where
  "insert_at_position t line column location buffer_offset bytes line_feed_cnt buffers =
     (let offset = position_to_offset t line column buffers in
      pt_insert t offset location buffer_offset bytes (Some line_feed_cnt) buffers)"

definition delete_position_range ::
  "PieceTree \<Rightarrow> nat \<Rightarrow> nat \<Rightarrow> nat \<Rightarrow> nat \<Rightarrow> StringBuffer list \<Rightarrow> PieceTree option" where
  "delete_position_range t start_line start_column end_line end_column buffers =
     (if start_line = end_line \<and> start_column = end_column then Some t
      else
        (let start_offset = position_to_offset t start_line start_column buffers;
             end_offset = position_to_offset t end_line end_column buffers in
         if end_offset > start_offset
         then pt_delete t start_offset (end_offset - start_offset) buffers
         else Some t))"

subsection \<open>Finding the piece of an offset\<close>

text \<open>
  \<open>found_at f b n off r\<close>: the result \<open>r\<close> names a leaf of \<open>n\<close>, \<open>bytes_before r\<close> is where
  its text starts in the text of \<open>n\<close>, and \<open>off\<close> lies inside it.
\<close>

abbreviation found_text :: "(string \<Rightarrow> byte list) \<Rightarrow> StringBuffer list \<Rightarrow> OffsetFindResult \<Rightarrow> byte list" where
  "found_text f b r \<equiv>
     piece_text f b (pi_location (info r)) (pi_offset (info r)) (pi_bytes (info r))"

definition found_at ::
  "(string \<Rightarrow> byte list) \<Rightarrow> StringBuffer list \<Rightarrow> PieceTreeNode \<Rightarrow> nat \<Rightarrow> OffsetFindResult \<Rightarrow> bool"
  where
  "found_at f b n off r \<longleftrightarrow>
     pi_offset_in_piece (info r) = Some (off - bytes_before r) \<and>
     bytes_before r \<le> off \<and> off < bytes_before r + pi_bytes (info r) \<and>
     LeafData_new (pi_location (info r)) (pi_offset (info r)) (pi_bytes (info r))
       (pi_line_feeds (info r)) \<in> set (node_leaves n) \<and>
     (\<exists>pre post. node_text f b n = pre @ found_text f b r @ post \<and> length pre = bytes_before r)"

lemma found_at_left:
  "found_at f b l off r \<Longrightarrow> found_at f b (Internal lb lf l rt) off r"
  unfolding found_at_def by fastforce

lemma found_at_right:
  assumes "found_at f b rt (off - lb) r" "lb = length (node_text f b l)" "lb \<le> off"
  shows "found_at f b (Internal lb lf l rt) off (r\<lparr>bytes_before := bytes_before r + lb\<rparr>)"
proof -
  obtain pre post where "node_text f b rt = pre @ found_text f b r @ post"
    "length pre = bytes_before r" using assms(1) by (auto simp: found_at_def)
  then have "node_text f b (Internal lb lf l rt) = (node_text f b l @ pre) @ found_text f b r @ post"
    "length (node_text f b l @ pre) = bytes_before r + lb" using assms(2) by auto
  then have "\<exists>p q. node_text f b (Internal lb lf l rt) = p @ found_text f b r @ q \<and>
      length p = bytes_before r + lb" by blast
  then show ?thesis using assms(1,3) by (auto simp: found_at_def)
qed

lemma node_find_by_offset_correct:
  assumes "node_ok f b n" and "off < node_total_bytes n"
  shows "\<exists>r. node_find_by_offset n off = Some r \<and> found_at f b n off r"
  using assms
proof (induction n arbitrary: off)
  case (Internal lb lf l r)
  then have lb: "lb = length (node_text f b l)" by (auto simp: node_ok_length)
  show ?case
  proof (cases "off < lb")
    case True
    then obtain x where "node_find_by_offset l off = Some x" "found_at f b l off x"
      using Internal.prems Internal.IH(1)[of off] by auto
    then show ?thesis using True found_at_left by auto
  next
    case False
    then have "off - lb < node_total_bytes r" "node_ok f b r" using Internal.prems by auto
    then obtain x where "node_find_by_offset r (off - lb) = Some x" "found_at f b r (off - lb) x"
      using Internal.IH(2)[of "off - lb"] by blast
    then show ?thesis using False found_at_right[of f b r off lb x l lf] lb by auto
  qed
next
  case (Leaf loc o' m k)
  then show ?case by (auto simp: found_at_def intro!: exI[of _ "[]"])
qed

lemma node_find_by_offset_beyond:
  "caches_ok n \<Longrightarrow> node_total_bytes n \<le> off \<Longrightarrow> node_find_by_offset n off = None"
  by (induction n arbitrary: off) auto

subsection \<open>Counting the line feeds before a piece\<close>

lemma count_lines_covering:
  assumes "node_ok f b n" "total_line_feeds n \<noteq> None" "cur + node_total_bytes n \<le> fin"
  shows "count_lines_in_byte_range n cur 0 fin = Some (count_nl (node_text f b n))"
proof (cases "node_total_bytes n = 0")
  case True
  then have "node_text f b n = []" using assms(1) node_ok_length by fastforce
  then show ?thesis
  proof (cases n)
    case (Internal lb lf l r)
    then show ?thesis
      using True assms \<open>node_text f b n = []\<close> node_ok_count[OF assms(1)]
      by (cases "total_line_feeds n") (auto simp: Let_def)
  next
    case (Leaf loc o' m k)
    then show ?thesis
      using True assms \<open>node_text f b n = []\<close> node_ok_count[OF assms(1)]
      by (cases "total_line_feeds n") (auto simp: Let_def)
  qed
next
  case False
  obtain k where "total_line_feeds n = Some k" using assms(2) by auto
  moreover from this have "k = count_nl (node_text f b n)" using node_ok_count[OF assms(1)] by simp
  ultimately show ?thesis using False assms(3) by (cases n) (auto simp: Let_def)
qed

lemma count_lines_before_piece:
  assumes "node_ok f b n" "total_line_feeds n \<noteq> None" "node_find_by_offset n off = Some r"
  shows "count_lines_in_byte_range n cur 0 (cur + bytes_before r) =
           Some (count_nl (take (bytes_before r) (node_text f b n)))"
  using assms
proof (induction n arbitrary: off cur r)
  case (Internal lb lf l rt)
  then have ok: "node_ok f b l" "node_ok f b rt" "lb = node_total_bytes l" "lf = total_line_feeds l"
    and known: "total_line_feeds l \<noteq> None" "total_line_feeds rt \<noteq> None"
    by (auto split: option.splits)
  have len: "length (node_text f b l) = lb" using ok node_ok_length by auto
  show ?case
  proof (cases "off < lb")
    case True
    then have fl: "node_find_by_offset l off = Some r" using Internal.prems by simp
    with True ok node_find_by_offset_correct[of f b l off] have "bytes_before r \<le> off"
      by (auto simp: found_at_def)
    with True Internal.IH(1)[OF ok(1) known(1) fl] len show ?thesis
      by (auto simp: Let_def)
  next
    case False
    then obtain x where x: "node_find_by_offset rt (off - lb) = Some x"
      "r = x\<lparr>bytes_before := bytes_before x + lb\<rparr>" using Internal.prems by auto
    then have lt: "off - lb < node_total_bytes rt"
      using node_find_by_offset_beyond[of rt "off - lb"] ok(2) by (force simp: node_ok_def)
    with x ok node_find_by_offset_correct[of f b rt "off - lb"]
    have bb: "bytes_before x < node_total_bytes rt" by (auto simp: found_at_def)
    have R: "count_lines_in_byte_range rt (cur + lb) 0 (cur + (bytes_before x + lb)) =
        Some (count_nl (take (bytes_before x) (node_text f b rt)))"
      using Internal.IH(2)[OF ok(2) known(2) x(1), of "cur + lb"] by (simp add: add.commute add.left_commute)
    have L: "count_lines_in_byte_range l cur 0 (cur + (bytes_before x + lb)) =
        Some (count_nl (node_text f b l))"
      using count_lines_covering[OF ok(1) known(1)] ok(3) by simp
    show ?thesis using R L bb ok(3) len x(2) by (auto simp: Let_def)
  qed
qed (auto simp: Let_def split: if_splits)

subsection \<open>Line starts\<close>

text \<open>A buffer is indexed when its data is in memory with the line starts.\<close>

definition indexed :: "StringBuffer \<Rightarrow> bool" where
  "indexed b \<longleftrightarrow> get_line_starts b \<noteq> None \<and> sb_ok b"

text \<open>
  Every leaf that holds text points into an indexed buffer, and every line feed count is known.
\<close>

definition leaf_indexed :: "StringBuffer list \<Rightarrow> LeafData \<Rightarrow> bool" where
  "leaf_indexed bufs ld \<longleftrightarrow>
     ld_line_feed_cnt ld \<noteq> None \<and>
     (0 < ld_bytes ld \<longrightarrow>
       (case slice_get bufs (buffer_id (ld_location ld)) of Some b \<Rightarrow> indexed b | None \<Rightarrow> False))"

definition node_indexed :: "StringBuffer list \<Rightarrow> PieceTreeNode \<Rightarrow> bool" where
  "node_indexed bufs n \<longleftrightarrow> list_all (leaf_indexed bufs) (node_leaves n)"

lemma node_indexed_simps [simp]:
  "node_indexed bufs (Internal lb lf l r) \<longleftrightarrow> node_indexed bufs l \<and> node_indexed bufs r"
  "node_indexed bufs (Leaf loc off n k) \<longleftrightarrow> leaf_indexed bufs (LeafData_new loc off n k)"
  by (auto simp: node_indexed_def)

lemma indexed_cases:
  assumes "indexed b"
  obtains data where "sb_data b = Loaded data (Some (compute_line_starts data))"
    "get_line_starts b = Some (compute_line_starts data)" "get_data b = Some data"
    "buffer_bytes f b = data"
  using assms that
  by (auto simp: indexed_def get_line_starts_def get_data_def sb_ok_def buffer_bytes_def
      split: BufferData.splits option.splits)

lemma node_indexed_known:
  "caches_ok n \<Longrightarrow> node_indexed bufs n \<Longrightarrow> total_line_feeds n \<noteq> None"
proof (induction n)
  case (Internal lb lf l r)
  then show ?case by (auto split: option.splits)
qed (auto simp: leaf_indexed_def)

lemma nth_line_start_of_piece:
  assumes "piece_ok f bufs loc off n lf" "slice_get bufs (buffer_id loc) = Some b" "indexed b" "0 < n"
  shows "nth_line_start_in_piece b off (off + n) k =
           (if k = 0 then Some off
            else if line_offset (piece_text f bufs loc off n) k < n
            then Some (off + line_offset (piece_text f bufs loc off n) k) else None)"
proof -
  obtain data where d: "sb_data b = Loaded data (Some (compute_line_starts data))"
    "buffer_bytes f b = data" using indexed_cases[OF assms(3)] by metis
  then have pt: "piece_text f bufs loc off n = take n (drop off data)"
    using assms(2) by (simp add: piece_text_def)
  with assms(1,4) have "off + n \<le> length data" by (auto simp: piece_ok_def)
  then show ?thesis using nth_line_start_correct[OF _ d(1), of off n k] assms(3) pt
    by (simp add: indexed_def)
qed

lemma leaf_last_byte_correct:
  assumes "piece_ok f bufs loc off n lf" "slice_get bufs (buffer_id loc) = Some b" "indexed b" "0 < n"
  shows "leaf_last_byte bufs loc off n = Some (last (piece_text f bufs loc off n))"
proof -
  obtain data where d: "get_data b = Some data" "buffer_bytes f b = data"
    using indexed_cases[OF assms(3)] by metis
  then have pt: "piece_text f bufs loc off n = take n (drop off data)"
    using assms(2) by (simp add: piece_text_def)
  with assms(1,4) have "off + n \<le> length data" by (auto simp: piece_ok_def)
  then show ?thesis using d assms(2,4) pt
    by (simp add: leaf_last_byte_def slice_get_def last_conv_nth add.commute)
qed

lemma leaf_offset_for_line_correct:
  assumes ok: "piece_ok f bufs loc off n lf" and ix: "leaf_indexed bufs (LeafData_new loc off n lf)"
    and ge: "lb \<le> t"
  shows "case leaf_offset_for_line cur lb t 0 bufs loc off n lf of
           Some p \<Rightarrow> p = cur + line_offset (piece_text f bufs loc off n) (t - lb)
         | None \<Rightarrow> line_offset (piece_text f bufs loc off n) (t - lb) = n"
proof -
  let ?P = "piece_text f bufs loc off n"
  have len: "length ?P = n" using ok by (rule piece_ok_length)
  have lf: "lf = Some (count_nl ?P)" using ok ix piece_ok_count
    by (cases lf) (auto simp: leaf_indexed_def)
  show ?thesis
  proof (cases "n = 0")
    case True
    then show ?thesis using lf ge
      by (auto simp: leaf_offset_for_line_def nth_line_start_in_piece_def Let_def
          split: option.splits Option.bind_splits)
  next
    case False
    then obtain b where b: "slice_get bufs (buffer_id loc) = Some b" "indexed b"
      using ix by (auto simp: leaf_indexed_def split: option.splits)
    have ne: "?P \<noteq> []" using len False by auto
    have "line_offset ?P (t - lb) = n" if "t - lb = count_nl ?P" "last ?P = newline"
      using that line_offset_last[OF ne] len by simp
    moreover have "line_offset ?P (t - lb) = n" if "t - lb > count_nl ?P"
      using that line_offset_beyond len by simp
    moreover have "line_offset ?P (t - lb) \<le> n" using line_offset_le_length len by metis
    ultimately show ?thesis
      using lf ge b leaf_last_byte_correct[OF ok b] False nth_line_start_of_piece[OF ok b, of "t - lb"]
      by (auto simp: leaf_offset_for_line_def Let_def split: option.splits)
  qed
qed

lemma find_byte_offset_for_line_correct:
  assumes "node_ok f bufs n" "node_indexed bufs n" "lb \<le> t"
  shows "case find_byte_offset_for_line n cur lb t 0 bufs of
           Some p \<Rightarrow> p = cur + line_offset (node_text f bufs n) (t - lb)
         | None \<Rightarrow> line_offset (node_text f bufs n) (t - lb) = length (node_text f bufs n)"
  using assms
proof (induction n arbitrary: cur lb)
  case (Internal lbs lfl l r)
  let ?L = "node_text f bufs l" and ?R = "node_text f bufs r"
  have okl: "node_ok f bufs l" and okr: "node_ok f bufs r"
    and ixl: "node_indexed bufs l" and ixr: "node_indexed bufs r"
    using Internal.prems by auto
  have len: "lbs = length ?L" using Internal.prems by (auto simp: node_ok_length)
  have lfl: "lfl = Some (count_nl ?L)"
    using node_indexed_known[of l bufs] node_ok_count[OF okl] okl ixl Internal.prems
    by (auto simp: node_ok_def)
  note IHl = Internal.IH(1)[OF okl ixl Internal.prems(3), of cur]
  have IHr: "case find_byte_offset_for_line r (cur + lbs) (lb + count_nl ?L) t 0 bufs of
       Some p \<Rightarrow> p = cur + lbs + line_offset ?R (t - lb - count_nl ?L)
     | None \<Rightarrow> line_offset ?R (t - lb - count_nl ?L) = length ?R"
    if "lb + count_nl ?L \<le> t"
    using Internal.IH(2)[OF okr ixr that, of "cur + lbs"] by (simp only: diff_diff_left)
  show ?case
  proof (cases "t \<le> lb + count_nl ?L")
    case True
    show ?thesis
    proof (cases "find_byte_offset_for_line l cur lb t 0 bufs")
      case None
      then have full: "line_offset ?L (t - lb) = length ?L" using IHl by simp
      with line_offset_less[of "t - lb" ?L] True Internal.prems(3) have "t = lb + count_nl ?L"
        by force
      with full None IHr lfl len show ?thesis
        by (auto simp: Let_def line_offset_append split: option.splits)
    next
      case (Some p)
      then show ?thesis using True IHl lfl by (auto simp: Let_def line_offset_append)
    qed
  next
    case False
    then show ?thesis using IHr lfl len
      by (auto simp: Let_def line_offset_append split: option.splits)
  qed
next
  case (Leaf loc off n lf)
  then show ?case using leaf_offset_for_line_correct[of f bufs loc off n lf lb t cur]
    by (simp add: piece_ok_length split: option.splits)
qed

definition pt_indexed :: "StringBuffer list \<Rightarrow> PieceTree \<Rightarrow> bool" where
  "pt_indexed bufs t \<longleftrightarrow> node_indexed bufs (root t)"

lemma position_to_offset_line_start:
  assumes "pt_ok f bufs t" "pt_indexed bufs t"
  shows "position_to_offset t line 0 bufs = line_offset (pt_text f bufs t) line"
  using find_byte_offset_for_line_correct[of f bufs "root t" 0 line 0] assms
  by (auto simp: position_to_offset_def find_offset_for_line_def pt_ok_def pt_indexed_def
      pt_text_def node_ok_length split: option.splits)

lemma line_index_of_correct:
  "p \<le> length data \<Longrightarrow> line_index_of (compute_line_starts data) p = count_nl (take p data)"
  using line_starts_binary_search[of p data] by (simp add: line_index_of_def)

lemma position_indexed_correct:
  assumes ok: "pt_ok f bufs t" and ix: "pt_indexed bufs t" and fd: "found_at f bufs (root t) off r"
    and sb: "slice_get bufs (buffer_id (pi_location (info r))) = Some b" and ib: "indexed b"
    and pk: "piece_ok f bufs (pi_location (info r)) (pi_offset (info r)) (pi_bytes (info r)) lf"
    and ls: "get_line_starts b = Some ls"
  defines "T \<equiv> pt_text f bufs t"
  shows "position_indexed t bufs off r (count_nl (take (bytes_before r) T)) b ls =
           Some (count_nl (take off T), off - line_offset T (count_nl (take off T)))"
proof -
  let ?P = "found_text f bufs r" and ?po = "pi_offset (info r)" and ?n = "pi_bytes (info r)"
  let ?bb = "bytes_before r"
  let ?oip = "off - ?bb"
  let ?k = "count_nl (take ?oip ?P)"
  obtain pre post where T: "T = pre @ ?P @ post" and pre: "length pre = ?bb"
    and oip: "pi_offset_in_piece (info r) = Some ?oip" and bb: "?bb \<le> off" "off < ?bb + ?n"
    using fd by (auto simp: found_at_def T_def pt_text_def)
  obtain data where d: "ls = compute_line_starts data" "buffer_bytes f b = data"
    using indexed_cases[OF ib] ls by (metis option.inject)
  have P: "?P = take ?n (drop ?po data)" using sb d by (simp add: piece_text_def)
  have n: "length ?P = ?n" using pk by (rule piece_ok_length)
  then have bound: "?po + ?n \<le> length data" using P bb by auto
  have k: "take ?oip ?P = take ?oip (drop ?po data)" using P bb by simp
  have idx: "line_index_of ls (?po + ?oip) = count_nl (take ?po data) + ?k"
    "line_index_of ls ?po = count_nl (take ?po data)"
    using bound bb d take_add[of ?po ?oip data]
    by (simp_all add: line_index_of_correct k del: add_diff_assoc)
  have ln: "count_nl (take off T) = count_nl pre + ?k" "take ?bb T = pre"
    using T pre bb n by simp_all
  have lo: "line_offset ?P ?k \<le> ?oip" by (rule line_offset_count_le)
  have "line_offset T (count_nl pre + ?k) = ?bb + line_offset ?P ?k" if "0 < ?k"
    using that count_nl_take_drop[of ?oip ?P] T pre by (simp add: line_offset_append)
  moreover have "nth_line_start_in_piece b ?po (?po + ?n) ?k = Some (?po + line_offset ?P ?k)"
    if "0 < ?k" using nth_line_start_of_piece[OF pk sb ib] that lo bb by auto
  moreover have "pre = []" if "?bb = 0" using that pre by simp
  ultimately show ?thesis
    using idx ln oip lo bb position_to_offset_line_start[OF ok ix] T_def
    by (auto simp: position_indexed_def usub_def Let_def)
qed

lemma offset_to_position_found:
  assumes ok: "pt_ok f bufs t" and ix: "pt_indexed bufs t" and off: "off < pt_total_bytes t" "0 < off"
  defines "T \<equiv> pt_text f bufs t"
  shows "offset_to_position t off bufs =
           Some (Some (count_nl (take off T), off - line_offset T (count_nl (take off T))))"
proof -
  have nok: "node_ok f bufs (root t)" using ok by (simp add: pt_ok_def)
  then obtain r where r: "node_find_by_offset (root t) off = Some r" "found_at f bufs (root t) off r"
    using node_find_by_offset_correct[OF nok, of off] off ok by (auto simp: pt_ok_def)
  let ?ld = "LeafData_new (pi_location (info r)) (pi_offset (info r)) (pi_bytes (info r))
               (pi_line_feeds (info r))"
  have ld: "?ld \<in> set (node_leaves (root t))" "0 < pi_bytes (info r)"
    using r(2) by (auto simp: found_at_def)
  then have pk: "piece_ok f bufs (pi_location (info r)) (pi_offset (info r)) (pi_bytes (info r))
      (pi_line_feeds (info r))" and li: "leaf_indexed bufs ?ld"
    using nok ix by (auto simp: node_ok_def pt_indexed_def node_indexed_def list_all_iff)
  obtain b where b: "slice_get bufs (buffer_id (pi_location (info r))) = Some b" "indexed b"
    using li ld(2) by (auto simp: leaf_indexed_def split: option.splits)
  obtain ls where ls: "get_line_starts b = Some ls" using b(2) by (auto simp: indexed_def)
  have known: "total_line_feeds (root t) \<noteq> None"
    using node_indexed_known nok ix by (auto simp: node_ok_def pt_indexed_def)
  have "count_lines_before_offset t (bytes_before r) = Some (count_nl (take (bytes_before r) T))"
    using count_lines_before_piece[OF nok known r(1), of 0] T_def
    by (simp add: count_lines_before_offset_def count_lines_in_range_def pt_text_def)
  then show ?thesis
    using position_indexed_correct[OF ok ix r(2) b pk ls] r(1) b(1) ls off T_def
    by (simp add: offset_to_position_def min_absorb1)
qed

lemma line_count_correct:
  assumes "pt_ok f bufs t" "pt_indexed bufs t"
  shows "line_count t = Some (count_nl (pt_text f bufs t) + 1)"
proof -
  have "node_ok f bufs (root t)" using assms by (simp add: pt_ok_def)
  moreover have "total_line_feeds (root t) \<noteq> None"
    using node_indexed_known assms by (auto simp: node_ok_def pt_ok_def pt_indexed_def)
  ultimately show ?thesis using node_ok_count by (auto simp: line_count_def pt_text_def)
qed

lemma offset_to_position_correct:
  fixes off :: nat
  assumes ok: "pt_ok f bufs t" and ix: "pt_indexed bufs t"
  defines "T \<equiv> pt_text f bufs t"
  defines "ln \<equiv> count_nl (take off T)"
  shows "offset_to_position t off bufs = Some (Some (ln, min off (length T) - line_offset T ln))"
proof -
  have len: "length T = pt_total_bytes t" using ok
    by (simp add: T_def pt_text_def pt_ok_def node_ok_length)
  consider "off = 0" | "0 < off" "off < pt_total_bytes t" | "0 < off" "pt_total_bytes t \<le> off"
    by linarith
  then show ?thesis
  proof cases
    case 1
    then show ?thesis by (simp add: offset_to_position_def ln_def)
  next
    case 2
    then show ?thesis using offset_to_position_found[OF ok ix 2(2,1)] len by (simp add: T_def ln_def)
  next
    case 3
    have "node_find_by_offset (root t) (pt_total_bytes t) = None"
      using ok node_find_by_offset_beyond by (simp add: pt_ok_def node_ok_def)
    then show ?thesis
      using 3 len line_count_correct[OF ok ix] position_to_offset_line_start[OF ok ix]
      by (simp add: offset_to_position_def position_at_end_def min_absorb2 T_def ln_def Let_def)
  qed
qed

lemma line_range_correct:
  assumes "pt_ok f bufs t" "pt_indexed bufs t"
  shows "line_range t line bufs =
           (if line \<le> count_nl (pt_text f bufs t)
            then Some (line_offset (pt_text f bufs t) line,
                       if line < count_nl (pt_text f bufs t)
                       then Some (line_offset (pt_text f bufs t) (line + 1)) else None)
            else None)"
  using line_count_correct[OF assms] position_to_offset_line_start[OF assms]
  by (auto simp: line_range_def Let_def)

subsection \<open>Reading a range\<close>

definition node_loaded :: "StringBuffer list \<Rightarrow> PieceTreeNode \<Rightarrow> bool" where
  "node_loaded bufs n \<longleftrightarrow>
     list_all (\<lambda>ld. case slice_get bufs (buffer_id (ld_location ld)) of
                      Some b \<Rightarrow> is_loaded b | None \<Rightarrow> ld_bytes ld = 0) (node_leaves n)"

text \<open>The part of a text starting at \<open>doc\<close> that lies in the range from \<open>s\<close> to \<open>e\<close>.\<close>

definition overlap :: "nat \<Rightarrow> nat \<Rightarrow> nat \<Rightarrow> byte list \<Rightarrow> byte list" where
  "overlap doc s e xs = drop (s - doc) (take (e - doc) xs)"

lemma overlap_append:
  "overlap doc s e (xs @ ys) = overlap doc s e xs @ overlap (doc + length xs) s e ys"
  by (cases "e - doc < length xs") (auto simp: overlap_def min_def)

lemma overlap_empty:
  "doc + length xs \<le> s \<Longrightarrow> overlap doc s e xs = []" "e \<le> doc \<Longrightarrow> overlap doc s e xs = []"
  by (auto simp: overlap_def)

lemma collect_pieces_acc:
  "collect_pieces n doc s e acc = acc @ collect_pieces n doc s e []"
proof (induction n arbitrary: doc acc)
  case (Internal lb lf l r)
  show ?case
    using Internal.IH(1)[of doc acc] Internal.IH(2)[of "doc + lb" acc]
      Internal.IH(2)[of "doc + lb" "acc @ collect_pieces l doc s e []"]
      Internal.IH(2)[of "doc + lb" "collect_pieces l doc s e []"]
    by (auto simp: Let_def)
qed (simp add: Let_def)

lemma read_pieces_append:
  "read_pieces bufs s e (xs @ ys) =
     do { a \<leftarrow> read_pieces bufs s e xs; c \<leftarrow> read_pieces bufs s e ys; Some (a @ c) }"
proof (induction xs)
  case (Cons x xs)
  then show ?case
    by (cases "read_pieces bufs s e xs"; cases "read_pieces bufs s e ys")
      (auto simp: Let_def split: Option.bind_splits)
qed (cases "read_pieces bufs s e ys"; simp)

lemma collect_pieces_Internal:
  "collect_pieces (Internal lb lf l r) doc s e [] =
     (if s < doc + lb then collect_pieces l doc s e [] else []) @
     (if doc + lb < e then collect_pieces r (doc + lb) s e [] else [])"
  using collect_pieces_acc[of r "doc + lb" s e "collect_pieces l doc s e []"]
  by (auto simp: Let_def)

lemma read_leaf_eq:
  "read_pieces bufs s e (collect_pieces (Leaf loc off n lf) doc s e []) =
     (if max s doc < min e (doc + n)
      then do { buffer \<leftarrow> slice_get bufs (buffer_id loc);
                data \<leftarrow> get_data buffer;
                index_range data (off + (max s doc - doc))
                  (off + (max s doc - doc) + (min e (doc + n) - max s doc)) }
      else Some [])"
proof (cases "max s doc < min e (doc + n)")
  case True
  then have c: "doc < e" "s < doc + n" by linarith+
  have "\<not> min e (doc + n) \<le> max s doc" using True by (simp only: not_le)
  then show ?thesis using c True
    by (simp add: Let_def del: min_less_iff_conj max_less_iff_conj min_le_iff_disj le_max_iff_disj
        min.bounded_iff max.bounded_iff min_def max_def)
next
  case False
  then have "min e (doc + n) \<le> max s doc" by (simp only: not_less)
  then show ?thesis unfolding if_not_P[OF False] collect_pieces.simps Let_def
    by (simp only: if_P split: if_split) simp
qed

lemma index_range_add: "a + m \<le> length xs \<Longrightarrow> index_range xs a (a + m) = Some (take m (drop a xs))"
  by (simp add: index_range_def)

lemma overlap_of_slice:
  assumes "max s doc < min e (doc + n)"
  shows "overlap doc s e (take n (drop off data)) =
           take (min e (doc + n) - max s doc) (drop (off + (max s doc - doc)) data)"
proof -
  have "overlap doc s e (take n (drop off data)) = drop (s - doc) (take (min (e - doc) n) (drop off data))"
    by (simp add: overlap_def min.commute)
  also have "\<dots> = take (min (e - doc) n - (s - doc)) (drop (s - doc + off) data)"
    by (simp add: drop_take add.commute)
  also have "min (e - doc) n - (s - doc) = min e (doc + n) - max s doc" by linarith
  also have "s - doc + off = off + (max s doc - doc)" by linarith
  finally show ?thesis .
qed

lemma read_leaf_chunk:
  assumes "piece_ok f bufs loc off n lf" "max s doc < min e (doc + n)"
    and "slice_get bufs (buffer_id loc) = Some b" "get_data b = Some data"
  shows "index_range data (off + (max s doc - doc))
           (off + (max s doc - doc) + (min e (doc + n) - max s doc)) =
         Some (overlap doc s e (piece_text f bufs loc off n))"
proof -
  have P: "piece_text f bufs loc off n = take n (drop off data)" using assms(3,4)
    by (auto simp: piece_text_def get_data_def buffer_bytes_def split: BufferData.splits)
  have "off + n \<le> length data" using piece_ok_length[OF assms(1)] assms(2) P by auto
  with assms(2) have "off + (max s doc - doc) + (min e (doc + n) - max s doc) \<le> length data"
    by linarith
  then show ?thesis
    unfolding P overlap_of_slice[OF assms(2)] by (rule index_range_add)
qed

lemma read_leaf_correct:
  assumes "piece_ok f bufs loc off n lf"
    and "read_pieces bufs s e (collect_pieces (Leaf loc off n lf) doc s e []) = Some bs"
  shows "bs = overlap doc s e (piece_text f bufs loc off n)"
proof (cases "max s doc < min e (doc + n)")
  case True
  then show ?thesis using assms(2) read_leaf_chunk[OF assms(1) True]
    unfolding read_leaf_eq if_P[OF True] by (auto simp: bind_eq_Some_conv)
next
  case False
  then have "n \<le> s - doc \<or> e - doc \<le> s - doc" by linarith
  then have "overlap doc s e (piece_text f bufs loc off n) = []"
    using piece_ok_length[OF assms(1)] by (auto simp: overlap_def)
  then show ?thesis using assms(2) unfolding read_leaf_eq if_not_P[OF False] by simp
qed

lemma read_leaf_loaded:
  assumes "piece_ok f bufs loc off n lf" "node_loaded bufs (Leaf loc off n lf)"
  shows "read_pieces bufs s e (collect_pieces (Leaf loc off n lf) doc s e []) \<noteq> None"
proof (cases "max s doc < min e (doc + n)")
  case True
  then have "0 < n" by linarith
  then obtain b data where "slice_get bufs (buffer_id loc) = Some b" "get_data b = Some data"
    using assms(2)
    by (auto simp: node_loaded_def is_loaded_def get_data_def split: option.splits BufferData.splits)
  then show ?thesis using read_leaf_chunk[OF assms(1) True] unfolding read_leaf_eq if_P[OF True] by simp
next
  case False
  then show ?thesis unfolding read_leaf_eq if_not_P[OF False] by simp
qed

lemma read_node_correct:
  assumes "node_ok f bufs n"
  shows "read_pieces bufs s e (collect_pieces n doc s e []) = Some bs \<Longrightarrow>
           bs = overlap doc s e (node_text f bufs n)"
  using assms
proof (induction n arbitrary: doc bs)
  case (Internal lb lf l r)
  have len: "length (node_text f bufs l) = lb" using Internal.prems(2) by (simp add: node_ok_length)
  obtain a c where ac: "bs = a @ c"
    "read_pieces bufs s e (if s < doc + lb then collect_pieces l doc s e [] else []) = Some a"
    "read_pieces bufs s e (if doc + lb < e then collect_pieces r (doc + lb) s e [] else []) = Some c"
    using Internal.prems(1) unfolding collect_pieces_Internal read_pieces_append
    by (auto simp: bind_eq_Some_conv)
  have "a = overlap doc s e (node_text f bufs l)"
    using ac(2) Internal.IH(1) Internal.prems(2) len by (auto simp: overlap_empty split: if_splits)
  moreover have "c = overlap (doc + lb) s e (node_text f bufs r)"
    using ac(3) Internal.IH(2) Internal.prems(2) by (auto simp: overlap_empty split: if_splits)
  ultimately show ?case using ac(1) len by (simp add: overlap_append)
next
  case (Leaf loc off n lf)
  then show ?case using read_leaf_correct[of f bufs loc off n lf s e doc bs] by (simp del: collect_pieces.simps)
qed

lemma read_node_loaded:
  assumes "node_ok f bufs n" "node_loaded bufs n"
  shows "read_pieces bufs s e (collect_pieces n doc s e []) \<noteq> None"
  using assms
proof (induction n arbitrary: doc)
  case (Internal lb lf l r)
  then have "node_loaded bufs l" "node_loaded bufs r" by (auto simp: node_loaded_def)
  then show ?case using Internal.IH(1)[of doc] Internal.IH(2)[of "doc + lb"] Internal.prems
    unfolding collect_pieces_Internal read_pieces_append by auto
next
  case (Leaf loc off n lf)
  then show ?case using read_leaf_loaded[of f bufs loc off n lf s e doc] by (simp del: collect_pieces.simps)
qed

lemma read_range_correct:
  assumes "pt_ok f bufs t"
  shows "read_range t bufs off n = Some bs \<Longrightarrow> bs = take n (drop off (pt_text f bufs t))"
  using read_node_correct[of f bufs "root t" off "off + n" 0 bs] assms
  by (simp add: read_range_def iter_pieces_in_range_def pt_ok_def pt_text_def overlap_def drop_take
      Let_def)

lemma read_range_loaded:
  assumes "pt_ok f bufs t" "node_loaded bufs (root t)"
  shows "read_range t bufs off n = Some (take n (drop off (pt_text f bufs t)))"
  using read_node_loaded[of f bufs "root t" off "off + n" 0] read_range_correct[OF assms(1), of off n] assms
  by (auto simp: read_range_def iter_pieces_in_range_def pt_ok_def Let_def)

lemma pieces_line_feed_free:
  assumes "node_ok f bufs n" "list_all (\<lambda>p. pv_line_feed_cnt p = Some 0) (collect_pieces n doc s e [])"
  shows "count_nl (overlap doc s e (node_text f bufs n)) = 0"
  using assms
proof (induction n arbitrary: doc)
  case (Internal lb lf l r)
  have len: "length (node_text f bufs l) = lb" using Internal.prems(1) by (simp add: node_ok_length)
  have "count_nl (overlap doc s e (node_text f bufs l)) = 0"
    using Internal.IH(1)[of doc] Internal.prems len unfolding collect_pieces_Internal
    by (cases "s < doc + lb") (auto simp: overlap_empty)
  moreover have "count_nl (overlap (doc + lb) s e (node_text f bufs r)) = 0"
    using Internal.IH(2)[of "doc + lb"] Internal.prems unfolding collect_pieces_Internal
    by (cases "doc + lb < e") (auto simp: overlap_empty)
  ultimately show ?case using len by (simp add: overlap_append)
next
  case (Leaf loc off n lf)
  let ?P = "piece_text f bufs loc off n"
  have sub: "count_nl (overlap doc s e ?P) \<le> count_nl ?P"
    using count_nl_take_drop[of "s - doc" "take (e - doc) ?P"] count_nl_take_drop[of "e - doc" ?P]
    by (simp add: overlap_def)
  have len: "length ?P = n" using Leaf.prems(1) by (simp add: piece_ok_length)
  show ?case
  proof (cases "doc < e \<and> doc + n > s")
    case True
    then have "lf = Some 0" using Leaf.prems(2) by (simp add: Let_def)
    then show ?thesis using Leaf.prems(1) piece_ok_count[of f bufs loc off n 0] sub by simp
  next
    case False
    then show ?thesis using len overlap_empty(1)[of doc ?P s] overlap_empty(2)[of e doc] by auto
  qed
qed

lemma range_line_feed_free_correct:
  assumes "pt_ok f bufs t" "range_line_feed_free t s e"
  shows "count_nl (take (e - s) (drop s (pt_text f bufs t))) = 0"
proof -
  let ?T = "pt_text f bufs t" and ?e = "min e (pt_total_bytes t)"
  have len: "length ?T = pt_total_bytes t" using assms(1)
    by (simp add: pt_text_def pt_ok_def node_ok_length)
  have eq: "take (e - s) (drop s ?T) = overlap 0 s ?e ?T"
    using len by (simp add: overlap_def drop_take[symmetric] min_def)
  show ?thesis
  proof (cases "?e \<le> s")
    case True
    then show ?thesis unfolding eq by (simp add: overlap_def)
  next
    case False
    then have "list_all (\<lambda>p. pv_line_feed_cnt p = Some 0) (collect_pieces (root t) 0 s ?e [])"
      using assms(2) by (simp add: range_line_feed_free_def iter_pieces_in_range_def Let_def)
    then show ?thesis using pieces_line_feed_free[of f bufs "root t" 0 s ?e] assms(1)
      unfolding eq by (simp add: pt_ok_def pt_text_def)
  qed
qed

subsection \<open>Properties\<close>

lemma sample_tree_indexed: "pt_indexed sample_buffers sample_tree"
  by code_simp

text \<open>
  C30: an offset is converted to the right line and column. On a well-formed tree whose pieces are
  counted and whose buffers are indexed, the conversion answers for every offset (an offset past
  the end is taken as the end): the line is the number of line feeds before the offset, the column
  its distance from the start of that line, also when the line starts in an earlier piece.
\<close>

theorem offset_to_position_right:
  assumes "pt_ok files bufs t" and "pt_indexed bufs t"
  shows "offset_to_position t off bufs =
           (let text = pt_text files bufs t; ln = count_nl (take off text)
            in Some (Some (ln, min off (length text) - line_offset text ln)))"
  using offset_to_position_correct[OF assms, of off] by (simp add: Let_def)

theorem offset_to_position_right_witness:
  "offset_to_position sample_tree 5 sample_buffers = Some (Some (1, 2))"
  by (subst offset_to_position_right[OF sample_tree_ok(1) sample_tree_indexed]) code_simp

text \<open>
  Line starts survive the round trip through positions. Going to the start of an existing line
  and converting the offset back gives that line at column 0.
\<close>

theorem line_start_round_trip:
  assumes "pt_ok files bufs t" and "pt_indexed bufs t" and "line \<le> count_nl (pt_text files bufs t)"
  shows "offset_to_position t (position_to_offset t line 0 bufs) bufs = Some (Some (line, 0))"
  using offset_to_position_correct[OF assms(1,2)] position_to_offset_line_start[OF assms(1,2)]
    count_nl_take_line_offset[OF assms(3)] line_offset_le_length[of "pt_text files bufs t" line]
  by simp

theorem line_start_round_trip_witness:
  "offset_to_position sample_tree (position_to_offset sample_tree 1 0 sample_buffers) sample_buffers =
     Some (Some (1, 0))"
proof -
  have "1 \<le> count_nl (pt_text (\<lambda>_. []) sample_buffers sample_tree)" by code_simp
  from line_start_round_trip[OF sample_tree_ok(1) sample_tree_indexed this] show ?thesis .
qed

text \<open>
  The byte range of a line is right: it starts at the line's first byte, ends at the start of
  the next line, is open for the last line, and no range is given for a line past the last one.
\<close>

theorem line_range_right:
  assumes "pt_ok files bufs t" and "pt_indexed bufs t"
  shows "line_range t line bufs =
           (let text = pt_text files bufs t in
            if line > count_nl text then None
            else Some (line_offset text line,
                       if line = count_nl text then None else Some (line_offset text (line + 1))))"
  using line_range_correct[OF assms, of line] by (auto simp: Let_def)

theorem line_range_right_witness:
  "line_range sample_tree 1 sample_buffers = Some (3, Some 6) \<and>
   line_range sample_tree 3 sample_buffers = None"
  by (intro conjI; subst line_range_right[OF sample_tree_ok(1) sample_tree_indexed]; code_simp)

text \<open>
  A column past the start of a line is not resolved when the line lies in several pieces. In
  the one-line document "abcd" held as the pieces "ab" and "cd", line 0 column 1 is offset 1, and
  the conversion of offset 1 says so, but the conversion back gives offset 3: every piece that
  begins inside the line is taken as the start of the line, and the last of them wins.
\<close>

theorem column_across_pieces_wrong:
  "let bufs = [sb_new 0 [97, 98, 99, 100]];
       t = from_leaves [LeafData_new (Stored 0) 0 2 (Some 0), LeafData_new (Stored 0) 2 2 (Some 0)]
   in pt_ok (\<lambda>_. []) bufs t \<and> pt_indexed bufs t \<and> pt_text (\<lambda>_. []) bufs t = [97, 98, 99, 100] \<and>
      offset_to_position t 1 bufs = Some (Some (0, 1)) \<and> position_to_offset t 0 1 bufs = 3"
  by code_simp

text \<open>
  C32: reading a range gives the bytes of the document. Whatever the load state of the buffers, a
  range that is read is the requested part of the text, clipped at its end; and when every piece
  is loaded the read succeeds for every range.
\<close>

theorem read_range_right:
  assumes "pt_ok files bufs t"
  shows "(\<forall>bs. read_range t bufs off n = Some bs \<longrightarrow> bs = take n (drop off (pt_text files bufs t))) \<and>
         (node_loaded bufs (root t) \<longrightarrow>
            read_range t bufs off n = Some (take n (drop off (pt_text files bufs t))))"
  using read_range_correct[OF assms] read_range_loaded[OF assms] by blast

theorem read_range_right_witness: "read_range sample_tree sample_buffers 3 10 = Some [99, 100, 10]"
proof -
  have "node_loaded sample_buffers (root sample_tree)" by code_simp
  then have "read_range sample_tree sample_buffers 3 10 =
      Some (take 10 (drop 3 (pt_text (\<lambda>_. []) sample_buffers sample_tree)))"
    using read_range_right[OF sample_tree_ok(1)] by blast
  also have "\<dots> = Some [99, 100, 10]" by code_simp
  finally show ?thesis .
qed

text \<open>
  A range that is reported free of line feeds has none. The answer comes from the per-piece
  counts alone, unknown counts never pass for zero, and pieces that overlap the range only partly
  are covered.
\<close>

theorem line_feed_free_sound:
  assumes "pt_ok files bufs t" and "range_line_feed_free t s e"
  shows "newline \<notin> set (take (e - s) (drop s (pt_text files bufs t)))"
  using range_line_feed_free_correct[OF assms] by (auto simp: count_nl_def filter_empty_conv)

theorem line_feed_free_sound_witness:
  "newline \<notin> set (take 2 (drop 1 (pt_text (\<lambda>_. []) [sb_new 0 [97, 98, 99, 100]]
     (pt_new (Stored 0) 0 4 (Some 0)))))"
proof -
  have "pt_ok (\<lambda>_. []) [sb_new 0 [97, 98, 99, 100]] (pt_new (Stored 0) 0 4 (Some 0))"
    "range_line_feed_free (pt_new (Stored 0) 0 4 (Some 0)) 1 3" by code_simp+
  from line_feed_free_sound[OF this] show ?thesis by simp
qed

end
