(* ===== verification/Tree_Diff.thy ===== *)
theory Tree_Diff
  imports Piece_Lines
begin

text \<open>
  The diff of two piece trees (\<open>model/piece_tree_diff.rs\<close>). \<open>Arc::ptr_eq\<close> on nodes is a parameter
  \<open>ptr_eq\<close>: pointers to the same node are pointers to equal nodes. A pair of an index into the spans
  and an offset inside the span there is modelled as the list of the remaining spans, the first of
  them cut down to its remaining part (\<open>advance\<close>, \<open>retreat\<close>): positions, remaining bytes and the test
  for a finished span read the same off the cut span.
\<close>

subsection \<open>Data\<close>

record Span =
  sp_leaf :: LeafData
  sp_doc_offset :: nat

record PieceTreeDiff =
  d_equal :: bool
  byte_ranges :: "(nat \<times> nat) list"
  nodes_visited :: nat

subsection \<open>Collecting the differing leaves\<close>

fun collect_leaves_with_offsets ::
  "PieceTreeNode \<Rightarrow> Span list \<Rightarrow> nat \<Rightarrow> nat \<Rightarrow> Span list \<times> nat \<times> nat" where
  "collect_leaves_with_offsets (Internal _ _ left right) out visited doc_offset =
     (case collect_leaves_with_offsets left out (visited + 1) doc_offset of
        (out1, visited1, doc_offset1) \<Rightarrow>
          collect_leaves_with_offsets right out1 visited1 doc_offset1)"
| "collect_leaves_with_offsets (Leaf location offset bytes line_feed_cnt) out visited doc_offset =
     (out @ [\<lparr>sp_leaf = LeafData_new location offset bytes line_feed_cnt,
              sp_doc_offset = doc_offset\<rparr>], visited + 1, doc_offset + bytes)"

text \<open>
  The state of the parallel walk: the spans of both trees, the nodes visited, and the document
  offsets reached in both.
\<close>

record DiffWalk =
  before_out :: "Span list"
  after_out :: "Span list"
  dw_visited :: nat
  before_doc_offset :: nat
  after_doc_offset :: nat

fun node_bytes :: "PieceTreeNode \<Rightarrow> nat" where
  "node_bytes (Internal left_bytes _ _ right) = left_bytes + node_bytes right"
| "node_bytes (Leaf _ _ bytes _) = bytes"

definition skip_subtree :: "PieceTreeNode \<Rightarrow> DiffWalk \<Rightarrow> DiffWalk" where
  "skip_subtree before w =
     (let bytes = node_bytes before in
      w\<lparr>before_doc_offset := before_doc_offset w + bytes,
        after_doc_offset := after_doc_offset w + bytes\<rparr>)"

definition collect_both :: "PieceTreeNode \<Rightarrow> PieceTreeNode \<Rightarrow> DiffWalk \<Rightarrow> DiffWalk" where
  "collect_both before after w =
     (case collect_leaves_with_offsets before (before_out w) (dw_visited w) (before_doc_offset w) of
        (bo, v1, bd) \<Rightarrow>
          (case collect_leaves_with_offsets after (after_out w) v1 (after_doc_offset w) of
             (ao, v2, ad) \<Rightarrow>
               \<lparr>before_out = bo, after_out = ao, dw_visited = v2, before_doc_offset = bd,
                after_doc_offset = ad\<rparr>))"

fun diff_collect_leaves ::
  "(PieceTreeNode \<Rightarrow> PieceTreeNode \<Rightarrow> bool) \<Rightarrow> PieceTreeNode \<Rightarrow> PieceTreeNode \<Rightarrow> DiffWalk \<Rightarrow> DiffWalk"
  where
  "diff_collect_leaves ptr_eq (Internal lb lf b_left b_right) (Internal lb' lf' a_left a_right) w =
     (let w1 = w\<lparr>dw_visited := dw_visited w + 2\<rparr> in
      if ptr_eq (Internal lb lf b_left b_right) (Internal lb' lf' a_left a_right)
      then skip_subtree (Internal lb lf b_left b_right) w1
      else diff_collect_leaves ptr_eq b_right a_right (diff_collect_leaves ptr_eq b_left a_left w1))"
| "diff_collect_leaves ptr_eq before after w =
     (let w1 = w\<lparr>dw_visited := dw_visited w + 2\<rparr> in
      if ptr_eq before after then skip_subtree before w1 else collect_both before after w1)"

subsection \<open>Comparing spans\<close>

definition spans_equal :: "Span \<Rightarrow> Span \<Rightarrow> bool" where
  "spans_equal a b \<longleftrightarrow>
     ld_location (sp_leaf a) = ld_location (sp_leaf b) \<and>
     ld_offset (sp_leaf a) = ld_offset (sp_leaf b) \<and> ld_bytes (sp_leaf a) = ld_bytes (sp_leaf b)"

definition span_slices_equal :: "Span list \<Rightarrow> Span list \<Rightarrow> bool" where
  "span_slices_equal a b \<longleftrightarrow>
     length a = length b \<and> list_all (\<lambda>(x, y). spans_equal x y) (zip a b)"

fun merge_spans :: "Span \<Rightarrow> Span list \<Rightarrow> Span list" where
  "merge_spans current [] = [current]"
| "merge_spans current (span # spans) =
     (let c = sp_leaf current; s = sp_leaf span;
          contiguous = (ld_location c = ld_location s \<and> ld_offset c + ld_bytes c = ld_offset s \<and>
                        sp_doc_offset current + ld_bytes c = sp_doc_offset span) in
      if contiguous then
        merge_spans
          (current\<lparr>sp_leaf := c\<lparr>ld_bytes := ld_bytes c + ld_bytes s,
             ld_line_feed_cnt := (case (ld_line_feed_cnt c, ld_line_feed_cnt s) of
                                    (Some a, Some b) \<Rightarrow> Some (a + b) | _ \<Rightarrow> None)\<rparr>\<rparr>) spans
      else current # merge_spans span spans)"

definition normalize_spans :: "Span list \<Rightarrow> Span list" where
  "normalize_spans spans = (case spans of [] \<Rightarrow> [] | current # rest \<Rightarrow> merge_spans current rest)"

definition advance :: "nat \<Rightarrow> Span \<Rightarrow> Span" where
  "advance n s =
     s\<lparr>sp_leaf := (sp_leaf s)\<lparr>ld_offset := ld_offset (sp_leaf s) + n, ld_bytes := ld_bytes (sp_leaf s) - n\<rparr>,
       sp_doc_offset := sp_doc_offset s + n\<rparr>"

definition retreat :: "nat \<Rightarrow> Span \<Rightarrow> Span" where
  "retreat n s = s\<lparr>sp_leaf := (sp_leaf s)\<lparr>ld_bytes := ld_bytes (sp_leaf s) - n\<rparr>\<rparr>"

text \<open>What is left of a list of spans when \<open>n\<close> bytes of its first span are done.\<close>

definition step_spans :: "nat \<Rightarrow> Span list \<Rightarrow> Span list" where
  "step_spans n spans =
     (case spans of [] \<Rightarrow> []
      | s # rest \<Rightarrow> if n = ld_bytes (sp_leaf s) then rest else advance n s # rest)"

function common_prefix_loop :: "Span list \<Rightarrow> Span list \<Rightarrow> nat \<Rightarrow> nat" where
  "common_prefix_loop (b # bs) (a # as) consumed =
     (if ld_location (sp_leaf b) = ld_location (sp_leaf a) \<and>
         ld_offset (sp_leaf b) = ld_offset (sp_leaf a) \<and> sp_doc_offset b = sp_doc_offset a
      then (let n = min (ld_bytes (sp_leaf b)) (ld_bytes (sp_leaf a)) in
            common_prefix_loop (step_spans n (b # bs)) (step_spans n (a # as)) (consumed + n))
      else consumed)"
| "common_prefix_loop [] as consumed = consumed"
| "common_prefix_loop bs [] consumed = consumed"
  by pat_completeness auto
termination
  by (relation "measure (\<lambda>(bs, as, _). length bs + length as)") (auto simp: step_spans_def min_def)

definition common_prefix_bytes :: "Span list \<Rightarrow> Span list \<Rightarrow> nat" where
  "common_prefix_bytes before after = common_prefix_loop before after 0"

definition spans_end :: "Span list \<Rightarrow> nat" where
  "spans_end spans =
     (if spans = [] then 0 else sp_doc_offset (last spans) + ld_bytes (sp_leaf (last spans)))"

text \<open>The suffix is compared on the reversed spans, the first of them cut at its end.\<close>

definition step_back :: "nat \<Rightarrow> Span list \<Rightarrow> Span list" where
  "step_back n spans =
     (case spans of [] \<Rightarrow> []
      | s # rest \<Rightarrow> if n = ld_bytes (sp_leaf s) then rest else retreat n s # rest)"

function common_suffix_loop :: "Span list \<Rightarrow> Span list \<Rightarrow> nat \<Rightarrow> nat \<Rightarrow> nat \<Rightarrow> nat \<Rightarrow> nat" where
  "common_suffix_loop (b # bs) (a # as) total_before total_after prefix_bytes consumed =
     (if total_before - consumed > prefix_bytes \<and> total_after - consumed > prefix_bytes then
        (if ld_location (sp_leaf b) = ld_location (sp_leaf a) \<and>
            ld_offset (sp_leaf b) + ld_bytes (sp_leaf b) = ld_offset (sp_leaf a) + ld_bytes (sp_leaf a)
         then (let n = min (ld_bytes (sp_leaf b)) (ld_bytes (sp_leaf a)) in
               common_suffix_loop (step_back n (b # bs)) (step_back n (a # as))
                 total_before total_after prefix_bytes (consumed + n))
         else consumed)
      else consumed)"
| "common_suffix_loop [] as total_before total_after prefix_bytes consumed = consumed"
| "common_suffix_loop bs [] total_before total_after prefix_bytes consumed = consumed"
  by pat_completeness auto
termination
  by (relation "measure (\<lambda>(bs, as, _). length bs + length as)") (auto simp: step_back_def min_def)

definition common_suffix_bytes :: "Span list \<Rightarrow> Span list \<Rightarrow> nat \<Rightarrow> nat" where
  "common_suffix_bytes before after prefix_bytes =
     min (common_suffix_loop (rev before) (rev after) (spans_end before) (spans_end after)
            prefix_bytes 0)
       (spans_end after - prefix_bytes)"

subsection \<open>The changed ranges\<close>

function skip_prefix :: "Span list \<Rightarrow> Span list \<Rightarrow> nat \<Rightarrow> nat \<Rightarrow> Span list \<times> Span list" where
  "skip_prefix (b # bs) (a # as) prefix matched =
     (if matched < prefix then
        (let n = min (min (ld_bytes (sp_leaf b)) (ld_bytes (sp_leaf a))) (prefix - matched) in
         skip_prefix (step_spans n (b # bs)) (step_spans n (a # as)) prefix (matched + n))
      else (b # bs, a # as))"
| "skip_prefix [] as prefix matched = ([], as)"
| "skip_prefix bs [] prefix matched = (bs, [])"
  by pat_completeness auto
termination
  by (relation "measure (\<lambda>(bs, as, prefix, matched). length bs + length as + (prefix - matched))")
    (auto simp: step_spans_def min_def)

text \<open>
  The main loop, with the open range (its start, if any, and its end) and the ranges so far; it
  returns the spans of the after tree that are left.
\<close>

definition span_matches :: "Span list \<Rightarrow> Span \<Rightarrow> bool" where
  "span_matches bs a =
     (case bs of [] \<Rightarrow> False
      | b # _ \<Rightarrow> ld_location (sp_leaf b) = ld_location (sp_leaf a) \<and>
                 ld_offset (sp_leaf b) = ld_offset (sp_leaf a))"

definition close_range :: "nat option \<Rightarrow> nat \<Rightarrow> (nat \<times> nat) list \<Rightarrow> (nat \<times> nat) list" where
  "close_range start fin ranges = (case start of Some s \<Rightarrow> ranges @ [(s, fin)] | None \<Rightarrow> ranges)"

function range_loop ::
  "nat \<Rightarrow> Span list \<Rightarrow> Span list \<Rightarrow> nat option \<Rightarrow> nat \<Rightarrow> (nat \<times> nat) list
   \<Rightarrow> Span list \<times> nat option \<times> nat \<times> (nat \<times> nat) list" where
  "range_loop limit bs [] start fin ranges = ([], start, fin, ranges)"
| "range_loop limit bs (a # as) start fin ranges =
     (let pos = sp_doc_offset a in
      if pos \<ge> limit then (a # as, start, fin, ranges)
      else
        (let gap = (start \<noteq> None \<and> pos > fin);
             start1 = (if gap then None else start);
             ranges1 = (if gap then close_range start fin ranges else ranges) in
         if span_matches bs a then
           (let n = min (min (ld_bytes (sp_leaf (hd bs))) (ld_bytes (sp_leaf a))) (limit - pos) in
            range_loop limit (step_spans n bs) (step_spans n (a # as)) None fin
              (close_range start1 fin ranges1))
         else
           (let start2 = (if start1 = None then Some pos else start1);
                n = min (ld_bytes (sp_leaf a)) (limit - pos) in
            range_loop limit bs (step_spans n (a # as)) start2 (pos + n) ranges1)))"
  by pat_completeness auto
termination
proof (relation "measure (\<lambda>(limit, bs, as, _). 2 * (length bs + length as) +
    (case as of [] \<Rightarrow> 0 | a # _ \<Rightarrow> if sp_doc_offset a < limit then 1 else 0))", goal_cases)
  case (2 limit bs a as start fin ranges pos gap start1 ranges1 n)
  then show ?case
    by (cases bs) (auto simp: step_spans_def span_matches_def advance_def min_def split: list.splits)
next
  case (3 limit bs a as start fin ranges pos gap start1 ranges1 start2 n)
  then show ?case by (auto simp: step_spans_def advance_def min_def split: list.splits)
qed simp

fun trailing_ranges :: "nat \<Rightarrow> Span list \<Rightarrow> (nat \<times> nat) list \<Rightarrow> (nat \<times> nat) list" where
  "trailing_ranges limit [] ranges = ranges"
| "trailing_ranges limit (a # as) ranges =
     (if sp_doc_offset a \<ge> limit then ranges
      else trailing_ranges limit as
             (ranges @ [(sp_doc_offset a, min (sp_doc_offset a + ld_bytes (sp_leaf a)) limit)]))"

definition collect_diff_ranges :: "Span list \<Rightarrow> Span list \<Rightarrow> nat \<Rightarrow> nat \<Rightarrow> (nat \<times> nat) list" where
  "collect_diff_ranges before after prefix suffix =
     (let (bs, as) = skip_prefix before after prefix 0;
          compare_limit = spans_end after - suffix;
          doc_start = (case after of [] \<Rightarrow> 0 | s # _ \<Rightarrow> sp_doc_offset s);
          (rest, start, fin, ranges) = range_loop compare_limit bs as None 0 [];
          ranges2 = trailing_ranges compare_limit rest (close_range start fin ranges)
      in if ranges2 = [] then [(doc_start + prefix, compare_limit)] else ranges2)"

definition diff_piece_trees ::
  "(PieceTreeNode \<Rightarrow> PieceTreeNode \<Rightarrow> bool) \<Rightarrow> PieceTreeNode \<Rightarrow> PieceTreeNode \<Rightarrow> PieceTreeDiff" where
  "diff_piece_trees ptr_eq before after =
     (if ptr_eq before after then \<lparr>d_equal = True, byte_ranges = [], nodes_visited = 1\<rparr>
      else
        (let w = diff_collect_leaves ptr_eq before after
                   \<lparr>before_out = [], after_out = [], dw_visited = 0, before_doc_offset = 0,
                    after_doc_offset = 0\<rparr>;
             before_spans = normalize_spans (before_out w);
             after_spans = normalize_spans (after_out w) in
         if span_slices_equal before_spans after_spans
         then \<lparr>d_equal = True, byte_ranges = [], nodes_visited = dw_visited w\<rparr>
         else
           (let prefix = common_prefix_bytes before_spans after_spans;
                suffix = common_suffix_bytes before_spans after_spans prefix
            in \<lparr>d_equal = False,
                byte_ranges = collect_diff_ranges before_spans after_spans prefix suffix,
                nodes_visited = dw_visited w\<rparr>)))"

subsection \<open>Equal spans are equal texts\<close>

definition spans_text :: "(string \<Rightarrow> byte list) \<Rightarrow> StringBuffer list \<Rightarrow> Span list \<Rightarrow> byte list" where
  "spans_text f b spans = leaves_text f b (map sp_leaf spans)"

lemma collect_with_offsets_leaves:
  "map sp_leaf (fst (collect_leaves_with_offsets n out v d)) = map sp_leaf out @ node_leaves n"
proof (induction n arbitrary: out v d)
  case (Internal lb lf l r)
  obtain o1 v1 d1 where eq: "collect_leaves_with_offsets l out (v + 1) d = (o1, v1, d1)"
    by (metis prod_cases3)
  have "map sp_leaf o1 = map sp_leaf out @ node_leaves l" using Internal.IH(1)[of out "v + 1" d] eq by simp
  then show ?case using Internal.IH(2)[of o1 v1 d1] eq by simp
qed simp

lemma diff_collect_unshared:
  "map sp_leaf (before_out (diff_collect_leaves (\<lambda>_ _. False) m n w)) =
     map sp_leaf (before_out w) @ node_leaves m"
  "map sp_leaf (after_out (diff_collect_leaves (\<lambda>_ _. False) m n w)) =
     map sp_leaf (after_out w) @ node_leaves n"
proof -
  define P where "P m n w \<longleftrightarrow>
      map sp_leaf (before_out (diff_collect_leaves (\<lambda>_ _. False) m n w)) =
        map sp_leaf (before_out w) @ node_leaves m \<and>
      map sp_leaf (after_out (diff_collect_leaves (\<lambda>_ _. False) m n w)) =
        map sp_leaf (after_out w) @ node_leaves n" for m n w
  have both: "map sp_leaf (before_out (collect_both m n w)) = map sp_leaf (before_out w) @ node_leaves m"
    "map sp_leaf (after_out (collect_both m n w)) = map sp_leaf (after_out w) @ node_leaves n" for m n w
  proof -
    obtain bo v1 bd where b: "collect_leaves_with_offsets m (before_out w) (dw_visited w)
        (before_doc_offset w) = (bo, v1, bd)" by (metis prod_cases3)
    obtain ao v2 ad where a: "collect_leaves_with_offsets n (after_out w) v1 (after_doc_offset w) =
        (ao, v2, ad)" by (metis prod_cases3)
    show "map sp_leaf (before_out (collect_both m n w)) = map sp_leaf (before_out w) @ node_leaves m"
      "map sp_leaf (after_out (collect_both m n w)) = map sp_leaf (after_out w) @ node_leaves n"
      using collect_with_offsets_leaves[of m "before_out w" "dw_visited w" "before_doc_offset w"]
        collect_with_offsets_leaves[of n "after_out w" v1 "after_doc_offset w"]
      by (simp_all add: collect_both_def a b)
  qed
  have "P m n w"
  proof (induction m arbitrary: n w)
    case (Internal lb lf l r)
    show ?case
    proof (cases n)
      case (Internal lb' lf' l' r')
      then show ?thesis using Internal.IH unfolding P_def by (simp add: Let_def)
    next
      case (Leaf l off n' c)
      then show ?thesis unfolding P_def using both by (simp add: Let_def del: node_leaves.simps)
    qed
  next
    case (Leaf l off k c)
    show ?case unfolding P_def using both by (cases n) (simp_all add: Let_def del: node_leaves.simps)
  qed
  then show "map sp_leaf (before_out (diff_collect_leaves (\<lambda>_ _. False) m n w)) =
     map sp_leaf (before_out w) @ node_leaves m"
    "map sp_leaf (after_out (diff_collect_leaves (\<lambda>_ _. False) m n w)) =
     map sp_leaf (after_out w) @ node_leaves n" unfolding P_def by blast+
qed

lemma merge_spans_text: "spans_text f b (merge_spans c ss) = ld_text f b (sp_leaf c) @ spans_text f b ss"
proof (induction c ss rule: merge_spans.induct)
  case (2 c s ss)
  have join: "piece_text f b l off n @ piece_text f b l (off + n) m = piece_text f b l off (n + m)"
    for l off n m
    by (cases "slice_get b (buffer_id l)") (simp_all add: piece_text_def take_add add.commute[of off n])
  show ?case
    using 2 join[of "ld_location (sp_leaf c)" "ld_offset (sp_leaf c)" "ld_bytes (sp_leaf c)"]
    by (auto simp: spans_text_def ld_text_def Let_def)
qed (simp add: spans_text_def)

lemma normalize_spans_text: "spans_text f b (normalize_spans ss) = spans_text f b ss"
  by (cases ss) (simp_all add: normalize_spans_def merge_spans_text, simp_all add: spans_text_def)

lemma span_slices_equal_text: "span_slices_equal as bs \<Longrightarrow> spans_text f b as = spans_text f b bs"
proof (induction as arbitrary: bs)
  case (Cons x xs)
  then obtain y ys where "bs = y # ys" by (cases bs) (auto simp: span_slices_equal_def)
  then show ?case using Cons by (auto simp: span_slices_equal_def spans_text_def spans_equal_def ld_text_def)
qed (simp add: span_slices_equal_def spans_text_def)

subsection \<open>Properties\<close>

text \<open>
  C35: trees that the diff calls equal, without skipping shared subtrees, hold the same text: the
  leaves are compared after merging contiguous pieces, so differently cut trees compare equal, and
  line feed counts and tree shapes do not matter.
\<close>

theorem diff_equal_sound:
  assumes "d_equal (diff_piece_trees (\<lambda>_ _. False) before after)"
  shows "node_text files bufs before = node_text files bufs after"
proof -
  let ?w = "diff_collect_leaves (\<lambda>_ _. False) before after
      \<lparr>before_out = [], after_out = [], dw_visited = 0, before_doc_offset = 0, after_doc_offset = 0\<rparr>"
  have "span_slices_equal (normalize_spans (before_out ?w)) (normalize_spans (after_out ?w))"
    using assms by (simp add: diff_piece_trees_def Let_def split: if_splits)
  then have "spans_text files bufs (before_out ?w) = spans_text files bufs (after_out ?w)"
    using span_slices_equal_text normalize_spans_text by metis
  then show ?thesis by (simp add: spans_text_def diff_collect_unshared node_text_def)
qed

theorem diff_equal_sound_witness:
  "node_text (\<lambda>_. []) [sb_new 0 [1, 2, 3]] (root (pt_new (Stored 0) 0 3 None)) =
   node_text (\<lambda>_. []) [sb_new 0 [1, 2, 3]]
     (root (from_leaves [LeafData_new (Stored 0) 0 2 (Some 0), LeafData_new (Stored 0) 2 1 None]))"
  by (rule diff_equal_sound) code_simp

text \<open>
  Skipping shared subtrees makes the diff call different documents equal. Only location, offset
  and length of the differing spans are compared, not where they stand: with the piece "X" shared,
  the trees for "pXqr" and "pqXr" have the same differing pieces, so the diff reports no change. The
  pointer test here holds of equal nodes only.
\<close>

theorem diff_shared_unsound:
  "let bufs = [sb_new 0 [112, 1, 113, 2, 114, 88]];
       p = Leaf (Stored 0) 0 1 (Some 0); q = Leaf (Stored 0) 2 1 (Some 0);
       r = Leaf (Stored 0) 4 1 (Some 0); x = Leaf (Stored 0) 5 1 (Some 0);
       before = Internal 2 (Some 0) (Internal 1 (Some 0) p x) (Internal 1 (Some 0) q r);
       after = Internal 3 (Some 0) (Internal 2 (Some 0) (Internal 1 (Some 0) p q) x) r;
       ptr_eq = (\<lambda>m n. m = x \<and> n = x)
   in node_ok (\<lambda>_. []) bufs before \<and> node_ok (\<lambda>_. []) bufs after \<and>
      d_equal (diff_piece_trees ptr_eq before after) \<and>
      node_text (\<lambda>_. []) bufs before = [112, 88, 113, 114] \<and>
      node_text (\<lambda>_. []) bufs after = [112, 113, 88, 114]"
  by code_simp

end
