(* ===== verification/Save_State.thy ===== *)
theory Save_State
  imports Tree_Diff
begin

text \<open>
  The save state of a buffer (\<open>model/buffer/persistence.rs\<close>): the modified and recovery flags, the
  piece tree root of the last save, the records of a hot-exit entry, of a torn write and of the
  saved content, the version counter that every change of the saved root or of the modified flag
  bumps, and the diff against the saved state with its memo. The file system handle is not a field:
  operations that use it take it as an argument. A \<open>SystemTime\<close> is a number. The lock around the
  memo is never poisoned (nothing panics while holding it), so both lock attempts succeed.
\<close>

record HotExitEntry =
  he_id :: string
  he_metadata_path :: string

record ContentDigest =
  cd_size :: "64 word"
  cd_sha256 :: "byte list"

record Persistence =
  p_file_path :: "string option"
  p_modified :: bool
  p_recovery_pending :: bool
  p_hot_exit_entry :: "HotExitEntry option"
  p_saved_root :: PieceTreeNode
  p_saved_file_size :: "nat option"
  p_source_torn :: bool
  p_torn_write :: "(string \<times> nat) option"
  p_saved_content :: "ContentDigest option"
  p_save_state_version :: "64 word"
  p_saved_diff_memo :: "(64 word \<times> 64 word \<times> PieceTreeDiff) option"

definition persistence_new ::
  "string option \<Rightarrow> PieceTreeNode \<Rightarrow> nat option \<Rightarrow> Persistence" where
  "persistence_new file_path saved_root saved_file_size =
     \<lparr>p_file_path = file_path, p_modified = False, p_recovery_pending = False,
      p_hot_exit_entry = None, p_saved_root = saved_root, p_saved_file_size = saved_file_size,
      p_source_torn = False, p_torn_write = None, p_saved_content = None,
      p_save_state_version = 0, p_saved_diff_memo = None\<rparr>"

definition set_file_path :: "Persistence \<Rightarrow> string \<Rightarrow> Persistence" where
  "set_file_path p path = p\<lparr>p_file_path := Some path\<rparr>"

definition clear_file_path :: "Persistence \<Rightarrow> Persistence" where
  "clear_file_path p = p\<lparr>p_file_path := None\<rparr>"

definition set_recovery_pending :: "Persistence \<Rightarrow> bool \<Rightarrow> Persistence" where
  "set_recovery_pending p pending = p\<lparr>p_recovery_pending := pending\<rparr>"

definition set_hot_exit_entry :: "Persistence \<Rightarrow> HotExitEntry option \<Rightarrow> Persistence" where
  "set_hot_exit_entry p e = p\<lparr>p_hot_exit_entry := e\<rparr>"

definition set_saved_file_size :: "Persistence \<Rightarrow> nat option \<Rightarrow> Persistence" where
  "set_saved_file_size p n = p\<lparr>p_saved_file_size := n\<rparr>"

definition set_source_torn :: "Persistence \<Rightarrow> bool \<Rightarrow> Persistence" where
  "set_source_torn p torn = p\<lparr>p_source_torn := torn\<rparr>"

definition set_torn_write :: "Persistence \<Rightarrow> (string \<times> nat) option \<Rightarrow> Persistence" where
  "set_torn_write p torn_write = p\<lparr>p_torn_write := torn_write\<rparr>"

definition set_saved_content :: "Persistence \<Rightarrow> ContentDigest option \<Rightarrow> Persistence" where
  "set_saved_content p c = p\<lparr>p_saved_content := c\<rparr>"

lemmas persistence_setters = set_file_path_def clear_file_path_def set_recovery_pending_def
  set_hot_exit_entry_def set_saved_file_size_def set_source_torn_def set_torn_write_def
  set_saved_content_def

definition bump_save_state :: "Persistence \<Rightarrow> Persistence" where
  "bump_save_state p = p\<lparr>p_save_state_version := p_save_state_version p + 1\<rparr>"

definition set_modified :: "Persistence \<Rightarrow> bool \<Rightarrow> Persistence" where
  "set_modified p modified = bump_save_state (p\<lparr>p_modified := modified\<rparr>)"

definition clear_modified :: "Persistence \<Rightarrow> Persistence" where
  "clear_modified p = bump_save_state (p\<lparr>p_modified := False\<rparr>)"

definition mark_dirty :: "Persistence \<Rightarrow> Persistence" where
  "mark_dirty p = bump_save_state (p\<lparr>p_modified := True, p_recovery_pending := True\<rparr>)"

definition set_saved_root :: "Persistence \<Rightarrow> PieceTreeNode \<Rightarrow> Persistence" where
  "set_saved_root p r = bump_save_state (p\<lparr>p_saved_root := r\<rparr>)"

definition mark_saved_snapshot :: "Persistence \<Rightarrow> PieceTree \<Rightarrow> Persistence" where
  "mark_saved_snapshot p piece_tree =
     bump_save_state (p\<lparr>p_saved_root := root piece_tree, p_modified := False\<rparr>)"

definition refresh_saved_root_if_unmodified :: "Persistence \<Rightarrow> PieceTree \<Rightarrow> Persistence" where
  "refresh_saved_root_if_unmodified p piece_tree =
     (if \<not> p_modified p then bump_save_state (p\<lparr>p_saved_root := root piece_tree\<rparr>) else p)"

text \<open>One leaf of \<open>apply_chunk_load_to_saved_root\<close>: the leaves that replace it.\<close>

definition chunk_overlaps :: "nat \<Rightarrow> nat \<Rightarrow> nat \<Rightarrow> LeafData \<Rightarrow> bool" where
  "chunk_overlaps old_buffer_id chunk_start chunk_bytes leaf \<longleftrightarrow>
     buffer_id (ld_location leaf) = old_buffer_id \<and>
     \<not> (chunk_start \<ge> ld_offset leaf + ld_bytes leaf \<or> chunk_start + chunk_bytes \<le> ld_offset leaf)"

definition chunk_load_leaf :: "nat \<Rightarrow> nat \<Rightarrow> nat \<Rightarrow> nat \<Rightarrow> LeafData \<Rightarrow> LeafData list" where
  "chunk_load_leaf old_buffer_id chunk_start chunk_bytes new_buffer_id leaf =
     (if \<not> chunk_overlaps old_buffer_id chunk_start chunk_bytes leaf then [leaf]
      else
        (let leaf_start = ld_offset leaf;
             leaf_end = ld_offset leaf + ld_bytes leaf;
             chunk_end = chunk_start + chunk_bytes;
             prefix = (if chunk_start > leaf_start
                       then [LeafData_new (ld_location leaf) (ld_offset leaf)
                               (chunk_start - leaf_start) None] else []);
             actual_start = max chunk_start leaf_start;
             actual_end = min chunk_end leaf_end;
             offset_in_chunk = actual_start - chunk_start;
             chunk = [LeafData_new (Added new_buffer_id) offset_in_chunk
                        (actual_end - actual_start) None];
             suffix = (if chunk_end < leaf_end
                       then [LeafData_new (ld_location leaf) chunk_end (leaf_end - chunk_end) None]
                       else [])
         in prefix @ chunk @ suffix))"

definition apply_chunk_load_to_saved_root ::
  "Persistence \<Rightarrow> nat \<Rightarrow> nat \<Rightarrow> nat \<Rightarrow> nat \<Rightarrow> Persistence" where
  "apply_chunk_load_to_saved_root p old_buffer_id chunk_offset_in_buffer chunk_bytes new_buffer_id =
     (let leaves = collect_leaves (p_saved_root p) [];
          modified = list_ex (chunk_overlaps old_buffer_id chunk_offset_in_buffer chunk_bytes) leaves;
          new_leaves = concat (map (chunk_load_leaf old_buffer_id chunk_offset_in_buffer chunk_bytes
                                      new_buffer_id) leaves)
      in if modified
         then bump_save_state (p\<lparr>p_saved_root := root (from_leaves new_leaves)\<rparr>) else p)"

definition saved_tree :: "Persistence \<Rightarrow> PieceTree" where
  "saved_tree p = from_root (p_saved_root p)"

definition saved_total_bytes :: "Persistence \<Rightarrow> nat" where
  "saved_total_bytes p = pt_total_bytes (saved_tree p)"

definition extract_saved_range ::
  "Persistence \<Rightarrow> nat \<Rightarrow> nat \<Rightarrow> StringBuffer list \<Rightarrow> byte list option" where
  "extract_saved_range p start fin buffers = read_range (saved_tree p) buffers start (fin - start)"

subsection \<open>The diff against the saved state\<close>

definition MAX_VERIFY_BYTES :: nat where
  "MAX_VERIFY_BYTES = 64 * 1024"

definition range_differs ::
  "PieceTree \<Rightarrow> PieceTree \<Rightarrow> StringBuffer list \<Rightarrow> nat \<times> nat \<Rightarrow> bool" where
  "range_differs saved current buffers rg =
     (case rg of (start, fin) \<Rightarrow>
        if start \<ge> fin then False
        else (case (read_range saved buffers start (fin - start),
                    read_range current buffers start (fin - start)) of
                (Some s, Some c) \<Rightarrow> s \<noteq> c
              | _ \<Rightarrow> True))"

definition verify_content_differs_in_ranges ::
  "Persistence \<Rightarrow> (nat \<times> nat) list \<Rightarrow> PieceTree \<Rightarrow> StringBuffer list \<Rightarrow> bool" where
  "verify_content_differs_in_ranges p ranges piece_tree buffers =
     (if pt_total_bytes (saved_tree p) \<noteq> pt_total_bytes piece_tree then True
      else list_ex (range_differs (saved_tree p) piece_tree buffers) ranges)"

definition diff_trees_by_structure ::
  "(PieceTreeNode \<Rightarrow> PieceTreeNode \<Rightarrow> bool) \<Rightarrow> Persistence \<Rightarrow> PieceTree \<Rightarrow> PieceTreeDiff" where
  "diff_trees_by_structure ptr_eq p piece_tree =
     diff_piece_trees ptr_eq (p_saved_root p) (root piece_tree)"

definition diff_since_saved_uncached ::
  "(PieceTreeNode \<Rightarrow> PieceTreeNode \<Rightarrow> bool) \<Rightarrow> Persistence \<Rightarrow> PieceTree \<Rightarrow> StringBuffer list
   \<Rightarrow> PieceTreeDiff" where
  "diff_since_saved_uncached ptr_eq p piece_tree buffers =
     (let structure_diff = diff_trees_by_structure ptr_eq p piece_tree in
      if d_equal structure_diff then structure_diff
      else
        (let total_changed_bytes = sum_list (map (\<lambda>(s, e). e - s) (byte_ranges structure_diff)) in
         if total_changed_bytes \<le> MAX_VERIFY_BYTES \<and> byte_ranges structure_diff \<noteq> []
         then (if verify_content_differs_in_ranges p (byte_ranges structure_diff) piece_tree buffers
               then structure_diff
               else \<lparr>d_equal = True, byte_ranges = [],
                     nodes_visited = nodes_visited structure_diff\<rparr>)
         else structure_diff))"

definition diff_since_saved ::
  "(PieceTreeNode \<Rightarrow> PieceTreeNode \<Rightarrow> bool) \<Rightarrow> Persistence \<Rightarrow> PieceTree \<Rightarrow> StringBuffer list
   \<Rightarrow> 64 word \<Rightarrow> PieceTreeDiff \<times> Persistence" where
  "diff_since_saved ptr_eq p piece_tree buffers content_version =
     (let no_change = \<lparr>d_equal = True, byte_ranges = [], nodes_visited = 0\<rparr>;
          computed = (let result = diff_since_saved_uncached ptr_eq p piece_tree buffers
                      in (result, p\<lparr>p_saved_diff_memo :=
                                     Some (content_version, p_save_state_version p, result)\<rparr>)) in
      if \<not> p_modified p then (no_change, p)
      else if ptr_eq (p_saved_root p) (root piece_tree) then (no_change, p)
      else (case p_saved_diff_memo p of
              Some (cv, ssv, diff) \<Rightarrow>
                (if cv = content_version \<and> ssv = p_save_state_version p then (diff, p) else computed)
            | None \<Rightarrow> computed))"

subsection \<open>Loading a chunk keeps the saved text\<close>

text \<open>
  The new buffer holds the bytes of the old buffer from \<open>chunk_start\<close> on, for \<open>chunk_bytes\<close> bytes.
\<close>

definition chunk_of ::
  "(string \<Rightarrow> byte list) \<Rightarrow> StringBuffer list \<Rightarrow> nat \<Rightarrow> nat \<Rightarrow> nat \<Rightarrow> nat \<Rightarrow> bool" where
  "chunk_of files bufs old_id chunk_start chunk_bytes new_id \<longleftrightarrow>
     old_id < length bufs \<and> new_id < length bufs \<and>
     buffer_bytes files (bufs ! new_id) =
       take chunk_bytes (drop chunk_start (buffer_bytes files (bufs ! old_id)))"

lemma chunk_of_text:
  assumes "chunk_of f bufs old cs cn new" "buffer_id l = old" "o' + m \<le> cn"
  shows "piece_text f bufs (Added new) o' m = piece_text f bufs l (cs + o') m"
  using assms
  by (simp add: chunk_of_def piece_text_def slice_get_def drop_take add.commute min_def)

lemma piece_ok_None: "piece_ok f b l off n None \<longleftrightarrow> length (piece_text f b l off n) = n"
  by (simp add: piece_ok_def)

lemma chunk_load_leaf_correct:
  assumes ch: "chunk_of f bufs old cs cn new" and ok: "ld_ok f bufs leaf"
  shows "leaves_text f bufs (chunk_load_leaf old cs cn new leaf) = ld_text f bufs leaf \<and>
         list_all (ld_ok f bufs) (chunk_load_leaf old cs cn new leaf)"
proof (cases "chunk_overlaps old cs cn leaf")
  case False
  then show ?thesis using ok by (simp add: chunk_load_leaf_def)
next
  case True
  define l where "l = ld_location leaf"
  define a where "a = ld_offset leaf"
  define n where "n = ld_bytes leaf"
  define s where "s = max cs a"
  define e where "e = min (cs + cn) (a + n)"
  have id: "buffer_id l = old" and lt: "cs < a + n" "a < cs + cn"
    using True by (auto simp: chunk_overlaps_def l_def a_def n_def)
  have len: "length (piece_text f bufs l a n) = n"
    using ok by (simp add: ld_ok_def piece_ok_def l_def a_def n_def)
  have se: "a \<le> s" "s \<le> e" "e \<le> a + n" "cs \<le> s" "e \<le> cs + cn"
    using lt ok by (auto simp: s_def e_def)
  have mid: "piece_text f bufs (Added new) (s - cs) (e - s) = piece_text f bufs l s (e - s)"
    using chunk_of_text[OF ch id, of "s - cs" "e - s"] se by simp
  have parts: "piece_text f bufs l a n =
      piece_text f bufs l a (s - a) @ piece_text f bufs l s (e - s) @ piece_text f bufs l e (a + n - e)"
    using piece_text_split[of "s - a" n f bufs l a] piece_text_split[of "e - s" "n - (s - a)" f bufs l s] se
    by (simp add: add.commute)
  have le: "length (piece_text f bufs l off m) \<le> m" for off m
    by (simp add: piece_text_def split: option.splits)
  have lens: "length (piece_text f bufs l a (s - a)) = s - a"
    "length (piece_text f bufs l s (e - s)) = e - s" "length (piece_text f bufs l e (a + n - e)) = a + n - e"
    using len[unfolded parts length_append] se le[of a "s - a"] le[of s "e - s"] le[of e "a + n - e"]
    by linarith+
  have pre: "(if cs > a then [LeafData_new l a (cs - a) None] else []) =
      (if s > a then [LeafData_new l a (s - a) None] else [])" by (simp add: s_def)
  have suf: "(if cs + cn < a + n then [LeafData_new l (cs + cn) (a + n - (cs + cn)) None] else []) =
      (if e < a + n then [LeafData_new l e (a + n - e) None] else [])" by (simp add: e_def)
  have "chunk_load_leaf old cs cn new leaf =
      (if s > a then [LeafData_new l a (s - a) None] else []) @
      [LeafData_new (Added new) (s - cs) (e - s) None] @
      (if e < a + n then [LeafData_new l e (a + n - e) None] else [])"
    using True unfolding chunk_load_leaf_def Let_def pre[symmetric] suf[symmetric]
    by (simp add: l_def a_def n_def s_def e_def)
  moreover have "ld_text f bufs leaf = piece_text f bufs l a n"
    by (simp add: ld_text_def l_def a_def n_def)
  ultimately show ?thesis using parts lens mid se by (auto simp: piece_ok_None)
qed

lemma apply_chunk_load_correct:
  assumes "chunk_of f bufs old cs cn new" "node_ok f bufs (p_saved_root p)"
  defines "p' \<equiv> apply_chunk_load_to_saved_root p old cs cn new"
  shows "node_text f bufs (p_saved_root p') = node_text f bufs (p_saved_root p)"
    "node_ok f bufs (p_saved_root p')" "p_modified p' = p_modified p"
proof -
  let ?lds = "node_leaves (p_saved_root p)"
  let ?new = "concat (map (chunk_load_leaf old cs cn new) ?lds)"
  have "list_all (ld_ok f bufs) lds \<Longrightarrow>
      leaves_text f bufs (concat (map (chunk_load_leaf old cs cn new) lds)) = leaves_text f bufs lds \<and>
      list_all (ld_ok f bufs) (concat (map (chunk_load_leaf old cs cn new) lds))" for lds
    by (induction lds) (simp_all add: chunk_load_leaf_correct[OF assms(1)])
  then have new: "leaves_text f bufs ?new = leaves_text f bufs ?lds" "list_all (ld_ok f bufs) ?new"
    using assms(2) by (simp_all add: node_ok_def)
  have "p' = p \<or> p' = bump_save_state (p\<lparr>p_saved_root := build_balanced ?new\<rparr>)"
    by (simp add: p'_def apply_chunk_load_to_saved_root_def from_leaves_def Let_def)
  then show "node_text f bufs (p_saved_root p') = node_text f bufs (p_saved_root p)"
    "node_ok f bufs (p_saved_root p')" "p_modified p' = p_modified p"
    using new assms(2) build_balanced_ok[OF new(2)]
    by (auto simp: bump_save_state_def node_text_def[of _ _ "p_saved_root p"])
qed

end
