(* ===== verification/Bulk_Edit.thy ===== *)
theory Bulk_Edit
  imports Piece_Edit "HOL-Library.Product_Lexorder"
begin

text \<open>
  \<open>PieceTree::apply_bulk_edits\<close> (\<open>model/piece_tree.rs\<close>): many edits, sorted descending by
  position, in one traversal and one rebuild. The leaves are split at every boundary of an edit,
  the insertions are placed before the leaf they precede and the leaves inside a deletion are
  dropped. The main fact is that this gives the text that applying the edits one at a time gives.

  An index that only moves in one direction is the list of what it has still to visit:
  \<open>edit_idx\<close>, which counts down through \<open>edit_ranges\<close>, is the reversed list of the ranges not
  yet used, and \<open>delete_idx\<close> is the list of the delete ranges not yet passed. The closure
  \<open>add_text_fn\<close> is a state-passing function that may panic.
\<close>

type_synonym edit = "nat \<times> nat \<times> byte list"
type_synonym edit_range = "nat \<times> nat \<times> LeafData option"
type_synonym 's add_text =
  "'s \<Rightarrow> byte list \<Rightarrow> ((BufferLocation \<times> nat \<times> nat \<times> nat option) \<times> 's) option"

subsection \<open>Splitting at many points\<close>

fun split_piece ::
  "StringBuffer list \<Rightarrow> BufferLocation \<Rightarrow> nat \<Rightarrow> nat \<Rightarrow> nat \<Rightarrow> nat list \<Rightarrow> LeafData list
   \<Rightarrow> LeafData list option" where
  "split_piece buffers location offset bytes prev_offset (split_offset # split_offsets) leaves =
     (if split_offset > prev_offset then do {
        let chunk_bytes = split_offset - prev_offset;
        lf_cnt \<leftarrow> compute_line_feeds_static buffers location (offset + prev_offset) chunk_bytes;
        split_piece buffers location offset bytes split_offset split_offsets
          (leaves @ [LeafData_new location (offset + prev_offset) chunk_bytes lf_cnt])
      }
      else split_piece buffers location offset bytes split_offset split_offsets leaves)"
| "split_piece buffers location offset bytes prev_offset [] leaves =
     (if prev_offset < bytes then do {
        let remaining = bytes - prev_offset;
        lf_cnt \<leftarrow> compute_line_feeds_static buffers location (offset + prev_offset) remaining;
        Some (leaves @ [LeafData_new location (offset + prev_offset) remaining lf_cnt])
      }
      else Some leaves)"

fun collect_leaves_with_multi_split ::
  "PieceTreeNode \<Rightarrow> nat \<Rightarrow> nat list \<Rightarrow> LeafData list \<Rightarrow> StringBuffer list
   \<Rightarrow> LeafData list option" where
  "collect_leaves_with_multi_split (Internal left_bytes _ left right)
       current_offset split_points leaves buffers = do {
     leaves1 \<leftarrow> collect_leaves_with_multi_split left current_offset split_points leaves buffers;
     collect_leaves_with_multi_split right (current_offset + left_bytes) split_points leaves1 buffers
   }"
| "collect_leaves_with_multi_split (Leaf location offset bytes line_feed_cnt)
       current_offset split_points leaves buffers =
     (if bytes = 0 then Some leaves
      else do {
        let piece_start = current_offset;
        let piece_end = current_offset + bytes;
        let first = partition_point (\<lambda>sp. sp \<le> piece_start) split_points;
        let past = partition_point (\<lambda>sp. sp < piece_end) split_points;
        inside \<leftarrow> index_range split_points first past;
        let split_offsets = map (\<lambda>sp. sp - piece_start) inside;
        if split_offsets = []
        then Some (leaves @ [LeafData_new location offset bytes line_feed_cnt])
        else split_piece buffers location offset bytes 0 split_offsets leaves
      })"

subsection \<open>The edits\<close>

definition edit_split_points :: "nat \<Rightarrow> edit list \<Rightarrow> nat list" where
  "edit_split_points total_bytes edits =
     remdups_adj (sort (concat (map (\<lambda>(pos, del_len, _).
       pos # (let fin = min (pos + del_len) total_bytes in
              if del_len > 0 \<and> fin > pos then [fin] else [])) edits)))"

fun build_edit_ranges ::
  "'s add_text \<Rightarrow> 's \<Rightarrow> nat \<Rightarrow> edit list \<Rightarrow> (edit_range list \<times> 's) option" where
  "build_edit_ranges add_text_fn st total_bytes [] = Some ([], st)"
| "build_edit_ranges add_text_fn st total_bytes ((pos, del_len, s) # edits) = do {
     let del_end = min (pos + del_len) total_bytes;
     (insert_leaf, st1) \<leftarrow>
       (if s \<noteq> [] then do {
          ((location, offset, bytes, lf_cnt), st1) \<leftarrow> add_text_fn st s;
          Some (Some (LeafData_new location offset bytes lf_cnt), st1)
        }
        else Some (None, st));
     (ranges, st2) \<leftarrow> build_edit_ranges add_text_fn st1 total_bytes edits;
     Some ((pos, del_end, insert_leaf) # ranges, st2)
   }"

text \<open>The merge of the sorted delete ranges, the last merged range first.\<close>

definition merge_range :: "(nat \<times> nat) list \<Rightarrow> nat \<times> nat \<Rightarrow> (nat \<times> nat) list" where
  "merge_range merged r =
     (case merged of
        (a, b) # rest \<Rightarrow> if fst r \<le> b then (a, max b (snd r)) # rest else r # merged
      | [] \<Rightarrow> [r])"

definition merged_deletes :: "edit_range list \<Rightarrow> (nat \<times> nat) list" where
  "merged_deletes edit_ranges =
     (let sorted_deletes = sort (map (\<lambda>(start, fin, _). (start, fin))
                                   (filter (\<lambda>(start, fin, _). fin > start) edit_ranges))
      in rev (foldl merge_range [] sorted_deletes))"

fun push_inserts ::
  "nat \<Rightarrow> edit_range list \<Rightarrow> LeafData list \<Rightarrow> edit_range list \<times> LeafData list" where
  "push_inserts leaf_start [] new_leaves = ([], new_leaves)"
| "push_inserts leaf_start ((edit_start, edit_end, insert_leaf) # pending) new_leaves =
     (if edit_start > leaf_start then ((edit_start, edit_end, insert_leaf) # pending, new_leaves)
      else push_inserts leaf_start pending
             (case insert_leaf of Some ins \<Rightarrow> new_leaves @ [ins] | None \<Rightarrow> new_leaves))"

fun push_remaining :: "edit_range list \<Rightarrow> LeafData list \<Rightarrow> LeafData list" where
  "push_remaining [] new_leaves = new_leaves"
| "push_remaining ((_, _, insert_leaf) # pending) new_leaves =
     push_remaining pending
       (case insert_leaf of Some ins \<Rightarrow> new_leaves @ [ins] | None \<Rightarrow> new_leaves)"

fun apply_to_leaves ::
  "nat \<Rightarrow> LeafData list \<Rightarrow> edit_range list \<Rightarrow> (nat \<times> nat) list \<Rightarrow> LeafData list \<Rightarrow> LeafData list"
  where
  "apply_to_leaves current_offset [] pending delete_ranges new_leaves =
     push_remaining pending new_leaves"
| "apply_to_leaves current_offset (leaf # leaves) pending delete_ranges new_leaves =
     (let leaf_start = current_offset;
          leaf_end = current_offset + ld_bytes leaf;
          (pending1, new_leaves1) = push_inserts leaf_start pending new_leaves;
          delete_ranges1 = dropWhile (\<lambda>r. snd r \<le> leaf_start) delete_ranges;
          keep_leaf = (case delete_ranges1 of
                         (del_start, del_end) # _ \<Rightarrow>
                           \<not> (leaf_start \<ge> del_start \<and> leaf_end \<le> del_end)
                       | [] \<Rightarrow> True);
          new_leaves2 = (if keep_leaf then new_leaves1 @ [leaf] else new_leaves1)
      in apply_to_leaves leaf_end leaves pending1 delete_ranges1 new_leaves2)"

definition pt_apply_bulk_edits ::
  "PieceTree \<Rightarrow> edit list \<Rightarrow> StringBuffer list \<Rightarrow> 's add_text \<Rightarrow> 's \<Rightarrow> (PieceTree \<times> 's \<times> int) option"
  where
  "pt_apply_bulk_edits t edits buffers add_text_fn st =
     (if edits = [] then Some (t, st, 0)
      else do {
        let split_points = edit_split_points (pt_total_bytes t) edits;
        leaves \<leftarrow> collect_leaves_with_multi_split (root t) 0 split_points [] buffers;
        (edit_ranges, st1) \<leftarrow> build_edit_ranges add_text_fn st (pt_total_bytes t) edits;
        let new_leaves =
          apply_to_leaves 0 leaves (rev edit_ranges) (merged_deletes edit_ranges) [];
        let old_bytes = pt_total_bytes t;
        let new_bytes = sum_list (map ld_bytes new_leaves);
        let delta = int new_bytes - int old_bytes;
        Some (\<lparr>root = build_balanced new_leaves, pt_total_bytes = new_bytes\<rparr>, st1, delta)
      })"

subsection \<open>Splitting keeps the text and aligns the leaves\<close>

fun aligned :: "nat \<Rightarrow> LeafData list \<Rightarrow> nat set \<Rightarrow> bool" where
  "aligned off [] P \<longleftrightarrow> True"
| "aligned off (ld # lds) P \<longleftrightarrow>
     0 < ld_bytes ld \<and> (\<forall>p\<in>P. p \<le> off \<or> off + ld_bytes ld \<le> p) \<and>
     aligned (off + ld_bytes ld) lds P"

lemma aligned_append:
  "aligned off (xs @ ys) P \<longleftrightarrow>
     aligned off xs P \<and> aligned (off + sum_list (map ld_bytes xs)) ys P"
  by (induction xs arbitrary: off) (auto simp: add.assoc)

lemma aligned_mono: "aligned off xs A \<Longrightarrow> B \<subseteq> A \<Longrightarrow> aligned off xs B"
  by (induction xs arbitrary: off) auto

lemma split_piece_correct:
  assumes "piece_ok f b loc off n lf" "sorted_wrt (<) (prev # sps)" "\<forall>s\<in>set sps. s < n" "prev < n"
  shows "\<exists>lds. split_piece b loc off n prev sps acc = Some (acc @ lds) \<and>
           list_all (ld_ok f b) lds \<and> leaves_text f b lds = piece_text f b loc (off + prev) (n - prev) \<and>
           sum_list (map ld_bytes lds) = n - prev \<and>
           aligned (cur + prev) lds ((\<lambda>s. cur + s) ` set sps \<union> {p. p \<le> cur + prev \<or> cur + n \<le> p})"
  using assms(2-)
proof (induction sps arbitrary: prev acc)
  case Nil
  then obtain lf' where "compute_line_feeds_static b loc (off + prev) (n - prev) = Some lf'"
    "piece_ok f b loc (off + prev) (n - prev) lf'"
    using compute_line_feeds_suffix[OF assms(1)] by auto
  then show ?case using Nil by auto
next
  case (Cons s sps)
  then have s: "prev < s" "s < n" by auto
  obtain lf' where lf': "compute_line_feeds_static b loc (off + prev) (s - prev) = Some lf'"
    "piece_ok f b loc (off + prev) (s - prev) lf'"
    using compute_line_feeds_ok[OF assms(1), of prev "s - prev"] s by auto
  let ?ld = "LeafData_new loc (off + prev) (s - prev) lf'"
  obtain lds where lds: "split_piece b loc off n s sps (acc @ [?ld]) = Some ((acc @ [?ld]) @ lds)"
    "list_all (ld_ok f b) lds" "leaves_text f b lds = piece_text f b loc (off + s) (n - s)"
    "sum_list (map ld_bytes lds) = n - s"
    "aligned (cur + s) lds ((\<lambda>s. cur + s) ` set sps \<union> {p. p \<le> cur + s \<or> cur + n \<le> p})"
    using Cons.IH[of s "acc @ [?ld]"] Cons.prems by auto
  have tx: "piece_text f b loc (off + prev) (n - prev) =
      piece_text f b loc (off + prev) (s - prev) @ piece_text f b loc (off + s) (n - s)"
    using piece_text_split[of "s - prev" "n - prev" f b loc "off + prev"] s by simp
  have mono: "\<forall>x\<in>set sps. s < x" using Cons.prems(1) by auto
  show ?case
    by (rule exI[of _ "?ld # lds"])
      (use lds lf' s tx mono in \<open>auto simp: less_imp_le intro!: aligned_mono[OF lds(5)]\<close>)
qed

lemma sorted_window:
  fixes sps :: "nat list"
  assumes "sorted_wrt (<) sps" "a < e"
  shows "index_range sps (partition_point (\<lambda>sp. sp \<le> a) sps) (partition_point (\<lambda>sp. sp < e) sps) =
           Some (filter (\<lambda>p. a < p \<and> p < e) sps)"
proof -
  have win: "drop (length (takeWhile (\<lambda>sp. sp \<le> a) sps)) (takeWhile (\<lambda>sp. sp < e) sps) =
      filter (\<lambda>p. a < p \<and> p < e) sps" using assms(1)
  proof (induction sps)
    case (Cons x xs)
    have "takeWhile (\<lambda>sp. sp < e) xs = filter (\<lambda>p. a < p \<and> p < e) xs" if "a < x"
      using that Cons.prems by (induction xs) (auto simp: empty_filter_conv)
    moreover have "filter (\<lambda>p. a < p \<and> p < e) xs = []" if "\<not> x < e"
      using that Cons.prems by (auto simp: filter_empty_conv)
    ultimately show ?case using Cons assms(2) by auto
  qed simp
  have "length (takeWhile (\<lambda>sp. sp \<le> a) sps) \<le> length (takeWhile (\<lambda>sp. sp < e) sps)"
    using assms(2) by (induction sps) auto
  moreover have "take (length (takeWhile (\<lambda>sp. sp < e) sps)) sps = takeWhile (\<lambda>sp. sp < e) sps"
    by (metis takeWhile_eq_take)
  ultimately show ?thesis using win
    by (simp add: index_range_def partition_point_def drop_take[symmetric] length_takeWhile_le)
qed

lemma multi_split_leaf:
  assumes "piece_ok f b loc off n lf" "sorted_wrt (<) sps"
  shows "\<exists>lds. collect_leaves_with_multi_split (Leaf loc off n lf) cur sps acc b = Some (acc @ lds) \<and>
           list_all (ld_ok f b) lds \<and> leaves_text f b lds = piece_text f b loc off n \<and>
           sum_list (map ld_bytes lds) = n \<and> aligned cur lds (set sps)"
proof (cases "n = 0")
  case False
  let ?ins = "filter (\<lambda>p. cur < p \<and> p < cur + n) sps"
  let ?offs = "map (\<lambda>sp. sp - cur) ?ins"
  have win: "index_range sps (partition_point (\<lambda>sp. sp \<le> cur) sps)
      (partition_point (\<lambda>sp. sp < cur + n) sps) = Some ?ins"
    using sorted_window[OF assms(2), of cur "cur + n"] False by simp
  show ?thesis
  proof (cases "?ins = []")
    case True
    then have "\<forall>p\<in>set sps. p \<le> cur \<or> cur + n \<le> p" by (auto simp: filter_empty_conv)
    then show ?thesis using win True False assms(1) by (auto simp: Let_def)
  next
    case ne: False
    have "sorted_wrt (<) ?ins" using assms(2) by (rule sorted_wrt_filter)
    then have "sorted_wrt (<) ?offs"
      unfolding sorted_wrt_map by (rule sorted_wrt_mono_rel[rotated]) auto
    then have "sorted_wrt (<) (0 # ?offs)" "\<forall>s\<in>set ?offs. s < n" using False by auto
    then obtain lds where lds: "split_piece b loc off n 0 ?offs acc = Some (acc @ lds)"
      "list_all (ld_ok f b) lds" "leaves_text f b lds = piece_text f b loc off n"
      "sum_list (map ld_bytes lds) = n"
      "aligned cur lds ((\<lambda>s. cur + s) ` set ?offs \<union> {p. p \<le> cur \<or> cur + n \<le> p})"
      using split_piece_correct[OF assms(1), of 0 ?offs acc cur] False by auto
    have "set sps \<subseteq> (\<lambda>s. cur + s) ` set ?offs \<union> {p. p \<le> cur \<or> cur + n \<le> p}" by force
    then show ?thesis using lds(1-4) aligned_mono[OF lds(5)] win ne False by (auto simp: Let_def)
  qed
qed simp

lemma multi_split_correct:
  assumes "node_ok f b n" "sorted_wrt (<) sps"
  shows "\<exists>lds. collect_leaves_with_multi_split n cur sps acc b = Some (acc @ lds) \<and>
           list_all (ld_ok f b) lds \<and> leaves_text f b lds = node_text f b n \<and>
           sum_list (map ld_bytes lds) = node_total_bytes n \<and> aligned cur lds (set sps)"
  using assms(1)
proof (induction n arbitrary: cur acc)
  case (Internal lb lf l r)
  obtain xs where xs: "collect_leaves_with_multi_split l cur sps acc b = Some (acc @ xs)"
    "list_all (ld_ok f b) xs" "leaves_text f b xs = node_text f b l"
    "sum_list (map ld_bytes xs) = node_total_bytes l" "aligned cur xs (set sps)"
    using Internal.IH(1)[of cur acc] Internal.prems by auto
  obtain ys where ys:
    "collect_leaves_with_multi_split r (cur + lb) sps (acc @ xs) b = Some ((acc @ xs) @ ys)"
    "list_all (ld_ok f b) ys" "leaves_text f b ys = node_text f b r"
    "sum_list (map ld_bytes ys) = node_total_bytes r" "aligned (cur + lb) ys (set sps)"
    using Internal.IH(2)[of "cur + lb" "acc @ xs"] Internal.prems by auto
  have "lb = node_total_bytes l" using Internal.prems by simp
  then show ?case using xs ys by (intro exI[of _ "xs @ ys"]) (simp add: aligned_append)
next
  case (Leaf loc off n lf)
  then show ?case using multi_split_leaf[of f b loc off n lf sps cur acc] assms(2)
    by (simp del: collect_leaves_with_multi_split.simps)
qed

subsection \<open>Merged delete ranges\<close>

definition covered :: "(nat \<times> nat) list \<Rightarrow> nat \<Rightarrow> bool" where
  "covered rs x \<longleftrightarrow> (\<exists>(a, b)\<in>set rs. a \<le> x \<and> x < b)"

definition endpoints :: "(nat \<times> nat) list \<Rightarrow> nat set" where
  "endpoints rs = fst ` set rs \<union> snd ` set rs"

definition separated :: "(nat \<times> nat) list \<Rightarrow> bool" where
  "separated rs \<longleftrightarrow> sorted_wrt (\<lambda>r r'. snd r < fst r') rs \<and> (\<forall>r\<in>set rs. fst r < snd r)"

lemma separated_rev_merge:
  assumes "separated (rev acc)" "\<forall>a\<in>set acc. fst a \<le> fst r" "fst r < snd r"
  shows "separated (rev (merge_range acc r))" "\<forall>a\<in>set (merge_range acc r). fst a \<le> fst r"
    "covered (merge_range acc r) x \<longleftrightarrow> covered (r # acc) x"
    "endpoints (merge_range acc r) \<subseteq> endpoints (r # acc)"
proof -
  have "separated (rev (merge_range acc r)) \<and> (\<forall>a\<in>set (merge_range acc r). fst a \<le> fst r) \<and>
    (covered (merge_range acc r) x \<longleftrightarrow> covered (r # acc) x) \<and>
    endpoints (merge_range acc r) \<subseteq> endpoints (r # acc)"
  proof (cases acc)
    case Nil
    then show ?thesis using assms by (simp add: merge_range_def separated_def)
  next
    case (Cons p rest)
    obtain a b where p: "p = (a, b)" by force
    obtain s e where r: "r = (s, e)" by force
    show ?thesis
    proof (cases "s \<le> b")
      case True
      then have m: "merge_range acc r = (a, max b e) # rest" using Cons p r by (simp add: merge_range_def)
      have "a \<le> s" "a < b" using assms Cons p r by (auto simp: separated_def)
      then show ?thesis using assms True unfolding m
        by (auto simp: Cons p r separated_def sorted_wrt_append covered_def endpoints_def max_def)
    next
      case False
      then have m: "merge_range acc r = r # acc" using Cons p r by (simp add: merge_range_def)
      have "\<forall>q\<in>set acc. snd q \<le> b"
        using assms(1) by (fastforce simp: Cons p separated_def sorted_wrt_append)
      then show ?thesis using assms False r unfolding m
        by (fastforce simp: separated_def sorted_wrt_append)
    qed
  qed
  then show "separated (rev (merge_range acc r))" "\<forall>a\<in>set (merge_range acc r). fst a \<le> fst r"
    "covered (merge_range acc r) x \<longleftrightarrow> covered (r # acc) x"
    "endpoints (merge_range acc r) \<subseteq> endpoints (r # acc)" by blast+
qed

lemma foldl_merge_range:
  assumes "sorted (map fst rs)" "\<forall>r\<in>set rs. fst r < snd r" "separated (rev acc)"
    "\<forall>a\<in>set acc. \<forall>r\<in>set rs. fst a \<le> fst r"
  shows "separated (rev (foldl merge_range acc rs)) \<and>
         (covered (foldl merge_range acc rs) x \<longleftrightarrow> covered (rs @ acc) x) \<and>
         endpoints (foldl merge_range acc rs) \<subseteq> endpoints (rs @ acc)"
  using assms
proof (induction rs arbitrary: acc)
  case (Cons r rs)
  have hyp: "separated (rev acc)" "\<forall>a\<in>set acc. fst a \<le> fst r" "fst r < snd r" using Cons.prems by auto
  note m = separated_rev_merge[OF hyp]
  have "\<forall>a\<in>set (merge_range acc r). \<forall>q\<in>set rs. fst a \<le> fst q"
    using m(2) Cons.prems(1) by (auto intro: order_trans)
  then have IH: "separated (rev (foldl merge_range (merge_range acc r) rs)) \<and>
      (covered (foldl merge_range (merge_range acc r) rs) x \<longleftrightarrow> covered (rs @ merge_range acc r) x) \<and>
      endpoints (foldl merge_range (merge_range acc r) rs) \<subseteq> endpoints (rs @ merge_range acc r)"
    using Cons.IH[of "merge_range acc r"] m(1) Cons.prems by simp
  have "covered (rs @ merge_range acc r) x \<longleftrightarrow> covered ((r # rs) @ acc) x"
    using m(3)[of x] unfolding covered_def set_append by (simp only: list.set bex_Un append_Cons set_append bex_simps) blast
  moreover have "endpoints (rs @ merge_range acc r) \<subseteq> endpoints ((r # rs) @ acc)"
    using m(4) unfolding endpoints_def by (simp only: list.set append_Cons set_append image_Un) blast
  ultimately show ?case using IH by (simp only: foldl_Cons) blast
qed (simp add: separated_def)

lemma merged_deletes_correct:
  "separated (merged_deletes ers)"
  "covered (merged_deletes ers) x \<longleftrightarrow> (\<exists>(s, e, _)\<in>set ers. s \<le> x \<and> x < e)"
  "endpoints (merged_deletes ers) \<subseteq> {p. \<exists>(s, e, _)\<in>set ers. s < e \<and> (p = s \<or> p = e)}"
proof -
  let ?rs = "sort (map (\<lambda>(s, e, _). (s, e)) (filter (\<lambda>(s, e, _). e > s) ers))"
  have "sorted_wrt (\<lambda>x y. fst x \<le> fst y) ?rs"
    by (rule sorted_wrt_mono_rel[OF _ sorted_sort]) (auto simp: less_eq_prod_def)
  then have mono: "sorted (map fst ?rs)" by (simp add: sorted_wrt_map)
  have "\<forall>r\<in>set ?rs. fst r < snd r" by auto
  note m = foldl_merge_range[OF mono this, of "[]"]
  have md: "merged_deletes ers = rev (foldl merge_range [] ?rs)" by (simp add: merged_deletes_def)
  have cov: "covered (rev xs) x = covered xs x" "endpoints (rev xs) = endpoints xs" for xs
    by (simp_all add: covered_def endpoints_def)
  have "separated (rev [])" by (simp add: separated_def)
  with m have m: "separated (rev (foldl merge_range [] ?rs))"
    "covered (foldl merge_range [] ?rs) x = covered ?rs x"
    "endpoints (foldl merge_range [] ?rs) \<subseteq> endpoints ?rs" by auto
  show "separated (merged_deletes ers)" unfolding md by (rule m(1))
  show "covered (merged_deletes ers) x \<longleftrightarrow> (\<exists>(s, e, _)\<in>set ers. s \<le> x \<and> x < e)"
    unfolding md cov m(2) by (force simp: covered_def)
  have "endpoints ?rs \<subseteq> {p. \<exists>(s, e, _)\<in>set ers. s < e \<and> (p = s \<or> p = e)}"
    by (force simp: endpoints_def)
  then show "endpoints (merged_deletes ers) \<subseteq> {p. \<exists>(s, e, _)\<in>set ers. s < e \<and> (p = s \<or> p = e)}"
    unfolding md cov using m(3) by (rule order_trans[rotated])
qed

lemma passed_deletes:
  fixes ls :: nat
  assumes "separated D"
  defines "D' \<equiv> dropWhile (\<lambda>r. snd r \<le> ls) D"
  shows "separated D'" "endpoints D' \<subseteq> endpoints D" "ls \<le> x \<Longrightarrow> covered D' x = covered D x"
proof -
  have D: "D = takeWhile (\<lambda>r. snd r \<le> ls) D @ D'" by (simp add: D'_def)
  have "separated (xs @ ys) \<Longrightarrow> separated ys" for xs ys
    by (auto simp: separated_def sorted_wrt_append)
  then show "separated D'" using assms(1) D by metis
  show "endpoints D' \<subseteq> endpoints D"
    using set_dropWhileD[of _ "\<lambda>r. snd r \<le> ls" D] by (auto simp: endpoints_def D'_def)
  have "covered D x \<longleftrightarrow> covered (takeWhile (\<lambda>r. snd r \<le> ls) D) x \<or> covered D' x"
    using arg_cong[OF D, of set] unfolding set_append by (simp only: covered_def) blast
  moreover have "\<not> covered (takeWhile (\<lambda>r. snd r \<le> ls) D) x" if "ls \<le> x"
    using that by (auto simp: covered_def dest!: set_takeWhileD)
  ultimately show "ls \<le> x \<Longrightarrow> covered D' x = covered D x" by blast
qed

lemma keep_leaf_correct:
  assumes "separated D" "\<forall>p\<in>endpoints D. p \<le> ls \<or> le \<le> p" "ls < le" "ls \<le> x" "x < le"
  shows "(case dropWhile (\<lambda>r. snd r \<le> ls) D of (a, b) # _ \<Rightarrow> \<not> (ls \<ge> a \<and> le \<le> b) | [] \<Rightarrow> True) \<longleftrightarrow>
           \<not> covered D x"
proof -
  let ?D = "dropWhile (\<lambda>r. snd r \<le> ls) D"
  note pd = passed_deletes[OF assms(1), of ls]
  show ?thesis
  proof (cases ?D)
    case Nil
    then have "\<not> covered ?D x" by (simp only: Nil covered_def) simp
    then show ?thesis using pd(3)[OF assms(4)] unfolding Nil by simp
  next
    case (Cons r rs)
    obtain a b where r: "r = (a, b)" by force
    have "b > ls" using Cons r hd_dropWhile[of "\<lambda>r. snd r \<le> ls" D] by auto
    moreover have "a \<in> endpoints D" "b \<in> endpoints D" using pd(2) Cons r by (auto simp: endpoints_def)
    ultimately have ab: "le \<le> b" "a \<le> ls \<or> le \<le> a" using assms(2) by auto
    have "\<forall>q\<in>set rs. b < fst q" using pd(1) Cons r by (simp add: separated_def)
    then have "covered ?D x \<longleftrightarrow> a \<le> x" using Cons r ab assms(5) by (fastforce simp: covered_def)
    then show ?thesis using pd(3)[OF assms(4)] Cons r ab assms(3-5) by auto
  qed
qed

subsection \<open>The walk over the leaves, byte by byte\<close>

text \<open>
  \<open>bytewise off xs E del\<close>: the text \<open>xs\<close>, whose first byte is at \<open>off\<close>, without the bytes
  that \<open>del\<close> deletes and with every insertion of \<open>E\<close> before the byte at its position.
\<close>

fun bytewise :: "nat \<Rightarrow> byte list \<Rightarrow> (nat \<times> nat \<times> byte list) list \<Rightarrow> (nat \<Rightarrow> bool) \<Rightarrow> byte list" where
  "bytewise off [] [] del = []"
| "bytewise off (c # xs) [] del = (if del off then [] else [c]) @ bytewise (Suc off) xs [] del"
| "bytewise off [] ((s, e, i) # E) del = i @ bytewise off [] E del"
| "bytewise off (c # xs) ((s, e, i) # E) del =
     (if s \<le> off then i @ bytewise off (c # xs) E del
      else (if del off then [] else [c]) @ bytewise (Suc off) xs ((s, e, i) # E) del)"

definition range_text ::
  "(string \<Rightarrow> byte list) \<Rightarrow> StringBuffer list \<Rightarrow> edit_range \<Rightarrow> nat \<times> nat \<times> byte list" where
  "range_text f b r =
     (case r of (s, e, ins) \<Rightarrow> (s, e, case ins of Some ld \<Rightarrow> ld_text f b ld | None \<Rightarrow> []))"

lemma range_text_simps [simp]:
  "range_text f b (s, e, None) = (s, e, [])" "range_text f b (s, e, Some ld) = (s, e, ld_text f b ld)"
  "fst (range_text f b r) = fst r"
  by (auto simp: range_text_def split: prod.splits)

lemma bytewise_block:
  assumes "\<forall>x. off \<le> x \<and> x < off + length xs \<longrightarrow> del x = d"
    "\<forall>r\<in>set E. off + length xs \<le> fst r" "xs \<noteq> []"
  shows "bytewise off (xs @ ys) E del = (if d then [] else xs) @ bytewise (off + length xs) ys E del"
  using assms
proof (induction xs arbitrary: off)
  case (Cons c xs)
  have step: "bytewise off ((c # xs) @ ys) E del =
      (if d then [] else [c]) @ bytewise (Suc off) (xs @ ys) E del"
    using Cons.prems by (cases E) auto
  show ?case
  proof (cases "xs = []")
    case True
    then show ?thesis using step by simp
  next
    case False
    have "bytewise (Suc off) (xs @ ys) E del =
        (if d then [] else xs) @ bytewise (Suc off + length xs) ys E del"
      using Cons.IH[of "Suc off"] Cons.prems False by auto
    then show ?thesis using step by simp
  qed
qed simp

lemma push_inserts_bytewise:
  assumes "push_inserts off E acc = (E', acc')" "xs \<noteq> []"
  shows "leaves_text f b acc @ bytewise off xs (map (range_text f b) E) del =
         leaves_text f b acc' @ bytewise off xs (map (range_text f b) E') del"
  using assms(1)
proof (induction off E acc rule: push_inserts.induct)
  case (2 ls s e ins pending acc)
  obtain c cs where xs: "xs = c # cs" using assms(2) by (cases xs) auto
  show ?case using 2 by (cases ins) (auto simp: xs split: if_splits)
qed simp

lemma push_inserts_rest:
  assumes "push_inserts off E acc = (E', acc')" "sorted (map fst E)"
  shows "set E' \<subseteq> set E" "sorted (map fst E')" "\<forall>r\<in>set E'. off < fst r"
  using assms
  by (induction off E acc rule: push_inserts.induct) (auto split: if_splits dest: bspec intro: less_le_trans)

lemma push_remaining_bytewise:
  "leaves_text f b (push_remaining E acc) =
     leaves_text f b acc @ bytewise off [] (map (range_text f b) E) del"
  by (induction E acc rule: push_remaining.induct) (auto split: option.splits)

lemma apply_to_leaves_text:
  assumes "aligned off lds P" "list_all (ld_ok f b) lds" "sorted (map fst E)" "fst ` set E \<subseteq> P"
    "separated D" "endpoints D \<subseteq> P" "\<forall>x\<ge>off. del x = covered D x"
  shows "leaves_text f b (apply_to_leaves off lds E D acc) =
           leaves_text f b acc @ bytewise off (leaves_text f b lds) (map (range_text f b) E) del"
  using assms
proof (induction lds arbitrary: off E D acc)
  case Nil
  then show ?case by (simp add: push_remaining_bytewise)
next
  case (Cons ld lds)
  obtain E' acc1 where pi: "push_inserts off E acc = (E', acc1)" by force
  define D' where "D' = dropWhile (\<lambda>r. snd r \<le> off) D"
  define keep where "keep = (case D' of (a, e) # _ \<Rightarrow> \<not> (off \<ge> a \<and> off + ld_bytes ld \<le> e) | [] \<Rightarrow> True)"
  define acc2 where "acc2 = (if keep then acc1 @ [ld] else acc1)"
  let ?le = "off + ld_bytes ld"
  have eq: "apply_to_leaves off (ld # lds) E D acc = apply_to_leaves ?le lds E' D' acc2"
    by (simp add: pi D'_def keep_def acc2_def)
  note rest = push_inserts_rest[OF pi Cons.prems(3)]
  note pd = passed_deletes[OF Cons.prems(5), of off, folded D'_def]
  have al: "0 < ld_bytes ld" "\<forall>p\<in>P. p \<le> off \<or> ?le \<le> p" "aligned ?le lds P"
    using Cons.prems(1) by auto
  have len: "length (ld_text f b ld) = ld_bytes ld" using Cons.prems(2) by (auto simp: ld_ok_alt)
  have ep: "\<forall>p\<in>endpoints D. p \<le> off \<or> ?le \<le> p" using Cons.prems(6) al(2) by (meson subsetD)
  have "off < ?le" using al(1) by simp
  note kl = keep_leaf_correct[OF Cons.prems(5) ep this, folded D'_def, folded keep_def]
  have keep: "del x = (\<not> keep)" if "off \<le> x" "x < ?le" for x
  proof -
    have "del x = covered D x" using Cons.prems(7) that(1) by simp
    then show ?thesis using kl[OF that] by simp
  qed
  have IH: "leaves_text f b (apply_to_leaves ?le lds E' D' acc2) =
      leaves_text f b acc2 @ bytewise ?le (leaves_text f b lds) (map (range_text f b) E') del"
  proof (rule Cons.IH)
    show "fst ` set E' \<subseteq> P" using rest(1) Cons.prems(4) by blast
    show "endpoints D' \<subseteq> P" using pd(2) Cons.prems(6) by blast
    show "\<forall>x\<ge>?le. del x = covered D' x" using pd(3) Cons.prems(7) by simp
    show "list_all (ld_ok f b) lds" using Cons.prems(2) by simp
  qed (rule al(3) rest(2) pd(1))+
  have far: "\<forall>r\<in>set (map (range_text f b) E'). ?le \<le> fst r"
  proof (simp, intro ballI)
    fix r assume r: "r \<in> set E'"
    then have "fst r \<in> P" "off < fst r" using rest(1,3) Cons.prems(4) by auto
    then show "?le \<le> fst r" using al(2) by (metis not_le)
  qed
  have ne: "ld_text f b ld \<noteq> []" using al(1) len by auto
  have "bytewise off (ld_text f b ld @ leaves_text f b lds) (map (range_text f b) E') del =
      (if \<not> keep then [] else ld_text f b ld) @
      bytewise ?le (leaves_text f b lds) (map (range_text f b) E') del"
    using bytewise_block[of off "ld_text f b ld" del "\<not> keep" "map (range_text f b) E'"
        "leaves_text f b lds"] keep far ne unfolding len by blast
  then show ?case unfolding eq IH
    using push_inserts_bytewise[OF pi, of "ld_text f b ld @ leaves_text f b lds" f b del] ne
    by (simp add: acc2_def)
qed

lemma apply_to_leaves_set:
  "set (apply_to_leaves off lds E D acc) \<subseteq>
     set acc \<union> set lds \<union> {ld. \<exists>(s, e, ins)\<in>set E. ins = Some ld}"
proof (induction lds arbitrary: off E D acc)
  case Nil
  have "set (push_remaining E acc) \<subseteq> set acc \<union> {ld. \<exists>(s, e, ins)\<in>set E. ins = Some ld}" for acc
    by (induction E acc rule: push_remaining.induct) (auto split: option.splits)
  then show ?case by simp
next
  case (Cons ld lds)
  have push: "push_inserts ls E acc = (E', acc') \<Longrightarrow> set E' \<subseteq> set E \<and>
      set acc' \<subseteq> set acc \<union> {ld. \<exists>(s, e, ins)\<in>set E. ins = Some ld}" for ls E' acc'
    by (induction ls E acc rule: push_inserts.induct) (auto split: option.splits if_splits)
  obtain E' acc' where p: "push_inserts off E acc = (E', acc')" by force
  define D' where "D' = dropWhile (\<lambda>r. snd r \<le> off) D"
  define acc2 where "acc2 = (if (case D' of (a, e) # _ \<Rightarrow> \<not> (off \<ge> a \<and> off + ld_bytes ld \<le> e)
      | [] \<Rightarrow> True) then acc' @ [ld] else acc')"
  have "apply_to_leaves off (ld # lds) E D acc = apply_to_leaves (off + ld_bytes ld) lds E' D' acc2"
    by (simp add: p D'_def acc2_def)
  moreover have "set acc2 \<subseteq> set acc' \<union> {ld}" by (simp add: acc2_def subset_insertI)
  ultimately show ?case using Cons.IH[of "off + ld_bytes ld" E' D' acc2] push[OF p] by fastforce
qed

subsection \<open>Edits one at a time\<close>

definition apply_edit :: "byte list \<Rightarrow> edit \<Rightarrow> byte list" where
  "apply_edit xs ed = (case ed of (pos, del_len, s) \<Rightarrow> take pos xs @ s @ drop (pos + del_len) xs)"

text \<open>
  Edits that are sorted descending and do not overlap: every edit ends where the one before it in
  the list starts, or earlier.
\<close>

fun edits_below :: "nat \<Rightarrow> edit list \<Rightarrow> bool" where
  "edits_below lim [] \<longleftrightarrow> True"
| "edits_below lim ((pos, del_len, s) # edits) \<longleftrightarrow> pos + del_len \<le> lim \<and> edits_below pos edits"

fun bulk_ok :: "nat \<Rightarrow> edit list \<Rightarrow> bool" where
  "bulk_ok len [] \<longleftrightarrow> True"
| "bulk_ok len ((pos, del_len, s) # edits) \<longleftrightarrow> pos \<le> len \<and> edits_below pos edits"

fun spliced :: "nat \<Rightarrow> (nat \<times> nat \<times> byte list) list \<Rightarrow> byte list \<Rightarrow> byte list" where
  "spliced off [] xs = xs"
| "spliced off ((s, e, i) # E) xs = take (s - off) xs @ i @ spliced e E (drop (e - off) xs)"

fun ranges_ok :: "nat \<Rightarrow> (nat \<times> nat \<times> byte list) list \<Rightarrow> bool" where
  "ranges_ok lo [] \<longleftrightarrow> True"
| "ranges_ok lo ((s, e, i) # E) \<longleftrightarrow> lo \<le> s \<and> s \<le> e \<and> ranges_ok e E"

lemma ranges_ok_lower: "ranges_ok lo E \<Longrightarrow> lo' \<le> lo \<Longrightarrow> ranges_ok lo' E"
  by (cases E) auto

lemma ranges_ok_starts: "ranges_ok lo E \<Longrightarrow> r \<in> set E \<Longrightarrow> lo \<le> fst r"
proof (induction lo E rule: ranges_ok.induct)
  case (2 lo s e i E)
  then show ?case by fastforce
qed simp

lemma ranges_ok_sorted: "ranges_ok lo E \<Longrightarrow> sorted (map fst E)"
proof (induction lo E rule: ranges_ok.induct)
  case (2 lo s e i E)
  then show ?case using ranges_ok_starts[of e E] by fastforce
qed simp

lemma ranges_ok_snoc:
  "ranges_ok lo E \<Longrightarrow> \<forall>r\<in>set E. fst (snd r) \<le> s \<Longrightarrow> lo \<le> s \<Longrightarrow> s \<le> e \<Longrightarrow>
     ranges_ok lo (E @ [(s, e, i)])"
  by (induction lo E rule: ranges_ok.induct) auto

lemma bytewise_Nil: "bytewise off [] E del = concat (map (snd \<circ> snd) E)"
  by (induction E) auto

lemma spliced_Nil: "spliced off E [] = concat (map (snd \<circ> snd) E)"
  by (induction E arbitrary: off) auto

lemma bytewise_spliced:
  assumes "ranges_ok (max off u) E"
    "\<forall>x\<ge>off. del x \<longleftrightarrow> x < u \<or> (\<exists>(s, e, i)\<in>set E. s \<le> x \<and> x < e)"
  shows "bytewise off xs E del = spliced (max off u) E (drop (u - off) xs)"
  using assms
proof (induction off xs E del arbitrary: u rule: bytewise.induct)
  case (2 off c xs del)
  have "bytewise (Suc off) xs [] del = spliced (max (Suc off) u) [] (drop (u - Suc off) xs)"
    using "2.IH"[of u] "2.prems" by auto
  moreover have "del off = (off < u)" using "2.prems"(2) by auto
  ultimately show ?case by (auto simp: drop_Cons')
next
  case (3 off s e i E del)
  then show ?case by (simp add: bytewise_Nil spliced_Nil)
next
  case (4 off c xs s e i E del)
  note r = "4.prems"(1)
  show ?case
  proof (cases "s \<le> off")
    case True
    then have so: "s = off" "u \<le> off" using r by auto
    have e: "max off e = e" using r so by simp
    have "bytewise off (c # xs) E del = spliced (max off e) E (drop (e - off) (c # xs))"
      by (rule "4.IH"(1)[OF True]) (use "4.prems" so e in auto)
    then show ?thesis using so e by simp
  next
    case False
    have later: "\<not> s' \<le> off" if "(s', e', i') \<in> set E" for s' e' i'
      using ranges_ok_starts[of e E "(s', e', i')"] r that False by auto
    then have d: "del off = (off < u)" using "4.prems"(2) False by force
    have "bytewise (Suc off) xs ((s, e, i) # E) del =
        spliced (max (Suc off) u) ((s, e, i) # E) (drop (u - Suc off) xs)"
      by (rule "4.IH"(2)[OF False]) (use "4.prems" False in auto)
    then show ?thesis using False d r
      by (cases "off < u") (auto simp: Cons_eq_append_conv take_Cons' drop_Cons' max_def)
  qed
qed simp

lemma spliced_snoc:
  assumes "ranges_ok lo E" "\<forall>r\<in>set E. fst (snd r) \<le> p" "lo \<le> p" "p \<le> e" "p - lo \<le> length xs"
  shows "spliced lo (E @ [(p, e, i)]) xs = spliced lo E (take (p - lo) xs @ i @ drop (e - lo) xs)"
  using assms
proof (induction lo E xs rule: spliced.induct)
  case (2 off s e0 i0 E xs)
  then have le: "off \<le> s" "s \<le> e0" "e0 \<le> p" by auto
  have cut: "take (s - off) (take (p - off) xs @ i @ drop (e - off) xs) = take (s - off) xs"
    using le "2.prems"(5) by simp
  have rest: "drop (e0 - off) (take (p - off) xs @ i @ drop (e - off) xs) =
      take (p - e0) (drop (e0 - off) xs) @ i @ drop (e - e0) (drop (e0 - off) xs)"
    using le "2.prems"(4,5) by (simp add: drop_take)
  have "spliced e0 (E @ [(p, e, i)]) (drop (e0 - off) xs) =
      spliced e0 E (take (p - e0) (drop (e0 - off) xs) @ i @ drop (e - e0) (drop (e0 - off) xs))"
    by (rule "2.IH") (use "2.prems" le in auto)
  then show ?case by (simp only: spliced.simps append_Cons cut rest)
qed simp

definition unclamped :: "edit \<Rightarrow> nat \<times> nat \<times> byte list" where
  "unclamped ed = (case ed of (pos, del_len, s) \<Rightarrow> (pos, pos + del_len, s))"

lemma unclamped_simp [simp]: "unclamped (pos, d, s) = (pos, pos + d, s)"
  by (simp add: unclamped_def)

lemma apply_edit_simp [simp]: "apply_edit xs (pos, d, s) = take pos xs @ s @ drop (pos + d) xs"
  by (simp add: apply_edit_def)

lemma edits_below_ranges:
  "edits_below lim edits \<Longrightarrow>
     ranges_ok 0 (rev (map unclamped edits)) \<and> (\<forall>r\<in>set (map unclamped edits). fst (snd r) \<le> lim)"
proof (induction lim edits rule: edits_below.induct)
  case (2 lim pos d s edits)
  then have "ranges_ok 0 (rev (map unclamped edits) @ [(pos, pos + d, s)])"
    by (intro ranges_ok_snoc) auto
  moreover have "\<forall>r\<in>set (map unclamped edits). fst (snd r) \<le> lim" "pos + d \<le> lim"
    using 2 by (auto intro: order_trans)
  ultimately show ?case by simp
qed simp

lemma spliced_sequential:
  "edits_below lim edits \<Longrightarrow> lim \<le> length xs \<Longrightarrow>
     spliced 0 (rev (map unclamped edits)) xs = foldl apply_edit xs edits"
proof (induction lim edits arbitrary: xs rule: edits_below.induct)
  case (2 lim pos d s edits)
  let ?ys = "take pos xs @ s @ drop (pos + d) xs"
  have "spliced 0 (rev (map unclamped edits) @ [(pos, pos + d, s)]) xs =
      spliced 0 (rev (map unclamped edits)) ?ys"
    using spliced_snoc[of 0 "rev (map unclamped edits)" pos "pos + d" xs s]
      edits_below_ranges[of pos edits] "2.prems" by simp
  also have "\<dots> = foldl apply_edit ?ys edits"
    by (rule "2.IH") (use "2.prems" in auto)
  finally show ?case by simp
qed simp

definition clamped :: "nat \<Rightarrow> edit \<Rightarrow> nat \<times> nat \<times> byte list" where
  "clamped len ed = (case ed of (pos, del_len, s) \<Rightarrow> (pos, min (pos + del_len) len, s))"

lemma clamped_simp: "clamped len (pos, d, s) = (pos, min (pos + d) len, s)"
  by (simp add: clamped_def)

lemma clamped_below:
  "edits_below lim edits \<Longrightarrow> lim \<le> len \<Longrightarrow> map (clamped len) edits = map unclamped edits"
  by (induction lim edits rule: edits_below.induct) (auto simp: clamped_def unclamped_def)

lemma bulk_ranges:
  assumes "bulk_ok (length xs) edits"
  shows "ranges_ok 0 (rev (map (clamped (length xs)) edits))"
    "spliced 0 (rev (map (clamped (length xs)) edits)) xs = foldl apply_edit xs edits"
proof -
  have "ranges_ok 0 (rev (map (clamped (length xs)) edits)) \<and>
    spliced 0 (rev (map (clamped (length xs)) edits)) xs = foldl apply_edit xs edits"
  proof (cases edits)
    case (Cons ed es)
    obtain pos d s where ed: "ed = (pos, d, s)" by (metis prod_cases3)
    have pos: "pos \<le> length xs" and below: "edits_below pos es" using assms Cons ed by auto
    note er = edits_below_ranges[OF below]
    let ?e = "min (pos + d) (length xs)" and ?ys = "take pos xs @ s @ drop (pos + d) xs"
    have C: "rev (map (clamped (length xs)) edits) = rev (map unclamped es) @ [(pos, ?e, s)]"
      using Cons ed clamped_below[OF below pos] by (simp add: clamped_def)
    have "drop ?e xs = drop (pos + d) xs" by (simp add: min_def)
    then have "spliced 0 (rev (map (clamped (length xs)) edits)) xs = spliced 0 (rev (map unclamped es)) ?ys"
      unfolding C using spliced_snoc[of 0 "rev (map unclamped es)" pos ?e xs s] er pos by simp
    moreover have "\<dots> = foldl apply_edit ?ys es"
      using spliced_sequential[OF below, of ?ys] pos by simp
    moreover have "ranges_ok 0 (rev (map (clamped (length xs)) edits))"
      unfolding C by (rule ranges_ok_snoc) (use er pos in auto)
    ultimately show ?thesis using Cons ed by simp
  qed simp
  then show "ranges_ok 0 (rev (map (clamped (length xs)) edits))"
    "spliced 0 (rev (map (clamped (length xs)) edits)) xs = foldl apply_edit xs edits" by auto
qed

subsection \<open>A bulk edit is the sequence of its edits\<close>

text \<open>The contract of \<open>add_text_fn\<close>: each call returns a piece of the buffers with the text.\<close>

fun adds_text ::
  "(string \<Rightarrow> byte list) \<Rightarrow> StringBuffer list \<Rightarrow> 's add_text \<Rightarrow> 's \<Rightarrow> edit list \<Rightarrow> bool" where
  "adds_text f b add_text_fn st [] \<longleftrightarrow> True"
| "adds_text f b add_text_fn st ((pos, del_len, s) # edits) \<longleftrightarrow>
     (if s = [] then adds_text f b add_text_fn st edits
      else case add_text_fn st s of
        None \<Rightarrow> False
      | Some ((location, offset, bytes, lf), st1) \<Rightarrow>
          piece_ok f b location offset bytes lf \<and> piece_text f b location offset bytes = s \<and>
          adds_text f b add_text_fn st1 edits)"

lemma build_edit_ranges_correct:
  assumes "adds_text f b add st edits"
  shows "\<exists>ers st'. build_edit_ranges add st len edits = Some (ers, st') \<and>
           map (range_text f b) ers = map (clamped len) edits \<and>
           (\<forall>(s, e, ins)\<in>set ers. \<forall>ld. ins = Some ld \<longrightarrow> ld_ok f b ld)"
  using assms
proof (induction edits arbitrary: st)
  case (Cons ed edits)
  obtain pos d s where ed: "ed = (pos, d, s)" by (metis prod_cases3)
  show ?case
  proof (cases "s = []")
    case True
    then obtain ers st' where "build_edit_ranges add st len edits = Some (ers, st')"
      "map (range_text f b) ers = map (clamped len) edits"
      "\<forall>(s, e, ins)\<in>set ers. \<forall>ld. ins = Some ld \<longrightarrow> ld_ok f b ld"
      using Cons.IH[of st] Cons.prems ed by auto
    then show ?thesis using True by (simp add: ed clamped_simp)
  next
    case False
    then obtain loc off n lf st1 where a: "add st s = Some ((loc, off, n, lf), st1)"
      "piece_ok f b loc off n lf" "piece_text f b loc off n = s" "adds_text f b add st1 edits"
      using Cons.prems ed by (auto split: option.splits)
    obtain ers st' where "build_edit_ranges add st1 len edits = Some (ers, st')"
      "map (range_text f b) ers = map (clamped len) edits"
      "\<forall>(s, e, ins)\<in>set ers. \<forall>ld. ins = Some ld \<longrightarrow> ld_ok f b ld"
      using Cons.IH[OF a(4)] by blast
    then show ?thesis using False a(1-3) by (simp add: ed clamped_simp)
  qed
qed simp

lemma strict_sorted_remdups_adj:
  fixes xs :: "nat list"
  shows "sorted xs \<Longrightarrow> sorted_wrt (<) (remdups_adj xs)"
proof (induction xs rule: remdups_adj.induct)
  case (3 x y xs)
  show ?case
  proof (cases "x = y")
    case False
    then have "\<forall>z\<in>set (y # xs). x < z" using 3 by fastforce
    then show ?thesis using 3 False by simp
  qed (use 3 in simp)
qed simp_all

lemma edit_split_points_correct:
  "sorted_wrt (<) (edit_split_points len edits)"
  "(pos, d, s) \<in> set edits \<Longrightarrow> pos \<in> set (edit_split_points len edits)"
  "(pos, d, s) \<in> set edits \<Longrightarrow> pos < min (pos + d) len \<Longrightarrow>
     min (pos + d) len \<in> set (edit_split_points len edits)"
proof -
  let ?g = "\<lambda>(pos, d, s). pos # (let fin = min (pos + d) len in if d > 0 \<and> fin > pos then [fin] else [])"
  show "sorted_wrt (<) (edit_split_points len edits)"
    by (simp only: edit_split_points_def strict_sorted_remdups_adj sorted_sort)
  have S: "set (edit_split_points len edits) = (\<Union>ed\<in>set edits. set (?g ed))"
    by (simp only: edit_split_points_def remdups_adj_set set_sort set_concat set_map image_image)
  show "pos \<in> set (edit_split_points len edits)" if "(pos, d, s) \<in> set edits"
    unfolding S using that by (rule UN_I) (simp only: prod.case list.set insertI1)
  show "min (pos + d) len \<in> set (edit_split_points len edits)"
    if "(pos, d, s) \<in> set edits" "pos < min (pos + d) len"
  proof -
    have "min (pos + d) len \<in> set (?g (pos, d, s))"
      using that(2) by (simp add: Let_def)
    then show ?thesis unfolding S using that(1) by (rule UN_I[rotated])
  qed
qed

lemma edit_range_edit:
  assumes "map (range_text f b) ers = map (clamped len) edits" "(s, e, ins) \<in> set ers"
  shows "\<exists>d x. (s, d, x) \<in> set edits \<and> e = min (s + d) len"
proof -
  have "range_text f b (s, e, ins) \<in> set (map (clamped len) edits)"
    using assms by (metis image_eqI set_map)
  then obtain ed where ed: "ed \<in> set edits" "range_text f b (s, e, ins) = clamped len ed" by auto
  obtain p d x where "ed = (p, d, x)" by (metis prod_cases3)
  with ed show ?thesis by (auto simp: range_text_def clamped_def)
qed

lemma edit_ranges_covered:
  assumes "map (range_text f b) ers = map (clamped len) edits"
  shows "(\<exists>(s, e, _)\<in>set ers. s \<le> x \<and> x < e) \<longleftrightarrow>
         (\<exists>(s, e, i)\<in>set (rev (map (clamped len) edits)). s \<le> x \<and> x < e)"
proof -
  have "(\<exists>(s, e, i)\<in>set (map (range_text f b) ers). s \<le> x \<and> x < e) \<longleftrightarrow>
      (\<exists>(s, e, _)\<in>set ers. s \<le> x \<and> x < e)"
    by (force simp: range_text_def)
  then show ?thesis unfolding assms set_rev by simp
qed

lemma apply_to_leaves_sequential:
  assumes al: "aligned 0 lds (set (edit_split_points (length xs) edits))"
    and ok: "list_all (ld_ok f b) lds" and xs: "leaves_text f b lds = xs"
    and ers: "map (range_text f b) ers = map (clamped (length xs)) edits"
    and bulk: "bulk_ok (length xs) edits"
  shows "leaves_text f b (apply_to_leaves 0 lds (rev ers) (merged_deletes ers) []) =
           foldl apply_edit xs edits"
proof -
  let ?P = "set (edit_split_points (length xs) edits)" and ?D = "merged_deletes ers"
  note br = bulk_ranges[OF bulk]
  have E: "map (range_text f b) (rev ers) = rev (map (clamped (length xs)) edits)"
    using arg_cong[OF ers, of rev] by (simp only: rev_map)
  have "map fst (rev ers) = map fst (map (range_text f b) (rev ers))" by simp
  then have srt: "sorted (map fst (rev ers))" using ranges_ok_sorted[OF br(1)] unfolding E by simp
  have "fst ` set (rev ers) \<subseteq> ?P"
    using edit_range_edit[OF ers] edit_split_points_correct(2) by (fastforce simp del: set_map)
  moreover have "endpoints ?D \<subseteq> ?P"
  proof
    fix p assume "p \<in> endpoints ?D"
    then obtain s e ins where r: "(s, e, ins) \<in> set ers" "s < e" "p = s \<or> p = e"
      using merged_deletes_correct(3)[of ers] by blast
    then obtain d x where "(s, d, x) \<in> set edits" "e = min (s + d) (length xs)"
      using edit_range_edit[OF ers] by blast
    then show "p \<in> ?P" using r edit_split_points_correct(2,3)[of s d x edits "length xs"] by metis
  qed
  ultimately have "leaves_text f b (apply_to_leaves 0 lds (rev ers) ?D []) =
      bytewise 0 xs (rev (map (clamped (length xs)) edits)) (covered ?D)"
    using apply_to_leaves_text[OF al ok srt _ merged_deletes_correct(1), where del = "covered ?D" and acc = "[]"] xs
    unfolding E by simp
  also have "\<dots> = spliced 0 (rev (map (clamped (length xs)) edits)) xs"
    using bytewise_spliced[of 0 0 "rev (map (clamped (length xs)) edits)" "covered ?D" xs] br(1)
    unfolding merged_deletes_correct(2) edit_ranges_covered[OF ers] by simp
  finally show ?thesis using br(2) by simp
qed

lemma bulk_edits_correct:
  assumes ok: "pt_ok f b t" and bulk: "bulk_ok (pt_total_bytes t) edits"
    and adds: "adds_text f b add st edits"
  shows "\<exists>t' st'. pt_apply_bulk_edits t edits b add st =
             Some (t', st', int (pt_total_bytes t') - int (pt_total_bytes t)) \<and>
           pt_ok f b t' \<and> pt_text f b t' = foldl apply_edit (pt_text f b t) edits"
proof (cases "edits = []")
  case True
  then show ?thesis using ok by (simp add: pt_apply_bulk_edits_def)
next
  case False
  let ?T = "pt_text f b t" and ?sps = "edit_split_points (pt_total_bytes t) edits"
  have len: "length ?T = pt_total_bytes t" using ok by (rule pt_ok_length)
  have nok: "node_ok f b (root t)" using ok by (simp add: pt_ok_def)
  obtain lds where lds: "collect_leaves_with_multi_split (root t) 0 ?sps [] b = Some lds"
    "list_all (ld_ok f b) lds" "leaves_text f b lds = ?T" "aligned 0 lds (set ?sps)"
    using multi_split_correct[OF nok edit_split_points_correct(1), of 0 "pt_total_bytes t" edits "[]"]
    by (auto simp: pt_text_def)
  obtain ers st' where ers: "build_edit_ranges add st (pt_total_bytes t) edits = Some (ers, st')"
    "map (range_text f b) ers = map (clamped (pt_total_bytes t)) edits"
    "\<forall>(s, e, ins)\<in>set ers. \<forall>ld. ins = Some ld \<longrightarrow> ld_ok f b ld"
    using build_edit_ranges_correct[OF adds] by blast
  let ?new = "apply_to_leaves 0 lds (rev ers) (merged_deletes ers) []"
  have "leaves_text f b ?new = foldl apply_edit ?T edits"
    using apply_to_leaves_sequential[of lds ?T edits f b ers] lds ers(2) bulk len by simp
  moreover have "list_all (ld_ok f b) ?new"
    using apply_to_leaves_set[of 0 lds "rev ers" "merged_deletes ers" "[]"] lds(2) ers(3)
    by (fastforce simp: list_all_iff)
  ultimately show ?thesis using False lds(1) ers(1) from_leaves_ok[of f b ?new]
    by (simp add: pt_apply_bulk_edits_def from_leaves_def Let_def)
qed

end
