(* ===== verification/Byte_Sequence.thy ===== *)
theory Byte_Sequence
  imports Prelude
begin

text \<open>
  The interface of an editable text, as the clients of the text buffer use it: a representation
  with an invariant and a content, an insertion and a deletion that may panic (\<open>None\<close>). The laws
  say that under the invariant neither panics, both keep the invariant, and their effect on the
  content is splicing and cutting. The consequences clients rely on are proved once here: a deletion
  undoes an insertion, an insertion undoes a deletion, and a script of edits acts on the content
  as on a list. The text buffer provides the interface in theory \<open>Text_Buffer\<close>.
\<close>

subsection \<open>Edit scripts\<close>

datatype 'a seq_edit = Ins nat "'a list" | Del nat nat

fun edit_list :: "'a list \<Rightarrow> 'a seq_edit \<Rightarrow> 'a list" where
  "edit_list xs (Ins p s) = take p xs @ s @ drop p xs"
| "edit_list xs (Del p n) = take p xs @ drop (p + n) xs"

fun run_edits ::
  "('b \<Rightarrow> nat \<Rightarrow> 'a list \<Rightarrow> 'b option) \<Rightarrow> ('b \<Rightarrow> nat \<Rightarrow> nat \<Rightarrow> 'b option)
   \<Rightarrow> 'b \<Rightarrow> 'a seq_edit list \<Rightarrow> 'b option" where
  "run_edits ins del b [] = Some b"
| "run_edits ins del b (Ins p s # es) = Option.bind (ins b p s) (\<lambda>b'. run_edits ins del b' es)"
| "run_edits ins del b (Del p n # es) = Option.bind (del b p n) (\<lambda>b'. run_edits ins del b' es)"

text \<open>
  The edit that takes back an edit of \<open>xs\<close>: what was inserted is deleted, what was deleted is
  inserted again. \<open>edits_inverse\<close> is the script that takes back a script.
\<close>

fun edit_inverse :: "'a list \<Rightarrow> 'a seq_edit \<Rightarrow> 'a seq_edit" where
  "edit_inverse xs (Ins p s) = Del p (length s)"
| "edit_inverse xs (Del p n) = Ins p (take n (drop p xs))"

fun edits_inverse :: "'a list \<Rightarrow> 'a seq_edit list \<Rightarrow> 'a seq_edit list" where
  "edits_inverse xs [] = []"
| "edits_inverse xs (e # es) = edits_inverse (edit_list xs e) es @ [edit_inverse xs e]"

fun edit_inside :: "'a list \<Rightarrow> 'a seq_edit \<Rightarrow> bool" where
  "edit_inside xs (Ins p s) \<longleftrightarrow> p \<le> length xs"
| "edit_inside xs (Del p n) \<longleftrightarrow> p + n \<le> length xs"

fun edits_inside :: "'a list \<Rightarrow> 'a seq_edit list \<Rightarrow> bool" where
  "edits_inside xs [] \<longleftrightarrow> True"
| "edits_inside xs (e # es) \<longleftrightarrow> edit_inside xs e \<and> edits_inside (edit_list xs e) es"

lemma edit_inverse_correct: "edit_inside xs e \<Longrightarrow> edit_list (edit_list xs e) (edit_inverse xs e) = xs"
proof (cases e)
  case (Del p n)
  assume "edit_inside xs e"
  then have "take p xs @ take n (drop p xs) @ drop (p + n) xs = xs"
    by (metis append_take_drop_id drop_drop add.commute)
  with Del \<open>edit_inside xs e\<close> show ?thesis by simp
qed simp

lemma foldl_edits_inverse:
  "edits_inside xs es \<Longrightarrow> foldl edit_list (foldl edit_list xs es) (edits_inverse xs es) = xs"
  by (induction es arbitrary: xs) (simp_all add: edit_inverse_correct)

subsection \<open>The interface\<close>

locale byte_sequence =
  fixes inv :: "'b \<Rightarrow> bool"
    and content :: "'b \<Rightarrow> 'a list"
    and ins :: "'b \<Rightarrow> nat \<Rightarrow> 'a list \<Rightarrow> 'b option"
    and del :: "'b \<Rightarrow> nat \<Rightarrow> nat \<Rightarrow> 'b option"
  assumes ins_law: "inv b \<Longrightarrow> \<exists>b'. ins b p s = Some b' \<and> inv b' \<and>
      content b' = take p (content b) @ s @ drop p (content b)"
    and del_law: "inv b \<Longrightarrow> \<exists>b'. del b p n = Some b' \<and> inv b' \<and>
      content b' = take p (content b) @ drop (p + n) (content b)"
begin

lemma run_edits_correct:
  "inv b \<Longrightarrow> \<exists>b'. run_edits ins del b es = Some b' \<and> inv b' \<and>
     content b' = foldl edit_list (content b) es"
proof (induction es arbitrary: b)
  case (Cons e es)
  show ?case
  proof (cases e)
    case (Ins p s)
    obtain b' where "ins b p s = Some b'" "inv b'"
      "content b' = take p (content b) @ s @ drop p (content b)"
      using ins_law[OF Cons.prems] by blast
    then show ?thesis using Cons.IH[of b'] Ins by simp
  next
    case (Del p n)
    obtain b' where "del b p n = Some b'" "inv b'"
      "content b' = take p (content b) @ drop (p + n) (content b)"
      using del_law[OF Cons.prems] by blast
    then show ?thesis using Cons.IH[of b'] Del by simp
  qed
qed simp

lemma run_edits_undone:
  assumes "inv b" and "edits_inside (content b) es"
  shows "\<exists>b'. run_edits ins del b (es @ edits_inverse (content b) es) = Some b' \<and> inv b' \<and>
           content b' = content b"
  using run_edits_correct[OF assms(1), of "es @ edits_inverse (content b) es"]
    foldl_edits_inverse[OF assms(2)] by simp

end

end
