(* ===== verification/Text_Buffer.thy ===== *)
theory Text_Buffer
  imports Save_State Bulk_Edit Byte_Sequence Buffer_Format
begin

text \<open>
  The text buffer (\<open>model/buffer/mod.rs\<close>, \<open>model/buffer/file_kind.rs\<close>): a piece tree, the list
  of string buffers its pieces point into, the save state and the version counter, with the
  editing operations, the snapshots, lazy chunk loading and the line feed scan.

  The file system is a parameter \<open>fs\<close> with the two operations used here; \<open>fs_contract\<close> is what
  their documentation promises against the bytes \<open>files\<close> of every file. Logging is left out.
\<close>

subsection \<open>Data\<close>

record BufferFileKind =
  fk_large_file :: bool
  fk_line_feeds_scanned :: bool
  fk_is_binary :: bool

definition file_kind_new :: "bool \<Rightarrow> bool \<Rightarrow> BufferFileKind" where
  "file_kind_new large_file is_binary =
     \<lparr>fk_large_file = large_file, fk_line_feeds_scanned = False, fk_is_binary = is_binary\<rparr>"

record BufferConfig =
  estimated_line_length :: nat
  large_file_threshold :: "nat option"

definition default_config :: BufferConfig where
  "default_config = \<lparr>estimated_line_length = 80, large_file_threshold = None\<rparr>"

record TextBuffer =
  piece_tree :: PieceTree
  buffers :: "StringBuffer list"
  next_buffer_id :: nat
  persistence :: Persistence
  file_kind :: BufferFileKind
  tb_format :: BufferFormat
  tb_version :: "64 word"
  config :: BufferConfig

record BufferSnapshot =
  snap_piece_tree :: PieceTree
  snap_buffers :: "StringBuffer list"
  snap_next_buffer_id :: nat

record LineScanChunk =
  lsc_leaf_index :: nat
  lsc_byte_len :: nat
  lsc_already_known :: bool

record 'e FileSystem =
  fs_metadata_size :: "string \<Rightarrow> 'e + nat"
  fs_exists :: "string \<Rightarrow> bool"
  fs_read_file :: "string \<Rightarrow> 'e + byte list"
  fs_read_range :: "string \<Rightarrow> nat \<Rightarrow> nat \<Rightarrow> 'e + byte list"
  fs_count_line_feeds_in_range :: "string \<Rightarrow> nat \<Rightarrow> nat \<Rightarrow> 'e + nat"

datatype 'e buffer_error =
    Buffer_not_found
  | Failed_to_load 'e
  | Failed_to_create_chunk
  | Chunk_buffer_not_found

definition LOAD_CHUNK_SIZE :: nat where
  "LOAD_CHUNK_SIZE = 1024 * 1024"

definition CHUNK_ALIGNMENT :: nat where
  "CHUNK_ALIGNMENT = 64 * 1024"

subsection \<open>Construction\<close>

definition tb_empty :: TextBuffer where
  "tb_empty =
     \<lparr>piece_tree = pt_empty, buffers = [sb_new 0 []], next_buffer_id = 1,
      persistence = persistence_new None (root pt_empty) None,
      file_kind = file_kind_new False False, tb_format = format_new LF Utf8, tb_version = 0,
      config = default_config\<rparr>"

definition tb_new :: "nat \<Rightarrow> TextBuffer" where
  "tb_new threshold =
     \<lparr>piece_tree = pt_empty, buffers = [sb_new 0 []], next_buffer_id = 1,
      persistence = persistence_new None (root pt_empty) None,
      file_kind = file_kind_new False False, tb_format = format_new LF Utf8, tb_version = 0,
      config = default_config\<lparr>large_file_threshold := Some threshold\<rparr>\<rparr>"

definition from_bytes_raw :: "byte list \<Rightarrow> TextBuffer" where
  "from_bytes_raw content =
     (let bytes = length content;
          buffer = sb_new 0 content;
          line_feed_cnt = line_feed_count buffer;
          t = (if bytes > 0 then pt_new (Stored 0) 0 bytes line_feed_cnt else pt_empty)
      in \<lparr>piece_tree = t, buffers = [buffer], next_buffer_id = 1,
          persistence = persistence_new None (root t) (Some bytes),
          file_kind = file_kind_new False True,
          tb_format = format_new (detect_line_ending content) Utf8, tb_version = 0,
          config = default_config\<rparr>)"

text \<open>
  \<open>from_utf8_detected\<close> gets content that has been converted to UTF-8 already, with the encoding it
  was in.
\<close>

definition from_utf8_detected :: "byte list \<Rightarrow> Encoding \<Rightarrow> bool \<Rightarrow> TextBuffer" where
  "from_utf8_detected utf8_content enc normalize_cr =
     (let line_ending = detect_line_ending utf8_content;
          (content, normalized) = (if normalize_cr
                                   then normalize_for_line_ending utf8_content line_ending
                                   else (utf8_content, False));
          bytes = length content;
          buffer = sb_new 0 content;
          line_feed_cnt = line_feed_count buffer;
          t = (if bytes > 0 then pt_new (Stored 0) 0 bytes line_feed_cnt else pt_empty)
      in \<lparr>piece_tree = t, buffers = [buffer], next_buffer_id = 1,
          persistence = persistence_new None (root t) (Some bytes),
          file_kind = file_kind_new False False,
          tb_format = with_normalization line_ending enc normalized, tb_version = 0,
          config = default_config\<rparr>)"

text \<open>
  The lazy branch of \<open>load_large_file_internal\<close>: the file is UTF-8 or binary, \<open>sample\<close> are its first
  eight kilobytes, and one piece over an unloaded buffer stands for all of it.
\<close>

definition lazy_file :: "string \<Rightarrow> nat \<Rightarrow> byte list \<Rightarrow> Encoding \<Rightarrow> bool \<Rightarrow> TextBuffer" where
  "lazy_file path file_size sample enc is_binary =
     (let line_ending = detect_line_ending sample;
          buffer = \<lparr>sb_id = 0, sb_data = Unloaded path 0 file_size, stored_file_offset = None\<rparr>;
          t = (if file_size > 0 then pt_new (Stored 0) 0 file_size None else pt_empty)
      in \<lparr>piece_tree = t, buffers = [buffer], next_buffer_id = 1,
          persistence = persistence_new (Some path) (root t) (Some file_size),
          file_kind = file_kind_new True is_binary,
          tb_format = format_new line_ending enc, tb_version = 0, config = default_config\<rparr>)"

subsection \<open>Editing\<close>

definition bump_version :: "TextBuffer \<Rightarrow> TextBuffer" where
  "bump_version tb = tb\<lparr>tb_version := tb_version tb + 1\<rparr>"

definition mark_content_modified :: "TextBuffer \<Rightarrow> TextBuffer" where
  "mark_content_modified tb =
     bump_version (tb\<lparr>persistence := mark_dirty (persistence tb)\<rparr>)"

definition push_buffer :: "TextBuffer \<Rightarrow> byte list \<Rightarrow> TextBuffer \<times> nat" where
  "push_buffer tb content =
     (let i = next_buffer_id tb
      in (tb\<lparr>next_buffer_id := i + 1, buffers := buffers tb @ [sb_new i content]\<rparr>, i))"

definition ensure_chunk_loaded_at :: "'e FileSystem \<Rightarrow> TextBuffer \<Rightarrow> nat \<Rightarrow> TextBuffer option" where
  "ensure_chunk_loaded_at fs tb offset =
     (case pt_find_by_offset (piece_tree tb) offset of
        None \<Rightarrow> Some tb
      | Some piece_info \<Rightarrow>
          (let i = buffer_id (pi_location piece_info) in
           case slice_get (buffers tb) i of
             None \<Rightarrow> Some tb
           | Some buffer \<Rightarrow>
               (if is_loaded buffer then Some tb
                else map_option (\<lambda>r. case r of
                         Inl _ \<Rightarrow> tb
                       | Inr buffer' \<Rightarrow> tb\<lparr>buffers := (buffers tb)[i := buffer']\<rparr>)
                       (load (fs_read_range fs) buffer))))"

definition try_append_to_existing_buffer ::
  "TextBuffer \<Rightarrow> nat \<Rightarrow> byte list \<Rightarrow> (TextBuffer \<times> BufferLocation \<times> nat \<times> nat) option" where
  "try_append_to_existing_buffer tb offset s =
     (if s = [] \<or> offset = 0 then None
      else do {
        piece_info \<leftarrow> pt_find_by_offset (piece_tree tb) (offset - 1);
        offset_in_piece \<leftarrow> pi_offset_in_piece piece_info;
        if offset_in_piece + 1 \<noteq> pi_bytes piece_info then None
        else if (case pi_location piece_info of Added _ \<Rightarrow> False | Stored _ \<Rightarrow> True) then None
        else do {
          let i = buffer_id (pi_location piece_info);
          buffer \<leftarrow> slice_get (buffers tb) i;
          data \<leftarrow> get_data buffer;
          if pi_offset piece_info + pi_bytes piece_info \<noteq> length data then None
          else
            (case sb_append buffer s of (buffer', append_offset) \<Rightarrow>
               Some (tb\<lparr>buffers := (buffers tb)[i := buffer']\<rparr>,
                     pi_location piece_info, append_offset, length s))
        }
      })"

definition insert_bytes ::
  "'e FileSystem \<Rightarrow> TextBuffer \<Rightarrow> nat \<Rightarrow> byte list \<Rightarrow> (TextBuffer \<times> PtCursor) option" where
  "insert_bytes fs tb offset s =
     (if s = [] then Some (tb, cursor_at_offset (piece_tree tb) offset)
      else do {
        let line_feed_cnt = Some (count_nl s);
        let tb1 = mark_content_modified tb;
        let (tb2, location, buffer_offset, text_len) =
          (case try_append_to_existing_buffer tb1 offset s of
             Some r \<Rightarrow> r
           | None \<Rightarrow> (case push_buffer tb1 s of (tb', i) \<Rightarrow> (tb', Added i, 0, length s)));
        tb3 \<leftarrow> (if fk_line_feeds_scanned (file_kind tb2)
                then ensure_chunk_loaded_at fs tb2 offset else Some tb2);
        (t, c) \<leftarrow> pt_insert (piece_tree tb3) offset location buffer_offset text_len line_feed_cnt
                    (buffers tb3);
        Some (tb3\<lparr>piece_tree := t\<rparr>, c)
      })"

definition tb_insert_at_position ::
  "TextBuffer \<Rightarrow> nat \<Rightarrow> nat \<Rightarrow> byte list \<Rightarrow> (TextBuffer \<times> PtCursor) option" where
  "tb_insert_at_position tb line column s =
     (if s = [] then
        (let offset = position_to_offset (piece_tree tb) line column (buffers tb)
         in Some (tb, cursor_at_offset (piece_tree tb) offset))
      else do {
        let (tb1, i) = push_buffer (mark_content_modified tb) s;
        (t, c) \<leftarrow> insert_at_position (piece_tree tb1) line column (Added i) 0 (length s) (count_nl s)
                    (buffers tb1);
        Some (tb1\<lparr>piece_tree := t\<rparr>, c)
      })"

definition delete_bytes :: "'e FileSystem \<Rightarrow> TextBuffer \<Rightarrow> nat \<Rightarrow> nat \<Rightarrow> TextBuffer option" where
  "delete_bytes fs tb offset bytes =
     (if bytes = 0 \<or> offset \<ge> pt_total_bytes (piece_tree tb) then Some tb
      else do {
        tb2 \<leftarrow> (if fk_line_feeds_scanned (file_kind tb) then do {
                   tb1 \<leftarrow> ensure_chunk_loaded_at fs tb offset;
                   let fin = min (offset + bytes) (pt_total_bytes (piece_tree tb1));
                   if fin > offset then ensure_chunk_loaded_at fs tb1 (fin - 1) else Some tb1
                 } else Some tb);
        t \<leftarrow> pt_delete (piece_tree tb2) offset bytes (buffers tb2);
        Some (mark_content_modified (tb2\<lparr>piece_tree := t\<rparr>))
      })"

definition delete :: "'e FileSystem \<Rightarrow> TextBuffer \<Rightarrow> nat \<Rightarrow> nat \<Rightarrow> TextBuffer option" where
  "delete fs tb range_start range_end =
     (if range_end > range_start then delete_bytes fs tb range_start (range_end - range_start)
      else Some tb)"

definition delete_range :: "TextBuffer \<Rightarrow> nat \<times> nat \<Rightarrow> nat \<times> nat \<Rightarrow> TextBuffer option" where
  "delete_range tb start fin = do {
     t \<leftarrow> delete_position_range (piece_tree tb) (fst start) (snd start) (fst fin) (snd fin)
           (buffers tb);
     Some (mark_content_modified (tb\<lparr>piece_tree := t\<rparr>))
   }"

definition replace_content :: "TextBuffer \<Rightarrow> byte list \<Rightarrow> TextBuffer" where
  "replace_content tb content =
     (let bytes = length content;
          line_feed_cnt = count_nl content;
          (tb1, i) = push_buffer tb content;
          t = (if bytes > 0 then pt_new (Added i) 0 bytes (Some line_feed_cnt) else pt_empty)
      in mark_content_modified (tb1\<lparr>piece_tree := t\<rparr>))"

definition snapshot_buffer_state :: "TextBuffer \<Rightarrow> BufferSnapshot" where
  "snapshot_buffer_state tb =
     \<lparr>snap_piece_tree = piece_tree tb, snap_buffers = buffers tb,
      snap_next_buffer_id = next_buffer_id tb\<rparr>"

definition restore_buffer_state :: "TextBuffer \<Rightarrow> BufferSnapshot \<Rightarrow> TextBuffer" where
  "restore_buffer_state tb snapshot =
     mark_content_modified
       (tb\<lparr>piece_tree := snap_piece_tree snapshot, buffers := snap_buffers snapshot,
           next_buffer_id := snap_next_buffer_id snapshot\<rparr>)"

fun push_edit_texts ::
  "TextBuffer \<Rightarrow> edit list \<Rightarrow> (BufferLocation \<times> nat \<times> nat \<times> nat option) list
   \<Rightarrow> TextBuffer \<times> (BufferLocation \<times> nat \<times> nat \<times> nat option) list" where
  "push_edit_texts tb [] buffer_info = (tb, buffer_info)"
| "push_edit_texts tb ((_, _, s) # edits) buffer_info =
     (if s \<noteq> [] then
        (case push_buffer tb s of (tb1, i) \<Rightarrow>
           push_edit_texts tb1 edits
             (buffer_info @ [(Added i, 0, length s, Some (count_nl s))]))
      else push_edit_texts tb edits buffer_info)"

definition next_info :: "(BufferLocation \<times> nat \<times> nat \<times> nat option) list \<Rightarrow> nat add_text" where
  "next_info buffer_info idx _ = map_option (\<lambda>i. (i, idx + 1)) (slice_get buffer_info idx)"

definition apply_bulk_edits :: "TextBuffer \<Rightarrow> edit list \<Rightarrow> (TextBuffer \<times> int) option" where
  "apply_bulk_edits tb edits = do {
     let (tb1, buffer_info) = push_edit_texts tb edits [];
     (t, _, delta) \<leftarrow>
       pt_apply_bulk_edits (piece_tree tb1) edits (buffers tb1) (next_info buffer_info) 0;
     Some (mark_content_modified (tb1\<lparr>piece_tree := t\<rparr>), delta)
   }"

definition get_text_range :: "TextBuffer \<Rightarrow> nat \<Rightarrow> nat \<Rightarrow> byte list option" where
  "get_text_range tb offset bytes = read_range (piece_tree tb) (buffers tb) offset bytes"

definition get_all_text :: "TextBuffer \<Rightarrow> byte list option" where
  "get_all_text tb = get_text_range tb 0 (pt_total_bytes (piece_tree tb))"

definition slice_bytes :: "TextBuffer \<Rightarrow> nat \<Rightarrow> nat \<Rightarrow> byte list" where
  "slice_bytes tb range_start range_end =
     (case get_text_range tb range_start (range_end - range_start) of Some bs \<Rightarrow> bs | None \<Rightarrow> [])"

subsection \<open>The line feed scan\<close>

text \<open>The outer option of \<open>scan_leaf\<close> is the panic of slicing \<open>data[leaf.offset..end]\<close>.\<close>

definition scan_leaf ::
  "'e FileSystem \<Rightarrow> TextBuffer \<Rightarrow> LeafData \<Rightarrow> ('e buffer_error + nat) option" where
  "scan_leaf fs tb leaf =
     (case slice_get (buffers tb) (buffer_id (ld_location leaf)) of
        None \<Rightarrow> Some (Inl Buffer_not_found)
      | Some buffer \<Rightarrow>
          (case sb_data buffer of
             Loaded data _ \<Rightarrow>
               (let fin = min (ld_offset leaf + ld_bytes leaf) (length data) in
                map_option (\<lambda>bs. Inr (count_nl bs)) (index_range data (ld_offset leaf) fin))
           | Unloaded file_path file_offset _ \<Rightarrow>
               (let read_offset = file_offset + ld_offset leaf in
                case fs_count_line_feeds_in_range fs file_path read_offset (ld_bytes leaf) of
                  Inl e \<Rightarrow> Some (Inl (Failed_to_load e))
                | Inr count \<Rightarrow> Some (Inr count))))"

definition leaf_io_params :: "TextBuffer \<Rightarrow> LeafData \<Rightarrow> (string \<times> nat \<times> nat) option" where
  "leaf_io_params tb leaf = do {
     buffer \<leftarrow> slice_get (buffers tb) (buffer_id (ld_location leaf));
     (case sb_data buffer of
        Loaded _ _ \<Rightarrow> None
      | Unloaded file_path file_offset _ \<Rightarrow>
          Some (file_path, file_offset + ld_offset leaf, ld_bytes leaf))
   }"

definition prepare_line_scan :: "TextBuffer \<Rightarrow> (TextBuffer \<times> LineScanChunk list \<times> nat) option" where
  "prepare_line_scan tb = do {
     t \<leftarrow> split_leaves_to_chunk_size (piece_tree tb) LOAD_CHUNK_SIZE;
     let leaves = get_leaves t;
     let total_bytes = sum_list (map ld_bytes leaves);
     let chunks = map (\<lambda>(idx, leaf). \<lparr>lsc_leaf_index = idx, lsc_byte_len = ld_bytes leaf,
                        lsc_already_known = (ld_line_feed_cnt leaf \<noteq> None)\<rparr>) (List.enumerate 0 leaves);
     Some (tb\<lparr>piece_tree := t\<rparr>, chunks, total_bytes)
   }"

definition apply_scan_updates :: "TextBuffer \<Rightarrow> (nat \<times> nat) list \<Rightarrow> TextBuffer" where
  "apply_scan_updates tb updates =
     tb\<lparr>piece_tree := update_leaf_line_feeds (piece_tree tb) updates,
        file_kind := (file_kind tb)\<lparr>fk_line_feeds_scanned := True\<rparr>\<rparr>"

subsection \<open>Lazy loading\<close>

fun collect_fixups ::
  "'e FileSystem \<Rightarrow> TextBuffer \<Rightarrow> nat \<Rightarrow> LeafData list \<Rightarrow> (nat \<times> nat) list option" where
  "collect_fixups fs tb idx [] = Some []"
| "collect_fixups fs tb idx (leaf # leaves) =
     (if ld_line_feed_cnt leaf = None then do {
        r \<leftarrow> scan_leaf fs tb leaf;
        rest \<leftarrow> collect_fixups fs tb (idx + 1) leaves;
        Some (case r of Inr count \<Rightarrow> (idx, count) # rest | Inl _ \<Rightarrow> rest)
      }
      else collect_fixups fs tb (idx + 1) leaves)"

text \<open>The chunk to load: where it starts in the buffer of the piece, and its length.\<close>

definition chunk_bounds :: "PieceView \<Rightarrow> nat \<Rightarrow> nat \<times> nat" where
  "chunk_bounds piece_view offset_in_piece =
     (if pv_bytes piece_view \<le> LOAD_CHUNK_SIZE
      then (pv_buffer_offset piece_view, pv_bytes piece_view)
      else
        (let start = (pv_buffer_offset piece_view + offset_in_piece) div CHUNK_ALIGNMENT
                       * CHUNK_ALIGNMENT;
             bytes = min LOAD_CHUNK_SIZE
                       (pv_buffer_offset piece_view + pv_bytes piece_view - start)
         in (start, bytes)))"

definition fix_line_feeds :: "'e FileSystem \<Rightarrow> TextBuffer \<Rightarrow> TextBuffer option" where
  "fix_line_feeds fs tb =
     (if fk_line_feeds_scanned (file_kind tb) then do {
        fixups \<leftarrow> collect_fixups fs tb 0 (get_leaves (piece_tree tb));
        Some (if fixups \<noteq> [] then
                tb\<lparr>piece_tree := update_leaf_line_feeds_path_copy (piece_tree tb) fixups\<rparr>
              else tb)
      } else Some tb)"

definition sync_saved_root :: "TextBuffer \<Rightarrow> nat \<Rightarrow> nat \<Rightarrow> nat \<Rightarrow> nat \<Rightarrow> TextBuffer" where
  "sync_saved_root tb i chunk_start_in_buffer chunk_bytes new_buffer_id =
     (let p = persistence tb;
          p' = (if \<not> p_modified p then set_saved_root p (root (piece_tree tb))
                else apply_chunk_load_to_saved_root p i chunk_start_in_buffer chunk_bytes
                       new_buffer_id)
      in tb\<lparr>persistence := p'\<rparr>)"

text \<open>
  The second half of \<open>chunk_split_and_load\<close>: the chunk buffer is pushed, the piece at
  \<open>reference_offset\<close> made to point to it, and the chunk loaded.
\<close>

definition install_chunk ::
  "'e FileSystem \<Rightarrow> TextBuffer \<Rightarrow> nat \<Rightarrow> nat \<Rightarrow> nat \<Rightarrow> nat \<Rightarrow> StringBuffer
   \<Rightarrow> (TextBuffer \<times> ('e buffer_error + bool)) option" where
  "install_chunk fs tb i reference_offset chunk_start_in_buffer chunk_bytes chunk_buffer = do {
     let new_buffer_id = sb_id chunk_buffer;
     let tb3 = tb\<lparr>next_buffer_id := next_buffer_id tb + 1,
                  buffers := buffers tb @ [chunk_buffer],
                  piece_tree := replace_buffer_reference (piece_tree tb) i reference_offset
                    chunk_bytes (Added new_buffer_id)\<rparr>;
     (case slice_get (buffers tb3) new_buffer_id of
        None \<Rightarrow> Some (tb3, Inl Chunk_buffer_not_found)
      | Some chunk \<Rightarrow> do {
          r \<leftarrow> load (fs_read_range fs) chunk;
          (case r of
             Inl e \<Rightarrow> Some (tb3, Inl (Failed_to_load e))
           | Inr loaded \<Rightarrow> do {
               let tb4 = tb3\<lparr>buffers := (buffers tb3)[new_buffer_id := loaded]\<rparr>;
               tb5 \<leftarrow> fix_line_feeds fs tb4;
               Some (sync_saved_root tb5 i chunk_start_in_buffer chunk_bytes new_buffer_id, Inr True)
             })
        })
   }"

definition load_chunk ::
  "'e FileSystem \<Rightarrow> TextBuffer \<Rightarrow> PieceView \<Rightarrow> nat \<Rightarrow> (TextBuffer \<times> ('e buffer_error + bool)) option"
  where
  "load_chunk fs tb piece_view current_offset = do {
     let i = buffer_id (pv_location piece_view);
     let piece_start_in_doc = pv_doc_offset piece_view;
     let offset_in_piece = current_offset - piece_start_in_doc;
     let (chunk_start_in_buffer, chunk_bytes) = chunk_bounds piece_view offset_in_piece;
     let chunk_start_offset_in_piece = chunk_start_in_buffer - pv_buffer_offset piece_view;
     let split_start_in_doc = piece_start_in_doc + chunk_start_offset_in_piece;
     let split_end_in_doc = split_start_in_doc + chunk_bytes;
     t1 \<leftarrow> (if chunk_start_offset_in_piece > 0
            then split_at_offset (piece_tree tb) split_start_in_doc (buffers tb)
            else Some (piece_tree tb));
     t2 \<leftarrow> (if split_end_in_doc < piece_start_in_doc + pv_bytes piece_view
            then split_at_offset t1 split_end_in_doc (buffers tb) else Some t1);
     let tb2 = tb\<lparr>piece_tree := t2\<rparr>;
     (case slice_get (buffers tb2) i of
        None \<Rightarrow> Some (tb2, Inl Buffer_not_found)
      | Some buffer \<Rightarrow>
          (case create_chunk_buffer buffer (next_buffer_id tb2) chunk_start_in_buffer chunk_bytes of
             None \<Rightarrow> Some (tb2, Inl Failed_to_create_chunk)
           | Some chunk_buffer \<Rightarrow>
               install_chunk fs tb2 i (pv_buffer_offset piece_view + chunk_start_offset_in_piece)
                 chunk_start_in_buffer chunk_bytes chunk_buffer))
   }"

definition chunk_split_and_load ::
  "'e FileSystem \<Rightarrow> TextBuffer \<Rightarrow> PieceView \<Rightarrow> nat \<Rightarrow> (TextBuffer \<times> ('e buffer_error + bool)) option"
  where
  "chunk_split_and_load fs tb piece_view current_offset =
     (let i = buffer_id (pv_location piece_view);
          whole_buffer_bytes = (case slice_get (buffers tb) i of
                            Some b \<Rightarrow> (case unloaded_bytes b of Some n \<Rightarrow> n | None \<Rightarrow> 0)
                          | None \<Rightarrow> 0);
          needs_chunk_split = (pv_bytes piece_view > LOAD_CHUNK_SIZE \<or>
                               whole_buffer_bytes > pv_bytes piece_view) in
      if \<not> needs_chunk_split then
        (case slice_get (buffers tb) i of
           None \<Rightarrow> Some (tb, Inl Buffer_not_found)
         | Some buffer \<Rightarrow>
             map_option (\<lambda>r. case r of
                 Inl e \<Rightarrow> (tb, Inl (Failed_to_load e))
               | Inr loaded \<Rightarrow> (tb\<lparr>buffers := (buffers tb)[i := loaded]\<rparr>, Inr False))
               (load (fs_read_range fs) buffer))
      else load_chunk fs tb piece_view current_offset)"

definition extend_streaming ::
  "'e FileSystem \<Rightarrow> TextBuffer \<Rightarrow> string \<Rightarrow> nat \<Rightarrow> TextBuffer option" where
  "extend_streaming fs tb source_path new_size =
     (let old_size = pt_total_bytes (piece_tree tb) in
      if new_size \<le> old_size then Some tb
      else do {
        let additional_bytes = new_size - old_size;
        let i = next_buffer_id tb;
        let tb1 = tb\<lparr>next_buffer_id := i + 1,
                     buffers := buffers tb @ [new_unloaded i source_path old_size additional_bytes]\<rparr>;
        let line_feed_cnt =
          (case fs_count_line_feeds_in_range fs source_path old_size additional_bytes of
             Inr k \<Rightarrow> Some k | Inl _ \<Rightarrow> None);
        (t, _) \<leftarrow> pt_insert (piece_tree tb1) old_size (Stored i) 0 additional_bytes line_feed_cnt
                    (buffers tb1);
        Some (bump_version (tb1\<lparr>piece_tree := t\<rparr>))
      })"

subsection \<open>After a save\<close>

definition tb_mark_saved_snapshot :: "TextBuffer \<Rightarrow> TextBuffer" where
  "tb_mark_saved_snapshot tb =
     tb\<lparr>persistence := mark_saved_snapshot (persistence tb) (piece_tree tb)\<rparr>"

definition consolidate_large_file :: "TextBuffer \<Rightarrow> string \<Rightarrow> nat \<Rightarrow> TextBuffer" where
  "consolidate_large_file tb path file_size =
     (let preserved_lf = (if fk_line_feeds_scanned (file_kind tb)
                          then map_option (\<lambda>c. c - 1) (line_count (piece_tree tb)) else None)
      in tb\<lparr>piece_tree := (if file_size > 0 then pt_new (Stored 0) 0 file_size preserved_lf
                           else pt_empty),
            buffers := [new_unloaded 0 path 0 file_size],
            next_buffer_id := 1\<rparr>)"

definition consolidate_small_file :: "TextBuffer \<Rightarrow> TextBuffer" where
  "consolidate_small_file tb =
     (case get_all_text tb of
        None \<Rightarrow> tb
      | Some bytes \<Rightarrow>
          (let line_feed_cnt = count_nl bytes;
               len = length bytes
           in tb\<lparr>piece_tree := (if len > 0 then pt_new (Stored 0) 0 len (Some line_feed_cnt)
                                else pt_empty),
                 buffers := [new_loaded 0 bytes True],
                 next_buffer_id := 1\<rparr>))"

definition consolidate_after_save :: "TextBuffer \<Rightarrow> string \<Rightarrow> nat \<Rightarrow> TextBuffer" where
  "consolidate_after_save tb path file_size =
     (if fk_large_file (file_kind tb) then consolidate_large_file tb path file_size
      else consolidate_small_file tb)"

text \<open>
  \<open>finalize_save\<close>: the file at \<open>dest_path\<close> has been written. Its size is asked for first, and an
  error there leaves the buffer as it was.
\<close>

definition finalize_with_size :: "TextBuffer \<Rightarrow> string \<Rightarrow> nat \<Rightarrow> TextBuffer" where
  "finalize_with_size tb dest_path new_size =
     (let p = set_torn_write (set_source_torn (set_file_path
                (set_saved_file_size (persistence tb) (Some new_size)) dest_path) False) None;
          tb1 = tb_mark_saved_snapshot (consolidate_after_save (tb\<lparr>persistence := p\<rparr>) dest_path new_size)
      in tb1\<lparr>tb_format := promote_current_to_original (tb_format tb1)\<rparr>)"

definition finalize_save :: "'e FileSystem \<Rightarrow> TextBuffer \<Rightarrow> string \<Rightarrow> 'e + TextBuffer" where
  "finalize_save fs tb dest_path =
     (case fs_metadata_size fs dest_path of
        Inl e \<Rightarrow> Inl e
      | Inr new_size \<Rightarrow> Inr (finalize_with_size tb dest_path new_size))"

definition tb_diff_since_saved ::
  "(PieceTreeNode \<Rightarrow> PieceTreeNode \<Rightarrow> bool) \<Rightarrow> TextBuffer \<Rightarrow> PieceTreeDiff \<times> TextBuffer" where
  "tb_diff_since_saved ptr_eq tb =
     (case diff_since_saved ptr_eq (persistence tb) (piece_tree tb) (buffers tb) (tb_version tb) of
        (d, p) \<Rightarrow> (d, tb\<lparr>persistence := p\<rparr>))"

subsection \<open>Specification\<close>

definition fs_contract :: "(string \<Rightarrow> byte list) \<Rightarrow> 'e FileSystem \<Rightarrow> bool" where
  "fs_contract files fs \<longleftrightarrow>
     read_range_contract files (fs_read_range fs) \<and>
     (\<forall>p off n k. fs_count_line_feeds_in_range fs p off n = Inr k \<longrightarrow>
        k = count_nl (take n (drop off (files p))))"

definition tb_ok :: "(string \<Rightarrow> byte list) \<Rightarrow> TextBuffer \<Rightarrow> bool" where
  "tb_ok files tb \<longleftrightarrow>
     pt_ok files (buffers tb) (piece_tree tb) \<and>
     node_ok files (buffers tb) (p_saved_root (persistence tb)) \<and>
     next_buffer_id tb = length (buffers tb) \<and> list_all sb_ok (buffers tb)"

definition tb_text :: "(string \<Rightarrow> byte list) \<Rightarrow> TextBuffer \<Rightarrow> byte list" where
  "tb_text files tb = pt_text files (buffers tb) (piece_tree tb)"

definition saved_text :: "(string \<Rightarrow> byte list) \<Rightarrow> TextBuffer \<Rightarrow> byte list" where
  "saved_text files tb = node_text files (buffers tb) (p_saved_root (persistence tb))"

text \<open>A buffer list that extends another: no buffer is lost, and every buffer keeps its bytes.\<close>

definition bufs_ext :: "(string \<Rightarrow> byte list) \<Rightarrow> StringBuffer list \<Rightarrow> StringBuffer list \<Rightarrow> bool" where
  "bufs_ext files b b' \<longleftrightarrow>
     length b \<le> length b' \<and>
     (\<forall>i<length b. \<exists>xs. buffer_bytes files (b' ! i) = buffer_bytes files (b ! i) @ xs)"

lemma bufs_ext_refl [simp]: "bufs_ext f b b"
  by (simp add: bufs_ext_def)

lemma bufs_ext_trans:
  assumes "bufs_ext f b b'" "bufs_ext f b' b''"
  shows "bufs_ext f b b''"
proof -
  have "\<exists>xs. buffer_bytes f (b'' ! i) = buffer_bytes f (b ! i) @ xs" if lt: "i < length b" for i
  proof -
    have "i < length b'" using assms(1) lt by (simp add: bufs_ext_def)
    then obtain xs ys where "buffer_bytes f (b' ! i) = buffer_bytes f (b ! i) @ xs"
      "buffer_bytes f (b'' ! i) = buffer_bytes f (b' ! i) @ ys"
      using assms lt unfolding bufs_ext_def by metis
    then show ?thesis by simp
  qed
  then show ?thesis using assms by (simp add: bufs_ext_def)
qed

lemma bufs_ext_snoc [simp]: "bufs_ext f b (b @ xs)"
  by (simp add: bufs_ext_def nth_append)

lemma bufs_ext_update:
  "i < length b \<Longrightarrow> buffer_bytes f x = buffer_bytes f (b ! i) @ xs \<Longrightarrow> bufs_ext f b (b[i := x])"
  by (auto simp: bufs_ext_def nth_list_update)

lemma piece_ok_ext:
  assumes "piece_ok f b l off n lf" "bufs_ext f b b'"
  shows "piece_text f b' l off n = piece_text f b l off n" "piece_ok f b' l off n lf"
proof -
  show eq: "piece_text f b' l off n = piece_text f b l off n"
  proof (cases "n = 0")
    case False
    then have i: "buffer_id l < length b" "off + n \<le> length (buffer_bytes f (b ! buffer_id l))"
      using assms(1) by (auto simp: piece_ok_def piece_text_def slice_get_def split: if_splits)
    then obtain xs where "buffer_bytes f (b' ! buffer_id l) = buffer_bytes f (b ! buffer_id l) @ xs"
      using assms(2) by (auto simp: bufs_ext_def)
    then show ?thesis using i assms(2) by (auto simp: piece_text_def slice_get_def bufs_ext_def)
  qed simp
  show "piece_ok f b' l off n lf" using assms(1) unfolding piece_ok_def eq .
qed

lemma node_ok_ext:
  assumes "node_ok f b n" "bufs_ext f b b'"
  shows "node_text f b' n = node_text f b n" "node_ok f b' n"
proof -
  have "node_text f b' n = node_text f b n \<and> node_ok f b' n" using assms(1)
  proof (induction n)
    case (Leaf loc off m lf)
    then show ?case using piece_ok_ext[OF _ assms(2), of loc off m lf] by simp
  qed simp
  then show "node_text f b' n = node_text f b n" "node_ok f b' n" by auto
qed

lemma pt_ok_ext:
  assumes "pt_ok f b t" "bufs_ext f b b'"
  shows "pt_text f b' t = pt_text f b t" "pt_ok f b' t"
  using assms(1) node_ok_ext[OF _ assms(2), of "root t"] by (simp_all add: pt_ok_def pt_text_def)

text \<open>
  \<open>tb_grown\<close>: only the buffer list, the flags and the version have changed, and the buffer list
  has been extended. The texts and the invariant carry over.
\<close>

definition tb_grown :: "(string \<Rightarrow> byte list) \<Rightarrow> TextBuffer \<Rightarrow> TextBuffer \<Rightarrow> bool" where
  "tb_grown files tb tb' \<longleftrightarrow>
     piece_tree tb' = piece_tree tb \<and>
     p_saved_root (persistence tb') = p_saved_root (persistence tb) \<and>
     bufs_ext files (buffers tb) (buffers tb') \<and>
     next_buffer_id tb' = length (buffers tb') \<and> list_all sb_ok (buffers tb')"

lemma tb_grown_ok:
  assumes "tb_ok f tb" "tb_grown f tb tb'"
  shows "tb_ok f tb'" "tb_text f tb' = tb_text f tb" "saved_text f tb' = saved_text f tb"
proof -
  have e: "bufs_ext f (buffers tb) (buffers tb')" using assms(2) by (simp add: tb_grown_def)
  have o: "pt_ok f (buffers tb) (piece_tree tb)"
    "node_ok f (buffers tb) (p_saved_root (persistence tb))" using assms(1) by (auto simp: tb_ok_def)
  note x = pt_ok_ext[OF o(1) e] node_ok_ext[OF o(2) e]
  show "tb_ok f tb'" "tb_text f tb' = tb_text f tb" "saved_text f tb' = saved_text f tb"
    using x assms(2) by (simp_all add: tb_ok_def tb_text_def saved_text_def tb_grown_def)
qed

lemma tb_grown_trans: "tb_grown f a b \<Longrightarrow> tb_grown f b c \<Longrightarrow> tb_grown f a c"
  using bufs_ext_trans unfolding tb_grown_def by metis

lemma tb_grown_refl: "tb_ok f tb \<Longrightarrow> tb_grown f tb tb"
  by (simp add: tb_grown_def tb_ok_def)

lemma mark_content_modified_sel [simp]:
  "piece_tree (mark_content_modified tb) = piece_tree tb"
  "buffers (mark_content_modified tb) = buffers tb"
  "next_buffer_id (mark_content_modified tb) = next_buffer_id tb"
  "file_kind (mark_content_modified tb) = file_kind tb"
  "p_saved_root (persistence (mark_content_modified tb)) = p_saved_root (persistence tb)"
  "p_modified (persistence (mark_content_modified tb))"
  "tb_version (mark_content_modified tb) = tb_version tb + 1"
  by (simp_all add: mark_content_modified_def bump_version_def mark_dirty_def bump_save_state_def)

lemma mark_content_modified_ok [simp]:
  "tb_ok f (mark_content_modified tb) = tb_ok f tb"
  "tb_text f (mark_content_modified tb) = tb_text f tb"
  "saved_text f (mark_content_modified tb) = saved_text f tb"
  by (simp_all add: tb_ok_def tb_text_def saved_text_def)

lemma list_all_update: "list_all P xs \<Longrightarrow> P x \<Longrightarrow> list_all P (xs[i := x])"
  by (auto simp: list_all_iff dest!: set_update_subset_insert[THEN subsetD])

lemma ensure_chunk_loaded_grown:
  assumes "fs_contract f fs" "tb_ok f tb"
  shows "\<exists>tb'. ensure_chunk_loaded_at fs tb off = Some tb' \<and> tb_grown f tb tb' \<and>
           file_kind tb' = file_kind tb \<and> persistence tb' = persistence tb \<and>
           tb_version tb' = tb_version tb"
proof (cases "\<exists>pi b. pt_find_by_offset (piece_tree tb) off = Some pi \<and>
    slice_get (buffers tb) (buffer_id (pi_location pi)) = Some b \<and> \<not> is_loaded b")
  case False
  then have "ensure_chunk_loaded_at fs tb off = Some tb"
    by (auto simp: ensure_chunk_loaded_at_def Let_def split: option.splits)
  then show ?thesis using tb_grown_refl[OF assms(2)] by simp
next
  case True
  then obtain pi b where pb: "pt_find_by_offset (piece_tree tb) off = Some pi"
    "slice_get (buffers tb) (buffer_id (pi_location pi)) = Some b" "\<not> is_loaded b" by blast
  let ?i = "buffer_id (pi_location pi)"
  have rr: "read_range_contract f (fs_read_range fs)" using assms(1) by (simp add: fs_contract_def)
  obtain r where r: "load (fs_read_range fs) b = Some r" using load_never_panics[OF rr] by blast
  have i: "?i < length (buffers tb)" "b = buffers tb ! ?i"
    using pb(2) by (auto simp: slice_get_def split: if_splits)
  have "sb_ok b" using assms(2) i by (simp add: tb_ok_def list_all_length)
  then have "tb_grown f tb (tb\<lparr>buffers := (buffers tb)[?i := b']\<rparr>)" if "r = Inr b'" for b'
    using load_ok[OF rr, of b b'] r that i assms(2)
    by (auto simp: tb_grown_def tb_ok_def list_all_update intro!: bufs_ext_update[of _ _ _ _ "[]"])
  then show ?thesis using pb r tb_grown_refl[OF assms(2)]
    by (cases r) (auto simp: ensure_chunk_loaded_at_def Let_def)
qed

subsection \<open>Editing is correct\<close>

lemma push_buffer_grown:
  assumes "tb_ok f tb" "push_buffer tb s = (tb', i)"
  shows "tb_grown f tb tb'" "piece_ok f (buffers tb') (Added i) 0 (length s) (Some (count_nl s))"
    "piece_text f (buffers tb') (Added i) 0 (length s) = s"
    "file_kind tb' = file_kind tb" "tb_version tb' = tb_version tb" "persistence tb' = persistence tb"
  using assms
  by (auto simp: push_buffer_def tb_grown_def tb_ok_def piece_ok_def piece_text_def slice_get_def Let_def)

lemma pt_find_by_offset_leaf:
  assumes "pt_ok f b t" "pt_find_by_offset t off = Some pi"
  shows "piece_ok f b (pi_location pi) (pi_offset pi) (pi_bytes pi) (pi_line_feeds pi)"
proof -
  have nok: "node_ok f b (root t)" using assms(1) by (simp add: pt_ok_def)
  obtain r where r: "node_find_by_offset (root t) off = Some r" "pi = info r" "off < node_total_bytes (root t)"
    using assms by (auto simp: pt_find_by_offset_def pt_ok_def split: if_splits)
  then have "found_at f b (root t) off r" using node_find_by_offset_correct[OF nok r(3)] by auto
  then show ?thesis using nok r(2) by (auto simp: found_at_def node_ok_def list_all_iff)
qed

lemma try_append_grown:
  assumes "tb_ok f tb" "try_append_to_existing_buffer tb off s = Some (tb', loc, bo, n)"
  shows "tb_grown f tb tb'" "n = length s" "piece_ok f (buffers tb') loc bo n (Some (count_nl s))"
    "piece_text f (buffers tb') loc bo n = s"
    "file_kind tb' = file_kind tb" "tb_version tb' = tb_version tb" "persistence tb' = persistence tb"
proof -
  have "\<exists>buffer. slice_get (buffers tb) (buffer_id loc) = Some buffer \<and>
    is_loaded buffer \<and> n = length s \<and> bo = snd (sb_append buffer s) \<and>
    tb' = tb\<lparr>buffers := (buffers tb)[buffer_id loc := fst (sb_append buffer s)]\<rparr>"
    using assms(2)
    by (auto simp: try_append_to_existing_buffer_def bind_eq_Some_conv Let_def get_data_def
        is_loaded_def split: if_splits prod.splits BufferData.splits BufferLocation.splits)
  then obtain buffer where a: "slice_get (buffers tb) (buffer_id loc) = Some buffer"
    "is_loaded buffer" "n = length s" "bo = snd (sb_append buffer s)"
    "tb' = tb\<lparr>buffers := (buffers tb)[buffer_id loc := fst (sb_append buffer s)]\<rparr>" by blast
  let ?i = "buffer_id loc" and ?b' = "fst (sb_append buffer s)"
  have i: "?i < length (buffers tb)" "buffer = buffers tb ! ?i"
    using a(1) by (auto simp: slice_get_def split: if_splits)
  have ok: "sb_ok buffer" using assms(1) i by (simp add: tb_ok_def list_all_length)
  have bytes: "buffer_bytes f ?b' = buffer_bytes f buffer @ s" "bo = length (buffer_bytes f buffer)"
    using append_bytes[OF a(2)] a(4) by auto
  show "tb_grown f tb tb'" using a(5) i bytes(1) append_ok[OF ok, of s] assms(1)
    by (auto simp: tb_grown_def tb_ok_def list_all_update intro!: bufs_ext_update[of _ _ _ _ s])
  show "n = length s" by (rule a(3))
  show tx: "piece_text f (buffers tb') loc bo n = s"
    using a(3,5) i bytes by (simp add: piece_text_def slice_get_def)
  show "piece_ok f (buffers tb') loc bo n (Some (count_nl s))" using tx a(3) by (simp add: piece_ok_def)
  show "file_kind tb' = file_kind tb" "tb_version tb' = tb_version tb" "persistence tb' = persistence tb"
    using a(5) by simp_all
qed

text \<open>The buffer an insertion uses: appended to or new, it holds the text and nothing is lost.\<close>

lemma insertion_buffer:
  assumes "tb_ok f tb"
  obtains tb' loc bo where
    "(case try_append_to_existing_buffer tb off s of Some r \<Rightarrow> r
      | None \<Rightarrow> (case push_buffer tb s of (tb', i) \<Rightarrow> (tb', Added i, 0, length s))) =
       (tb', loc, bo, length s)"
    "tb_grown f tb tb'" "piece_ok f (buffers tb') loc bo (length s) (Some (count_nl s))"
    "piece_text f (buffers tb') loc bo (length s) = s"
    "file_kind tb' = file_kind tb" "tb_version tb' = tb_version tb" "persistence tb' = persistence tb"
proof (cases "try_append_to_existing_buffer tb off s")
  case None
  obtain tb' i where "push_buffer tb s = (tb', i)" by force
  then show ?thesis using None that push_buffer_grown[OF assms, of s tb' i] by auto
next
  case (Some r)
  obtain tb' loc bo n where "r = (tb', loc, bo, n)" by (metis prod_cases4)
  then show ?thesis using Some that try_append_grown[OF assms, of off s tb' loc bo n] by auto
qed

lemma set_tree_ok:
  assumes "tb_ok f tb" "pt_ok f (buffers tb) t"
  shows "tb_ok f (tb\<lparr>piece_tree := t\<rparr>)" "tb_text f (tb\<lparr>piece_tree := t\<rparr>) = pt_text f (buffers tb) t"
    "saved_text f (tb\<lparr>piece_tree := t\<rparr>) = saved_text f tb"
  using assms by (simp_all add: tb_ok_def tb_text_def saved_text_def)

lemma insert_bytes_correct:
  assumes "fs_contract f fs" "tb_ok f tb"
  shows "\<exists>tb' c. insert_bytes fs tb p s = Some (tb', c) \<and> tb_ok f tb' \<and>
           tb_text f tb' = take p (tb_text f tb) @ s @ drop p (tb_text f tb) \<and>
           saved_text f tb' = saved_text f tb \<and>
           pc_byte_offset c = min (p + length s) (pt_total_bytes (piece_tree tb')) \<and>
           tb_version tb' = (if s = [] then tb_version tb else tb_version tb + 1) \<and>
           (p_modified (persistence tb') \<longleftrightarrow> p_modified (persistence tb) \<or> s \<noteq> [])"
proof (cases "s = []")
  case True
  then show ?thesis using assms by (simp add: insert_bytes_def cursor_at_offset_def)
next
  case False
  let ?tb1 = "mark_content_modified tb"
  have ok1: "tb_ok f ?tb1" using assms(2) by simp
  obtain tb2 loc bo where t2: "(case try_append_to_existing_buffer ?tb1 p s of Some r \<Rightarrow> r
      | None \<Rightarrow> (case push_buffer ?tb1 s of (tb', i) \<Rightarrow> (tb', Added i, 0, length s))) =
       (tb2, loc, bo, length s)" and g2: "tb_grown f ?tb1 tb2"
    and pk: "piece_ok f (buffers tb2) loc bo (length s) (Some (count_nl s))"
    and tx: "piece_text f (buffers tb2) loc bo (length s) = s"
    and fr2: "tb_version tb2 = tb_version ?tb1" "persistence tb2 = persistence ?tb1"
    using insertion_buffer[OF ok1, where off = p and s = s] by metis
  note ok2 = tb_grown_ok(1)[OF ok1 g2]
  obtain tb3 where t3: "(if fk_line_feeds_scanned (file_kind tb2)
      then ensure_chunk_loaded_at fs tb2 p else Some tb2) = Some tb3"
    and g3: "tb_grown f tb2 tb3" and fr3: "tb_version tb3 = tb_version tb2" "persistence tb3 = persistence tb2"
    using ensure_chunk_loaded_grown[OF assms(1) ok2, of p] tb_grown_refl[OF ok2]
    by (cases "fk_line_feeds_scanned (file_kind tb2)") auto
  note g = tb_grown_trans[OF g2 g3]
  note ok3 = tb_grown_ok[OF ok1 g]
  have ext: "bufs_ext f (buffers tb2) (buffers tb3)" using g3 by (simp add: tb_grown_def)
  note pk3 = piece_ok_ext[OF pk ext]
  have "pt_ok f (buffers tb3) (piece_tree tb3)" using ok3(1) by (simp add: tb_ok_def)
  from pt_insert_correct[OF this pk3(2), of p] obtain t c where t:
    "pt_insert (piece_tree tb3) p loc bo (length s) (Some (count_nl s)) (buffers tb3) = Some (t, c)"
    "pt_ok f (buffers tb3) t" "pc_byte_offset c = min (p + length s) (pt_total_bytes t)"
    "pt_text f (buffers tb3) t = take p (tb_text f tb3) @ s @ drop p (tb_text f tb3)"
    unfolding pk3(1) tx by (auto simp: tb_text_def)
  have "insert_bytes fs tb p s = Some (tb3\<lparr>piece_tree := t\<rparr>, c)"
    using False t2 t3 t(1) by (simp add: insert_bytes_def Let_def)
  then show ?thesis using set_tree_ok[OF ok3(1) t(2)] ok3(2,3) t(3,4) fr2 fr3 False by simp
qed

lemma delete_bytes_correct:
  assumes "fs_contract f fs" "tb_ok f tb"
  shows "\<exists>tb'. delete_bytes fs tb p n = Some tb' \<and> tb_ok f tb' \<and>
           tb_text f tb' = take p (tb_text f tb) @ drop (p + n) (tb_text f tb) \<and>
           saved_text f tb' = saved_text f tb \<and>
           tb_version tb' = (if n = 0 \<or> length (tb_text f tb) \<le> p then tb_version tb
                             else tb_version tb + 1)"
proof -
  have len: "length (tb_text f tb) = pt_total_bytes (piece_tree tb)"
    using assms(2) pt_ok_length by (auto simp: tb_ok_def tb_text_def)
  show ?thesis
  proof (cases "n = 0 \<or> length (tb_text f tb) \<le> p")
    case True
    then show ?thesis using assms(2) len by (auto simp: delete_bytes_def)
  next
    case False
    obtain tb1 where t1: "ensure_chunk_loaded_at fs tb p = Some tb1" and g1: "tb_grown f tb tb1"
      and v1: "tb_version tb1 = tb_version tb"
      using ensure_chunk_loaded_grown[OF assms] by blast
    note ok1 = tb_grown_ok(1)[OF assms(2) g1]
    let ?fin = "min (p + n) (pt_total_bytes (piece_tree tb1))"
    obtain tb2' where t2: "ensure_chunk_loaded_at fs tb1 (?fin - 1) = Some tb2'"
      and g2: "tb_grown f tb1 tb2'" and v2: "tb_version tb2' = tb_version tb1"
      using ensure_chunk_loaded_grown[OF assms(1) ok1] by blast
    define step where "step = (if fk_line_feeds_scanned (file_kind tb) then do {
          tb1 \<leftarrow> ensure_chunk_loaded_at fs tb p;
          let fin = min (p + n) (pt_total_bytes (piece_tree tb1));
          if fin > p then ensure_chunk_loaded_at fs tb1 (fin - 1) else Some tb1
        } else Some tb)"
    have "step = Some tb \<or> step = Some tb1 \<or> step = Some tb2'"
      using t1 t2 by (simp add: step_def Let_def)
    then obtain tb2 where t: "step = Some tb2" "tb_grown f tb tb2" "tb_version tb2 = tb_version tb"
      using g1 tb_grown_trans[OF g1 g2] tb_grown_refl[OF assms(2)] v1 v2 by (elim disjE) auto
    note ok2 = tb_grown_ok[OF assms(2) t(2)]
    have "pt_ok f (buffers tb2) (piece_tree tb2)" using ok2(1) by (simp add: tb_ok_def)
    from pt_delete_correct[OF this, of p n] obtain t' where t':
      "pt_delete (piece_tree tb2) p n (buffers tb2) = Some t'" "pt_ok f (buffers tb2) t'"
      "pt_text f (buffers tb2) t' = take p (tb_text f tb2) @ drop (p + n) (tb_text f tb2)"
      by (auto simp: tb_text_def)
    have "delete_bytes fs tb p n = Some (mark_content_modified (tb2\<lparr>piece_tree := t'\<rparr>))"
      using False len t(1) t'(1) unfolding delete_bytes_def step_def[symmetric] by simp
    then show ?thesis using False set_tree_ok[OF ok2(1) t'(2)] ok2(2,3) t'(3) t(3) by simp
  qed
qed

lemma replace_content_correct:
  assumes "tb_ok f tb"
  shows "tb_ok f (replace_content tb s)" "tb_text f (replace_content tb s) = s"
    "saved_text f (replace_content tb s) = saved_text f tb"
proof -
  obtain tb1 i where pb: "push_buffer tb s = (tb1, i)" by force
  note g = push_buffer_grown[OF assms pb]
  note ok1 = tb_grown_ok[OF assms g(1)]
  let ?t = "if length s > 0 then pt_new (Added i) 0 (length s) (Some (count_nl s)) else pt_empty"
  have t: "pt_ok f (buffers tb1) ?t" "pt_text f (buffers tb1) ?t = s" using g(2,3) by auto
  have "replace_content tb s = mark_content_modified (tb1\<lparr>piece_tree := ?t\<rparr>)"
    by (simp add: replace_content_def pb)
  then show "tb_ok f (replace_content tb s)" "tb_text f (replace_content tb s) = s"
    "saved_text f (replace_content tb s) = saved_text f tb"
    using set_tree_ok[OF ok1(1) t(1)] t(2) ok1(3) by simp_all
qed

lemma restore_snapshot_text:
  "tb_text f (restore_buffer_state tb (snapshot_buffer_state tb0)) = tb_text f tb0"
  by (simp add: restore_buffer_state_def snapshot_buffer_state_def tb_text_def)

lemma get_all_text_correct:
  "tb_ok f tb \<Longrightarrow> get_all_text tb = Some bs \<Longrightarrow> bs = tb_text f tb"
  using read_range_correct[of f "buffers tb" "piece_tree tb" 0 "pt_total_bytes (piece_tree tb)" bs]
    pt_ok_length[of f "buffers tb" "piece_tree tb"]
  by (simp add: get_all_text_def get_text_range_def tb_ok_def tb_text_def)

lemma consolidate_small_file_correct:
  assumes "tb_ok f tb" "node_loaded (buffers tb) (root (piece_tree tb))"
  shows "tb_ok f (tb_mark_saved_snapshot (consolidate_small_file tb))"
    "tb_text f (tb_mark_saved_snapshot (consolidate_small_file tb)) = tb_text f tb"
    "saved_text f (tb_mark_saved_snapshot (consolidate_small_file tb)) = tb_text f tb"
    "\<not> p_modified (persistence (tb_mark_saved_snapshot (consolidate_small_file tb)))"
proof -
  have "pt_ok f (buffers tb) (piece_tree tb)" using assms(1) by (simp add: tb_ok_def)
  note rl = read_range_loaded[OF this assms(2), of 0 "pt_total_bytes (piece_tree tb)"]
  have "get_all_text tb \<noteq> None" using rl by (simp add: get_all_text_def get_text_range_def)
  then have all: "get_all_text tb = Some (tb_text f tb)" using get_all_text_correct[OF assms(1)] by auto
  let ?T = "tb_text f tb"
  let ?t = "if length ?T > 0 then pt_new (Stored 0) 0 (length ?T) (Some (count_nl ?T)) else pt_empty"
  have t: "pt_ok f [new_loaded 0 ?T True] ?t" "pt_text f [new_loaded 0 ?T True] ?t = ?T"
    by (auto simp: piece_ok_def piece_text_def slice_get_def)
  have eq: "consolidate_small_file tb =
      tb\<lparr>piece_tree := ?t, buffers := [new_loaded 0 ?T True], next_buffer_id := 1\<rparr>"
    by (simp add: consolidate_small_file_def all)
  show "tb_ok f (tb_mark_saved_snapshot (consolidate_small_file tb))"
    "tb_text f (tb_mark_saved_snapshot (consolidate_small_file tb)) = ?T"
    "saved_text f (tb_mark_saved_snapshot (consolidate_small_file tb)) = ?T"
    "\<not> p_modified (persistence (tb_mark_saved_snapshot (consolidate_small_file tb)))"
    using t unfolding eq
    by (simp_all add: tb_mark_saved_snapshot_def mark_saved_snapshot_def bump_save_state_def tb_ok_def
        tb_text_def saved_text_def pt_ok_def pt_text_def)
qed

subsection \<open>Bulk edits of a buffer\<close>

lemma push_edit_texts_correct:
  assumes "tb_ok f tb" "push_edit_texts tb edits acc = (tb', infos)"
  shows "tb_grown f tb tb' \<and> (\<exists>new. infos = acc @ new \<and>
           (\<forall>add. (\<forall>k<length new. add (length acc + k) = Some (new ! k)) \<longrightarrow>
              adds_text f (buffers tb') (\<lambda>idx _. map_option (\<lambda>i. (i, idx + 1)) (add idx)) (length acc) edits))"
  using assms
proof (induction tb edits acc rule: push_edit_texts.induct)
  case (1 tb acc)
  then show ?case by (auto simp: tb_grown_refl)
next
  case (2 tb p d s edits acc)
  show ?case
  proof (cases "s = []")
    case True
    then show ?thesis using 2 by simp
  next
    case False
    obtain tb1 i where pb: "push_buffer tb s = (tb1, i)" by force
    note g = push_buffer_grown[OF "2.prems"(1) pb]
    let ?info = "(Added i, 0, length s, Some (count_nl s))"
    have rest: "push_edit_texts tb1 edits (acc @ [?info]) = (tb', infos)"
      using "2.prems"(2) False pb by simp
    from "2.IH"(1)[OF False pb[symmetric] tb_grown_ok(1)[OF "2.prems"(1) g(1)] rest]
    obtain new where g': "tb_grown f tb1 tb'" and new: "infos = acc @ ?info # new" and adds:
      "\<forall>add. (\<forall>k<length new. add (length (acc @ [?info]) + k) = Some (new ! k)) \<longrightarrow>
         adds_text f (buffers tb') (\<lambda>idx _. map_option (\<lambda>i. (i, idx + 1)) (add idx))
           (length (acc @ [?info])) edits" by auto
    have "bufs_ext f (buffers tb1) (buffers tb')" using g' by (simp add: tb_grown_def)
    note pk = piece_ok_ext[OF g(2) this]
    have "adds_text f (buffers tb') (\<lambda>idx _. map_option (\<lambda>i. (i, idx + 1)) (add idx)) (length acc)
        ((p, d, s) # edits)"
      if add: "\<forall>k<length (?info # new). add (length acc + k) = Some ((?info # new) ! k)" for add
    proof -
      have "add (length acc) = Some ?info" using add[rule_format, of 0] by simp
      moreover have "\<forall>k<length new. add (length (acc @ [?info]) + k) = Some (new ! k)"
        using add[rule_format, of "Suc k" for k] by auto
      ultimately show ?thesis using adds False pk g(3) by simp
    qed
    then show ?thesis using tb_grown_trans[OF g(1) g'] new by blast
  qed
qed

lemma apply_bulk_edits_correct:
  assumes "tb_ok f tb" "bulk_ok (length (tb_text f tb)) edits"
  shows "\<exists>tb' delta. apply_bulk_edits tb edits = Some (tb', delta) \<and> tb_ok f tb' \<and>
           tb_text f tb' = foldl apply_edit (tb_text f tb) edits \<and>
           saved_text f tb' = saved_text f tb \<and>
           delta = int (length (tb_text f tb')) - int (length (tb_text f tb))"
proof -
  obtain tb1 infos where pe: "push_edit_texts tb edits [] = (tb1, infos)" by force
  note p = push_edit_texts_correct[OF assms(1) pe]
  then have g: "tb_grown f tb tb1" by blast
  note ok1 = tb_grown_ok[OF assms(1) g]
  have "next_info infos = (\<lambda>idx _. map_option (\<lambda>i. (i, idx + 1)) (slice_get infos idx))"
    by (intro ext) (simp add: next_info_def)
  then have adds: "adds_text f (buffers tb1) (next_info infos) 0 edits"
    using p by (auto simp: slice_get_def)
  have pt: "pt_ok f (buffers tb1) (piece_tree tb1)" using ok1(1) by (simp add: tb_ok_def)
  have len: "pt_total_bytes (piece_tree tb1) = length (tb_text f tb)"
    using pt_ok_length[OF pt] ok1(2) by (simp add: tb_text_def)
  from bulk_edits_correct[OF pt _ adds] assms(2) len obtain t st where t:
    "pt_apply_bulk_edits (piece_tree tb1) edits (buffers tb1) (next_info infos) 0 =
       Some (t, st, int (pt_total_bytes t) - int (length (tb_text f tb)))"
    "pt_ok f (buffers tb1) t" "pt_text f (buffers tb1) t = foldl apply_edit (tb_text f tb1) edits"
    by (auto simp: tb_text_def)
  have "apply_bulk_edits tb edits = Some (mark_content_modified (tb1\<lparr>piece_tree := t\<rparr>),
      int (pt_total_bytes t) - int (length (tb_text f tb)))"
    by (simp add: apply_bulk_edits_def pe t(1))
  then show ?thesis using set_tree_ok[OF ok1(1) t(2)] ok1(2,3) t(3) pt_ok_length[OF t(2)] by simp
qed

subsection \<open>Properties\<close>

text \<open>The text buffer provides the interface of an editable text.\<close>

interpretation tbuf: byte_sequence "\<lambda>tb. fs_contract f fs \<and> tb_ok f tb" "tb_text f"
  "\<lambda>tb p s. map_option fst (insert_bytes fs tb p s)" "delete_bytes fs"
  for f :: "string \<Rightarrow> byte list" and fs :: "'e FileSystem"
proof
  fix b p s assume "fs_contract f fs \<and> tb_ok f b"
  then show "\<exists>b'. map_option fst (insert_bytes fs b p s) = Some b' \<and> (fs_contract f fs \<and> tb_ok f b') \<and>
      tb_text f b' = take p (tb_text f b) @ s @ drop p (tb_text f b)"
    using insert_bytes_correct[of f fs b p s] by fastforce
next
  fix b p n assume "fs_contract f fs \<and> tb_ok f b"
  then show "\<exists>b'. delete_bytes fs b p n = Some b' \<and> (fs_contract f fs \<and> tb_ok f b') \<and>
      tb_text f b' = take p (tb_text f b) @ drop (p + n) (tb_text f b)"
    using delete_bytes_correct[of f fs b p n] by blast
qed

text \<open>A file system held in memory, and a document, used to instantiate the properties.\<close>

definition memory_fs :: "(string \<Rightarrow> byte list) \<Rightarrow> unit FileSystem" where
  "memory_fs files =
     \<lparr>fs_metadata_size = (\<lambda>p. Inr (length (files p))), fs_exists = (\<lambda>_. True),
      fs_read_file = (\<lambda>p. Inr (files p)),
      fs_read_range = (\<lambda>p off n. if length (take n (drop off (files p))) = n then Inr (take n (drop off (files p)))
                                 else Inl ()),
      fs_count_line_feeds_in_range = (\<lambda>p off n. Inr (count_nl (take n (drop off (files p)))))\<rparr>"

lemma memory_fs_contract: "fs_contract files (memory_fs files)"
  by (auto simp: fs_contract_def memory_fs_def read_range_contract_def split: if_splits)

lemma from_bytes_raw_ok: "tb_ok f (from_bytes_raw content)" "tb_text f (from_bytes_raw content) = content"
  "saved_text f (from_bytes_raw content) = content"
  by (auto simp: from_bytes_raw_def Let_def tb_ok_def tb_text_def saved_text_def persistence_new_def
      pt_text_def pt_new_def piece_ok_def piece_text_def slice_get_def line_feed_count_def sb_new_def
      compute_line_starts_def buffer_bytes_def sb_ok_def pt_ok_def pt_empty_def)

text \<open>
  C1: inserting bytes refines splicing them into the text, whichever way the bytes are stored
  (appended to the buffer of the piece before, or in a buffer of their own) and whatever is loaded
  first. The operation never panics, keeps the invariant of the text buffer, leaves the saved text
  alone, returns the cursor behind the insertion, bumps the 64-bit version once and marks the
  buffer modified, except for an empty insertion, which changes nothing.
\<close>

theorem insert_bytes_refines:
  assumes "fs_contract files fs" and "tb_ok files tb"
  shows "\<exists>tb' c. insert_bytes fs tb p s = Some (tb', c) \<and> tb_ok files tb' \<and>
           tb_text files tb' = take p (tb_text files tb) @ s @ drop p (tb_text files tb) \<and>
           saved_text files tb' = saved_text files tb \<and>
           pc_byte_offset c = min (p + length s) (length (tb_text files tb')) \<and>
           tb_version tb' = (if s = [] then tb_version tb else tb_version tb + 1) \<and>
           (p_modified (persistence tb') \<longleftrightarrow> p_modified (persistence tb) \<or> s \<noteq> [])"
proof -
  have "length (tb_text files tb') = pt_total_bytes (piece_tree tb')" if "tb_ok files tb'" for tb'
    using that by (simp add: tb_ok_def tb_text_def pt_ok_length)
  then show ?thesis using insert_bytes_correct[OF assms, of p s] by fastforce
qed

theorem insert_bytes_refines_witness:
  "\<exists>tb' c. insert_bytes (memory_fs (\<lambda>_. [])) (from_bytes_raw [97, 98]) 1 [10] = Some (tb', c) \<and>
     tb_text (\<lambda>_. []) tb' = [97, 10, 98] \<and> tb_version tb' = 1"
  using insert_bytes_refines[OF memory_fs_contract from_bytes_raw_ok(1), of "\<lambda>_. []" "[97, 98]" 1 "[10]"]
  by (auto simp: from_bytes_raw_ok(2)) (auto simp: from_bytes_raw_def Let_def)

text \<open>
  C2: deleting bytes refines cutting them out of the text, for every range, also one past the end.
  The operation never panics although it may load chunks of the file first, keeps the invariant and
  the saved text, and bumps the version exactly when the range holds a byte.
\<close>

theorem delete_bytes_refines:
  assumes "fs_contract files fs" and "tb_ok files tb"
  shows "\<exists>tb'. delete_bytes fs tb p n = Some tb' \<and> tb_ok files tb' \<and>
           tb_text files tb' = take p (tb_text files tb) @ drop (p + n) (tb_text files tb) \<and>
           saved_text files tb' = saved_text files tb \<and>
           tb_version tb' = (if n = 0 \<or> length (tb_text files tb) \<le> p then tb_version tb
                             else tb_version tb + 1)"
  by (rule delete_bytes_correct[OF assms])

theorem delete_bytes_refines_witness:
  "\<exists>tb'. delete_bytes (memory_fs (\<lambda>_. [])) (from_bytes_raw [97, 98, 10, 99]) 1 2 = Some tb' \<and>
     tb_text (\<lambda>_. []) tb' = [97, 99]"
  using delete_bytes_refines[OF memory_fs_contract from_bytes_raw_ok(1),
      of "\<lambda>_. []" "[97, 98, 10, 99]" 1 2]
  by (auto simp: from_bytes_raw_ok(2))

text \<open>
  C12: every script of insertions and deletions runs to its end, and the text is what the script
  makes of the initial text as a plain list of bytes: the piece tree, the append buffers and lazy
  loading are not observable through editing.
\<close>

theorem edit_script_refines:
  assumes "fs_contract files fs" and "tb_ok files tb"
  shows "\<exists>tb'. run_edits (\<lambda>tb p s. map_option fst (insert_bytes fs tb p s)) (delete_bytes fs) tb es =
             Some tb' \<and> tb_ok files tb' \<and> tb_text files tb' = foldl edit_list (tb_text files tb) es"
  using tbuf.run_edits_correct[of files fs tb es] assms by blast

theorem edit_script_refines_witness:
  "\<exists>tb'. run_edits (\<lambda>tb p s. map_option fst (insert_bytes (memory_fs (\<lambda>_. [])) tb p s))
       (delete_bytes (memory_fs (\<lambda>_. []))) (from_bytes_raw [97, 98]) [Ins 2 [99, 100], Del 0 3] =
       Some tb' \<and> tb_text (\<lambda>_. []) tb' = [100]"
  using edit_script_refines[OF memory_fs_contract from_bytes_raw_ok(1),
      of "\<lambda>_. []" "[97, 98]" "[Ins 2 [99, 100], Del 0 3]"]
  by (auto simp: from_bytes_raw_ok(2) numeral_3_eq_3)

text \<open>
  A script of edits is undone by the inverse edits in reverse order: inserting what was
  deleted and deleting what was inserted restores the text byte for byte.
\<close>

theorem edit_script_undone:
  assumes "fs_contract files fs" and "tb_ok files tb" and "edits_inside (tb_text files tb) es"
  shows "\<exists>tb'. run_edits (\<lambda>tb p s. map_option fst (insert_bytes fs tb p s)) (delete_bytes fs) tb
             (es @ edits_inverse (tb_text files tb) es) = Some tb' \<and> tb_ok files tb' \<and>
           tb_text files tb' = tb_text files tb"
  using tbuf.run_edits_undone[of files fs tb es] assms by blast

theorem edit_script_undone_witness:
  "\<exists>tb'. run_edits (\<lambda>tb p s. map_option fst (insert_bytes (memory_fs (\<lambda>_. [])) tb p s))
       (delete_bytes (memory_fs (\<lambda>_. []))) (from_bytes_raw [97, 98])
       [Ins 1 [99], Del 0 2, Ins 0 [97, 99], Del 1 1] = Some tb' \<and> tb_text (\<lambda>_. []) tb' = [97, 98]"
  using edit_script_undone[OF memory_fs_contract from_bytes_raw_ok(1),
      of "\<lambda>_. []" "[97, 98]" "[Ins 1 [99], Del 0 2]"]
  by (auto simp: from_bytes_raw_ok(2) numeral_2_eq_2)

text \<open>
  C3: a bulk edit (edits given by original offsets from the end of the document to its start, as
  multi-cursor typing and replace-all produce them) is equivalent to applying the edits one after
  the other. It never panics, keeps the invariant and the saved text, and returns the change of
  the length.
\<close>

theorem bulk_edit_sequential:
  assumes "tb_ok files tb" and "bulk_ok (length (tb_text files tb)) edits"
  shows "\<exists>tb' delta. apply_bulk_edits tb edits = Some (tb', delta) \<and> tb_ok files tb' \<and>
           tb_text files tb' = foldl apply_edit (tb_text files tb) edits \<and>
           saved_text files tb' = saved_text files tb \<and>
           delta = int (length (tb_text files tb')) - int (length (tb_text files tb))"
  by (rule apply_bulk_edits_correct[OF assms])

theorem bulk_edit_sequential_witness:
  "\<exists>tb' delta. apply_bulk_edits (from_bytes_raw [97, 98, 97]) [(2, 1, [100, 101]), (0, 1, [])] =
       Some (tb', delta) \<and> tb_text (\<lambda>_. []) tb' = [98, 100, 101] \<and> delta = 0"
proof -
  have "bulk_ok (length (tb_text (\<lambda>_. []) (from_bytes_raw [97, 98, 97]))) [(2, 1, [100, 101]), (0, 1, [])]"
    by (simp add: from_bytes_raw_ok(2))
  from bulk_edit_sequential[OF from_bytes_raw_ok(1) this] show ?thesis
    by (auto simp: from_bytes_raw_ok(2))
qed

text \<open>
  A snapshot brings its text back, whatever happened to the buffer in between (edits, saves
  that replace all string buffers), and counts as a new modification.
\<close>

theorem snapshot_restores_text:
  "tb_text files (restore_buffer_state tb (snapshot_buffer_state tb0)) = tb_text files tb0 \<and>
   p_modified (persistence (restore_buffer_state tb (snapshot_buffer_state tb0))) \<and>
   tb_version (restore_buffer_state tb (snapshot_buffer_state tb0)) = tb_version tb + 1"
  using restore_snapshot_text[of files tb tb0] by (simp add: restore_buffer_state_def)

end
