(* ===== verification/Save_Recipe.thy ===== *)
theory Save_Recipe
  imports Text_Buffer
begin

text \<open>
  What a save writes (\<open>model/buffer/save.rs\<close>): the recipe of copies from the old file and of inserted
  data, built from the pieces of the tree, and the two ways to execute it, locally
  (\<open>write_recipe\<close>) and by the remote agent (the default \<open>write_patched\<close> of \<open>model/filesystem.rs\<close>). The
  conversion to another encoding is a parameter \<open>conv_enc\<close> of the builder (\<open>format::convert_to_encoding\<close>,
  which hands the bytes to the \<open>encoding_rs\<close> package). Offsets and lengths are \<open>usize\<close> values cast to
  \<open>u64\<close>, which loses nothing, and stay numbers.
\<close>

subsection \<open>Recipes\<close>

datatype RecipeAction = Copy nat nat | Insert nat

record WriteRecipe =
  wr_src_path :: "string option"
  wr_insert_data :: "byte list list"
  wr_actions :: "RecipeAction list"

datatype WriteOp = OpCopy nat nat | OpInsert "byte list"

datatype 'e save_error = Piece_buffer_not_found nat | Copy_without_source | Save_io 'e

definition recipe_empty :: WriteRecipe where
  "recipe_empty = \<lparr>wr_src_path = None, wr_insert_data = [], wr_actions = []\<rparr>"

text \<open>Indexing \<open>insert_data\<close> out of range panics.\<close>

fun actions_len :: "byte list list \<Rightarrow> RecipeAction list \<Rightarrow> nat option" where
  "actions_len data [] = Some 0"
| "actions_len data (Copy offset len # rest) = map_option ((+) len) (actions_len data rest)"
| "actions_len data (Insert index # rest) = do {
     d \<leftarrow> slice_get data index;
     n \<leftarrow> actions_len data rest;
     Some (length d + n)
   }"

definition recipe_len :: "WriteRecipe \<Rightarrow> nat option" where
  "recipe_len r = actions_len (wr_insert_data r) (wr_actions r)"

fun actions_ops :: "byte list list \<Rightarrow> RecipeAction list \<Rightarrow> WriteOp list option" where
  "actions_ops data [] = Some []"
| "actions_ops data (Copy offset len # rest) = map_option ((#) (OpCopy offset len)) (actions_ops data rest)"
| "actions_ops data (Insert index # rest) = do {
     d \<leftarrow> slice_get data index;
     ops \<leftarrow> actions_ops data rest;
     Some (OpInsert d # ops)
   }"

definition to_write_ops :: "WriteRecipe \<Rightarrow> WriteOp list option" where
  "to_write_ops r = actions_ops (wr_insert_data r) (wr_actions r)"

definition has_copy_ops :: "WriteRecipe \<Rightarrow> bool" where
  "has_copy_ops r = list_ex (\<lambda>a. case a of Copy _ _ \<Rightarrow> True | Insert _ \<Rightarrow> False) (wr_actions r)"

fun flatten_actions :: "byte list list \<Rightarrow> RecipeAction list \<Rightarrow> byte list option" where
  "flatten_actions data [] = Some []"
| "flatten_actions data (Insert index # rest) = do {
     d \<leftarrow> slice_get data index;
     bs \<leftarrow> flatten_actions data rest;
     Some (d @ bs)
   }"
| "flatten_actions data (Copy offset len # rest) = flatten_actions data rest"

definition flatten_inserts :: "WriteRecipe \<Rightarrow> byte list option" where
  "flatten_inserts r = flatten_actions (wr_insert_data r) (wr_actions r)"

subsection \<open>Choosing the format to save in\<close>

definition tb_set_line_ending :: "TextBuffer \<Rightarrow> LineEnding \<Rightarrow> TextBuffer" where
  "tb_set_line_ending tb le = mark_content_modified (tb\<lparr>tb_format := set_line_ending (tb_format tb) le\<rparr>)"

definition tb_set_default_line_ending :: "TextBuffer \<Rightarrow> LineEnding \<Rightarrow> TextBuffer" where
  "tb_set_default_line_ending tb le = tb\<lparr>tb_format := set_default_line_ending (tb_format tb) le\<rparr>"

definition tb_set_encoding :: "TextBuffer \<Rightarrow> Encoding \<Rightarrow> TextBuffer" where
  "tb_set_encoding tb enc = mark_content_modified (tb\<lparr>tb_format := set_encoding (tb_format tb) enc\<rparr>)"

definition tb_set_default_encoding :: "TextBuffer \<Rightarrow> Encoding \<Rightarrow> TextBuffer" where
  "tb_set_default_encoding tb enc = tb\<lparr>tb_format := set_default_encoding (tb_format tb) enc\<rparr>"

subsection \<open>Building\<close>

definition convert_data ::
  "(byte list \<Rightarrow> Encoding \<Rightarrow> byte list) \<Rightarrow> BufferFormat \<Rightarrow> bool \<Rightarrow> bool \<Rightarrow> byte list \<Rightarrow> byte list" where
  "convert_data conv_enc fm needs_line_ending_conversion needs_encoding_conversion data =
     (let data1 = (if needs_line_ending_conversion then convert_line_endings_to data (bf_line_ending fm)
                   else data)
      in if needs_encoding_conversion then conv_enc data1 (bf_encoding fm) else data1)"

text \<open>
  The loop over the pieces. \<open>conv\<close> is the conversion of a chunk; the outer option is the panic of
  slicing \<open>data[start..end]\<close>.
\<close>

fun recipe_loop ::
  "'e FileSystem \<Rightarrow> (byte list \<Rightarrow> byte list) \<Rightarrow> StringBuffer list \<Rightarrow> string option \<Rightarrow> PieceView list
   \<Rightarrow> byte list list \<Rightarrow> RecipeAction list
   \<Rightarrow> ('e save_error + byte list list \<times> RecipeAction list) option" where
  "recipe_loop fs conv bufs src [] insert_data actions = Some (Inr (insert_data, actions))"
| "recipe_loop fs conv bufs src (pv # pvs) insert_data actions =
     (let i = buffer_id (pv_location pv) in
      case slice_get bufs i of
        None \<Rightarrow> Some (Inl (Piece_buffer_not_found i))
      | Some buffer \<Rightarrow>
          (case sb_data buffer of
             Unloaded file_path file_offset _ \<Rightarrow>
               (let can_copy = ((case pv_location pv of Stored _ \<Rightarrow> True | Added _ \<Rightarrow> False) \<and>
                                src = Some file_path);
                    src_offset = file_offset + pv_buffer_offset pv in
                if can_copy then
                  recipe_loop fs conv bufs src pvs insert_data
                    (actions @ [Copy src_offset (pv_bytes pv)])
                else
                  (case fs_read_range fs file_path src_offset (pv_bytes pv) of
                     Inl e \<Rightarrow> Some (Inl (Save_io e))
                   | Inr data \<Rightarrow>
                       recipe_loop fs conv bufs src pvs (insert_data @ [conv data])
                         (actions @ [Insert (length insert_data)])))
           | Loaded data _ \<Rightarrow> do {
               chunk \<leftarrow> index_range data (pv_buffer_offset pv) (pv_buffer_offset pv + pv_bytes pv);
               recipe_loop fs conv bufs src pvs (insert_data @ [conv chunk])
                 (actions @ [Insert (length insert_data)])
             }))"

definition needs_line_ending_conversion :: "BufferFormat \<Rightarrow> bool" where
  "needs_line_ending_conversion fm \<longleftrightarrow>
     line_ending_changed_since_load fm \<or> (bf_line_ending fm = CR \<and> bf_line_endings_normalized fm)"

definition needs_encoding_conversion :: "BufferFormat \<Rightarrow> BufferFileKind \<Rightarrow> bool" where
  "needs_encoding_conversion fm fk \<longleftrightarrow>
     \<not> fk_is_binary fk \<and>
     (encoding_changed_since_load fm \<or> \<not> (bf_encoding fm = Utf8 \<or> bf_encoding fm = Ascii))"

definition build_write_recipe ::
  "(byte list \<Rightarrow> Encoding \<Rightarrow> byte list) \<Rightarrow> 'e FileSystem \<Rightarrow> TextBuffer
   \<Rightarrow> ('e save_error + WriteRecipe) option" where
  "build_write_recipe conv_enc fs tb =
     (let fm = tb_format tb;
          total_bytes = pt_total_bytes (piece_tree tb);
          le = needs_line_ending_conversion fm;
          enc = needs_encoding_conversion fm (file_kind tb);
          src = (if le \<or> enc then None
                 else (case p_file_path (persistence tb) of
                         Some p \<Rightarrow> if fs_exists fs p then Some p else None
                       | None \<Rightarrow> None));
          (insert_data, actions) = (case bom_bytes (bf_encoding fm) of
                                      Some bom \<Rightarrow> ([bom], [Insert 0]) | None \<Rightarrow> ([], []))
      in map_option (map_sum id (\<lambda>(data, acts).
             \<lparr>wr_src_path = src, wr_insert_data = data, wr_actions = acts\<rparr>))
           (recipe_loop fs (convert_data conv_enc fm le enc) (buffers tb) src
              (iter_pieces_in_range (piece_tree tb) 0 total_bytes) insert_data actions))"

subsection \<open>Executing\<close>

text \<open>\<open>write_recipe\<close> into a vector, as a local save does.\<close>

fun write_actions ::
  "'e FileSystem \<Rightarrow> string option \<Rightarrow> byte list list \<Rightarrow> RecipeAction list \<Rightarrow> byte list
   \<Rightarrow> ('e save_error + byte list) option" where
  "write_actions fs src data [] out = Some (Inr out)"
| "write_actions fs src data (Copy offset len # rest) out =
     (case src of
        None \<Rightarrow> Some (Inl Copy_without_source)
      | Some src_path \<Rightarrow>
          (case fs_read_range fs src_path offset len of
             Inl e \<Rightarrow> Some (Inl (Save_io e))
           | Inr bs \<Rightarrow> write_actions fs src data rest (out @ bs)))"
| "write_actions fs src data (Insert index # rest) out = do {
     d \<leftarrow> slice_get data index;
     write_actions fs src data rest (out @ d)
   }"

definition write_recipe :: "'e FileSystem \<Rightarrow> WriteRecipe \<Rightarrow> ('e save_error + byte list) option" where
  "write_recipe fs r = write_actions fs (wr_src_path r) (wr_insert_data r) (wr_actions r) []"

text \<open>The bytes the default \<open>write_patched\<close> collects before it writes the file.\<close>

fun patched_bytes :: "'e FileSystem \<Rightarrow> string \<Rightarrow> WriteOp list \<Rightarrow> byte list \<Rightarrow> 'e + byte list" where
  "patched_bytes fs src_path [] buffer = Inr buffer"
| "patched_bytes fs src_path (OpCopy offset len # ops) buffer =
     (case fs_read_range fs src_path offset len of
        Inl e \<Rightarrow> Inl e
      | Inr data \<Rightarrow> patched_bytes fs src_path ops (buffer @ data))"
| "patched_bytes fs src_path (OpInsert data # ops) buffer = patched_bytes fs src_path ops (buffer @ data)"

definition file_read_by_save :: "TextBuffer \<Rightarrow> string option" where
  "file_read_by_save tb =
     (let found = List.map_filter (\<lambda>pv. Option.bind (slice_get (buffers tb) (buffer_id (pv_location pv)))
                    (\<lambda>b. case sb_data b of Unloaded file_path _ _ \<Rightarrow> Some file_path | Loaded _ _ \<Rightarrow> None))
                  (iter_pieces_in_range (piece_tree tb) 0 (pt_total_bytes (piece_tree tb)))
      in case found of [] \<Rightarrow> None | p # _ \<Rightarrow> Some p)"

subsection \<open>What a recipe stands for\<close>

definition view_text :: "(string \<Rightarrow> byte list) \<Rightarrow> StringBuffer list \<Rightarrow> PieceView \<Rightarrow> byte list" where
  "view_text f b pv = piece_text f b (pv_location pv) (pv_buffer_offset pv) (pv_bytes pv)"

definition in_buffer :: "(string \<Rightarrow> byte list) \<Rightarrow> StringBuffer list \<Rightarrow> BufferLocation \<Rightarrow> nat \<Rightarrow> nat \<Rightarrow> bool" where
  "in_buffer f bufs loc off n \<longleftrightarrow>
     (case slice_get bufs (buffer_id loc) of
        Some b \<Rightarrow> off + n \<le> length (buffer_bytes f b) | None \<Rightarrow> False)"

text \<open>Every leaf, also an empty one, lies inside a buffer that exists.\<close>

definition leaves_in_buffers :: "(string \<Rightarrow> byte list) \<Rightarrow> TextBuffer \<Rightarrow> bool" where
  "leaves_in_buffers f tb \<longleftrightarrow>
     list_all (\<lambda>ld. in_buffer f (buffers tb) (ld_location ld) (ld_offset ld) (ld_bytes ld))
       (node_leaves (root (piece_tree tb)))"

lemma all_pieces_text:
  assumes "caches_ok n" "s \<le> doc" "doc + node_total_bytes n \<le> e"
    and "list_all (ld_ok f b) (node_leaves n)"
  shows "concat (map (view_text f b) (collect_pieces n doc s e [])) = node_text f b n"
  using assms
proof (induction n arbitrary: doc)
  case (Internal lb lf l r)
  have ok: "node_ok f b l" "node_ok f b r" using Internal.prems by (simp_all add: node_ok_def)
  have "node_text f b l = []" if "\<not> s < doc + lb"
    using that Internal.prems node_ok_length[OF ok(1)] by (simp flip: length_0_conv)
  moreover have "node_text f b r = []" if "\<not> doc + lb < e"
    using that Internal.prems node_ok_length[OF ok(2)] by (simp flip: length_0_conv)
  ultimately show ?case
    using Internal by (simp add: collect_pieces_Internal del: collect_pieces.simps)
next
  case (Leaf loc off n lf)
  then have "length (piece_text f b loc off n) = n" by (simp add: piece_ok_def)
  moreover have "n = 0" if "\<not> (s < doc + n \<and> doc < e)" using that Leaf.prems by auto
  ultimately show ?case by (auto simp: view_text_def Let_def)
qed

lemma collect_pieces_in_buffer:
  "list_all (\<lambda>ld. in_buffer f b (ld_location ld) (ld_offset ld) (ld_bytes ld)) (node_leaves n) \<Longrightarrow>
   pv \<in> set (collect_pieces n doc s e []) \<Longrightarrow> in_buffer f b (pv_location pv) (pv_buffer_offset pv) (pv_bytes pv)"
  by (induction n arbitrary: doc) (auto simp: collect_pieces_Internal Let_def simp del: collect_pieces.simps(1) split: if_splits)

fun action_text :: "(string \<Rightarrow> byte list) \<Rightarrow> string option \<Rightarrow> byte list list \<Rightarrow> RecipeAction \<Rightarrow> byte list" where
  "action_text f src data (Copy offset n) = take n (drop offset (f (the src)))"
| "action_text f src data (Insert i) = data ! i"

fun action_ok :: "(string \<Rightarrow> byte list) \<Rightarrow> string option \<Rightarrow> byte list list \<Rightarrow> RecipeAction \<Rightarrow> bool" where
  "action_ok f src data (Copy offset n) \<longleftrightarrow> src \<noteq> None \<and> length (take n (drop offset (f (the src)))) = n"
| "action_ok f src data (Insert i) \<longleftrightarrow> i < length data"

definition actions_text where
  "actions_text f src data acts = concat (map (action_text f src data) acts)"

definition actions_ok where
  "actions_ok f src data acts \<longleftrightarrow> list_all (action_ok f src data) acts"

lemma action_more_data:
  "action_ok f src data a \<Longrightarrow> action_ok f src (data @ x) a"
  "action_ok f src data a \<Longrightarrow> action_text f src (data @ x) a = action_text f src data a"
  by (cases a; simp add: nth_append)+

lemma actions_more_data:
  "actions_ok f src data acts \<Longrightarrow> actions_ok f src (data @ x) acts"
  "actions_ok f src data acts \<Longrightarrow> actions_text f src (data @ x) acts = actions_text f src data acts"
  by (induction acts) (auto simp: actions_ok_def actions_text_def action_more_data)

lemma actions_snoc [simp]:
  "actions_ok f src data (acts @ [a]) \<longleftrightarrow> actions_ok f src data acts \<and> action_ok f src data a"
  "actions_text f src data (acts @ [a]) = actions_text f src data acts @ action_text f src data a"
  by (auto simp: actions_ok_def actions_text_def)

lemma in_bufferE:
  assumes "in_buffer f bufs loc off n"
  obtains b where "slice_get bufs (buffer_id loc) = Some b" "off + n \<le> length (buffer_bytes f b)"
    "piece_text f bufs loc off n = take n (drop off (buffer_bytes f b))"
  using assms by (auto simp: in_buffer_def piece_text_def split: option.splits)

text \<open>The file system serves every range that lies inside a file.\<close>

definition fs_serves :: "(string \<Rightarrow> byte list) \<Rightarrow> 'e FileSystem \<Rightarrow> bool" where
  "fs_serves f fs \<longleftrightarrow>
     (\<forall>p off n. length (take n (drop off (f p))) = n \<longrightarrow> fs_read_range fs p off n = Inr (take n (drop off (f p))))"

lemma unloaded_slice:
  assumes "off + n \<le> length (take m (drop fo xs))"
  shows "take n (drop off (take m (drop fo xs))) = take n (drop (fo + off) xs)"
    "length (take n (drop (fo + off) xs)) = n"
  using assms by (auto simp: drop_take take_take add.commute min_def split: if_splits)

lemma recipe_loop_correct:
  assumes "fs_serves f fs" "src \<noteq> None \<Longrightarrow> conv = id"
    and "\<forall>pv\<in>set pvs. in_buffer f bufs (pv_location pv) (pv_buffer_offset pv) (pv_bytes pv)"
    and "actions_ok f src data acts"
  shows "\<exists>data' acts'. recipe_loop fs conv bufs src pvs data acts = Some (Inr (data', acts')) \<and>
           actions_ok f src data' acts' \<and>
           actions_text f src data' acts' =
             actions_text f src data acts @ concat (map (\<lambda>pv. conv (view_text f bufs pv)) pvs)"
  using assms(3,4)
proof (induction pvs arbitrary: data acts)
  case (Cons pv pvs)
  let ?o = "pv_buffer_offset pv" and ?n = "pv_bytes pv"
  obtain b where b: "slice_get bufs (buffer_id (pv_location pv)) = Some b"
      "?o + ?n \<le> length (buffer_bytes f b)" "view_text f bufs pv = take ?n (drop ?o (buffer_bytes f b))"
    using Cons.prems(1) by (auto simp: view_text_def elim: in_bufferE)
  have ins: ?case if "recipe_loop fs conv bufs src (pv # pvs) data acts =
      recipe_loop fs conv bufs src pvs (data @ [conv (view_text f bufs pv)]) (acts @ [Insert (length data)])"
    unfolding that
    using Cons.IH[of "data @ [conv (view_text f bufs pv)]" "acts @ [Insert (length data)]"] Cons.prems
      actions_more_data[OF Cons.prems(2)] by simp
  show ?case
  proof (cases "sb_data b")
    case (Loaded bs ls)
    then show ?thesis using b by (intro ins) (simp add: buffer_bytes_def index_range_def)
  next
    case (Unloaded p fo m)
    note sl = unloaded_slice[of ?o ?n m fo "f p"]
    have v: "view_text f bufs pv = take ?n (drop (fo + ?o) (f p))"
      "length (take ?n (drop (fo + ?o) (f p))) = ?n"
      using b(2,3) Unloaded sl by (simp_all add: buffer_bytes_def)
    show ?thesis
    proof (cases "(case pv_location pv of Stored _ \<Rightarrow> True | Added _ \<Rightarrow> False) \<and> src = Some p")
      case True
      then have "conv = id" using assms(2) by simp
      then show ?thesis using True b(1) Unloaded v Cons.prems
          Cons.IH[of data "acts @ [Copy (fo + ?o) ?n]"] by simp
    next
      case False
      have "fs_read_range fs p (fo + ?o) ?n = Inr (view_text f bufs pv)"
        using assms(1) v unfolding fs_serves_def by metis
      then show ?thesis using False b(1) Unloaded by (intro ins) (auto simp: Let_def)
    qed
  qed
qed simp

lemma write_actions_correct:
  "fs_serves f fs \<Longrightarrow> actions_ok f src data acts \<Longrightarrow>
   write_actions fs src data acts out = Some (Inr (out @ actions_text f src data acts))"
  by (induction acts arbitrary: out rule: actions_len.induct)
     (auto simp: actions_ok_def actions_text_def fs_serves_def slice_get_def)

lemma patched_bytes_correct:
  assumes "fs_serves f fs" "actions_ok f (Some p) data acts"
  shows "\<exists>ops. actions_ops data acts = Some ops \<and>
           patched_bytes fs p ops out = Inr (out @ actions_text f (Some p) data acts)"
  using assms(2)
proof (induction acts arbitrary: out rule: actions_len.induct)
  case (2 data offset n rest)
  then show ?case using assms(1) "2.IH"[of "out @ take n (drop offset (f p))"]
    by (fastforce simp: actions_ok_def actions_text_def fs_serves_def)
next
  case (3 data i rest)
  then show ?case using "3.IH"[of "data ! i" "out @ data ! i"]
    by (fastforce simp: actions_ok_def actions_text_def slice_get_def)
qed (simp add: actions_text_def)

lemma recipe_len_correct:
  "actions_ok f src data acts \<Longrightarrow> actions_len data acts = Some (length (actions_text f src data acts))"
  by (induction acts rule: actions_len.induct) (auto simp: actions_ok_def actions_text_def slice_get_def)

lemma flatten_correct:
  "actions_ok f None data acts \<Longrightarrow> flatten_actions data acts = Some (actions_text f None data acts)"
  by (induction acts rule: actions_len.induct) (auto simp: actions_ok_def actions_text_def slice_get_def)

subsection \<open>What is written\<close>

definition bom_prefix :: "Encoding \<Rightarrow> byte list" where
  "bom_prefix enc = (case bom_bytes enc of Some bom \<Rightarrow> bom | None \<Rightarrow> [])"

lemma build_write_recipe_correct:
  assumes "fs_serves f fs" "leaves_in_buffers f tb"
  defines "le \<equiv> needs_line_ending_conversion (tb_format tb)"
    and "enc \<equiv> needs_encoding_conversion (tb_format tb) (file_kind tb)"
  shows "\<exists>r. build_write_recipe conv_enc fs tb = Some (Inr r) \<and>
           actions_ok f (wr_src_path r) (wr_insert_data r) (wr_actions r) \<and>
           actions_text f (wr_src_path r) (wr_insert_data r) (wr_actions r) =
             bom_prefix (bf_encoding (tb_format tb)) @
             concat (map (\<lambda>pv. convert_data conv_enc (tb_format tb) le enc (view_text f (buffers tb) pv))
               (iter_pieces_in_range (piece_tree tb) 0 (pt_total_bytes (piece_tree tb)))) \<and>
           (le \<or> enc \<longrightarrow> wr_src_path r = None)"
proof -
  define src where "src = (if le \<or> enc then None
                 else (case p_file_path (persistence tb) of
                         Some p \<Rightarrow> if fs_exists fs p then Some p else None
                       | None \<Rightarrow> None))"
  define init where "init = (case bom_bytes (bf_encoding (tb_format tb)) of
      Some bom \<Rightarrow> ([bom], [Insert 0]) | None \<Rightarrow> ([], []))"
  let ?conv = "convert_data conv_enc (tb_format tb) le enc"
  let ?pvs = "iter_pieces_in_range (piece_tree tb) 0 (pt_total_bytes (piece_tree tb))"
  have id: "?conv = id" if "src \<noteq> None"
    using that by (auto simp: src_def convert_data_def fun_eq_iff split: if_splits)
  have pvs: "\<forall>pv\<in>set ?pvs. in_buffer f (buffers tb) (pv_location pv) (pv_buffer_offset pv) (pv_bytes pv)"
    using assms(2) collect_pieces_in_buffer by (fastforce simp: leaves_in_buffers_def iter_pieces_in_range_def)
  have init_ok: "actions_ok f src (fst init) (snd init)"
    "actions_text f src (fst init) (snd init) = bom_prefix (bf_encoding (tb_format tb))"
    by (auto simp: init_def actions_ok_def actions_text_def bom_prefix_def split: option.splits)
  obtain d a where "recipe_loop fs ?conv (buffers tb) src ?pvs (fst init) (snd init) = Some (Inr (d, a))"
    "actions_ok f src d a"
    "actions_text f src d a = bom_prefix (bf_encoding (tb_format tb)) @
       concat (map (\<lambda>pv. ?conv (view_text f (buffers tb) pv)) ?pvs)"
    using recipe_loop_correct[OF assms(1) id pvs init_ok(1)] init_ok(2) by auto
  then show ?thesis
    unfolding build_write_recipe_def Let_def init_def[symmetric] src_def[symmetric]
      le_def[symmetric] enc_def[symmetric]
    by (auto simp: case_prod_unfold src_def)
qed

lemma document_pieces_text:
  assumes "tb_ok f tb"
  shows "concat (map (view_text f (buffers tb))
           (iter_pieces_in_range (piece_tree tb) 0 (pt_total_bytes (piece_tree tb)))) = tb_text f tb"
  using assms all_pieces_text[of "root (piece_tree tb)" 0 0 "pt_total_bytes (piece_tree tb)" f "buffers tb"]
  by (simp add: tb_ok_def pt_ok_def node_ok_def iter_pieces_in_range_def tb_text_def pt_text_def)

lemma expand_ending_append: "expand_ending le (xs @ ys) = expand_ending le xs @ expand_ending le ys"
  by (simp add: expand_ending_def)

lemma convert_pieces:
  assumes "carriage_return \<notin> set (concat (map v pvs))"
  shows "concat (map (\<lambda>pv. convert_line_endings_to (v pv) le) pvs) =
           convert_line_endings_to (concat (map v pvs)) le"
  using assms
  by (induction pvs) (simp_all add: convert_expand normalize_id expand_ending_append)

lemma written_bytes:
  assumes "fs_serves f fs" "actions_ok f (wr_src_path r) (wr_insert_data r) (wr_actions r)"
  shows "write_recipe fs r =
           Some (Inr (actions_text f (wr_src_path r) (wr_insert_data r) (wr_actions r)))"
    and "recipe_len r = Some (length (actions_text f (wr_src_path r) (wr_insert_data r) (wr_actions r)))"
  using write_actions_correct[OF assms] recipe_len_correct[OF assms(2)]
  by (simp_all add: write_recipe_def recipe_len_def)

text \<open>
  C4: A save that converts nothing writes exactly the document. For any consistent buffer, loaded or
  not, edited or not, building the recipe neither fails nor panics, and executing it
  writes the byte order mark of the encoding followed by the text; the length announced for the
  recipe is the number of bytes written; and where the recipe refers to the old file, the
  operations handed to a remote agent produce the same bytes as the local execution.
\<close>

theorem save_writes_document:
  assumes "fs_serves f fs" "tb_ok f tb" "leaves_in_buffers f tb"
    and "\<not> needs_line_ending_conversion (tb_format tb)"
    and "\<not> needs_encoding_conversion (tb_format tb) (file_kind tb)"
  shows "\<exists>r. build_write_recipe conv_enc fs tb = Some (Inr r) \<and>
           write_recipe fs r = Some (Inr (bom_prefix (bf_encoding (tb_format tb)) @ tb_text f tb)) \<and>
           recipe_len r = Some (length (bom_prefix (bf_encoding (tb_format tb)) @ tb_text f tb)) \<and>
           (\<forall>p. wr_src_path r = Some p \<longrightarrow>
              (\<exists>ops. to_write_ops r = Some ops \<and>
                patched_bytes fs p ops [] = Inr (bom_prefix (bf_encoding (tb_format tb)) @ tb_text f tb)))"
proof -
  obtain r where r: "build_write_recipe conv_enc fs tb = Some (Inr r)"
    "actions_ok f (wr_src_path r) (wr_insert_data r) (wr_actions r)"
    "actions_text f (wr_src_path r) (wr_insert_data r) (wr_actions r) =
       bom_prefix (bf_encoding (tb_format tb)) @ tb_text f tb"
    using build_write_recipe_correct[OF assms(1,3), of conv_enc] assms(4,5) document_pieces_text[OF assms(2)]
    by (auto simp: convert_data_def)
  then show ?thesis
    using written_bytes[OF assms(1) r(2)] patched_bytes_correct[OF assms(1), of _ "wr_insert_data r" "wr_actions r" "[]"]
    by (fastforce simp: to_write_ops_def)
qed

text \<open>
  C31: A save that changes the line ending converts the document. When the text holds no carriage
  return, as a text that was normalised on opening or that used line feeds does not, converting the pieces
  one by one writes what converting the whole text at once would, whatever the edits did to
  the pieces; nothing is copied from the old file, so a plain write of the flattened recipe gives the
  same bytes.
\<close>

theorem save_converts_document:
  assumes "fs_serves f fs" "tb_ok f tb" "leaves_in_buffers f tb"
    and "needs_line_ending_conversion (tb_format tb)"
    and "\<not> needs_encoding_conversion (tb_format tb) (file_kind tb)"
    and "carriage_return \<notin> set (tb_text f tb)"
  shows "\<exists>r. build_write_recipe conv_enc fs tb = Some (Inr r) \<and>
           write_recipe fs r = Some (Inr (bom_prefix (bf_encoding (tb_format tb)) @
             convert_line_endings_to (tb_text f tb) (bf_line_ending (tb_format tb)))) \<and>
           flatten_inserts r = Some (bom_prefix (bf_encoding (tb_format tb)) @
             convert_line_endings_to (tb_text f tb) (bf_line_ending (tb_format tb)))"
proof -
  note whole = document_pieces_text[OF assms(2)]
  obtain r where r: "build_write_recipe conv_enc fs tb = Some (Inr r)"
    "actions_ok f (wr_src_path r) (wr_insert_data r) (wr_actions r)" "wr_src_path r = None"
    "actions_text f (wr_src_path r) (wr_insert_data r) (wr_actions r) =
       bom_prefix (bf_encoding (tb_format tb)) @
       convert_line_endings_to (tb_text f tb) (bf_line_ending (tb_format tb))"
    using build_write_recipe_correct[OF assms(1,3), of conv_enc] assms(4,5)
      convert_pieces[OF assms(6)[folded whole], of "bf_line_ending (tb_format tb)"] whole
    by (auto simp: convert_data_def)
  then show ?thesis
    using written_bytes[OF assms(1) r(2)] flatten_correct[of f "wr_insert_data r" "wr_actions r"]
    by (auto simp: flatten_inserts_def)
qed

subsection \<open>Instances\<close>

lemma memory_fs_serves: "fs_serves files (memory_fs files)"
  by (simp add: fs_serves_def memory_fs_def)

text \<open>The file "abc", opened lazily, with "x" typed after its first byte.\<close>

definition sample_typed_file :: TextBuffer where
  "sample_typed_file =
     fst (the (insert_bytes (memory_fs (\<lambda>_. [97, 98, 99])) (lazy_file ''f'' 3 [97, 98, 99] Utf8 False) 1 [120]))"

lemma sample_typed_file_ok:
  "tb_ok (\<lambda>_. [97, 98, 99]) sample_typed_file" "leaves_in_buffers (\<lambda>_. [97, 98, 99]) sample_typed_file"
  "\<not> needs_line_ending_conversion (tb_format sample_typed_file)"
  "\<not> needs_encoding_conversion (tb_format sample_typed_file) (file_kind sample_typed_file)"
  "bom_prefix (bf_encoding (tb_format sample_typed_file)) @ tb_text (\<lambda>_. [97, 98, 99]) sample_typed_file =
     [97, 120, 98, 99]"
  by code_simp+

theorem save_writes_document_witness:
  "\<exists>r. build_write_recipe (\<lambda>bs _. bs) (memory_fs (\<lambda>_. [97, 98, 99])) sample_typed_file = Some (Inr r) \<and>
     write_recipe (memory_fs (\<lambda>_. [97, 98, 99])) r = Some (Inr [97, 120, 98, 99])"
  using save_writes_document[OF memory_fs_serves sample_typed_file_ok(1-4), of "\<lambda>bs _. bs"]
  unfolding sample_typed_file_ok(5) by blast

text \<open>A document of two lines, edited and switched to CRLF.\<close>

definition sample_switched :: TextBuffer where
  "sample_switched =
     tb_set_line_ending (fst (the (insert_bytes (memory_fs (\<lambda>_. []))
       (from_utf8_detected [97, 10, 98] Utf8 True) 1 [120]))) CRLF"

lemma sample_switched_ok:
  "tb_ok (\<lambda>_. []) sample_switched" "leaves_in_buffers (\<lambda>_. []) sample_switched"
  "needs_line_ending_conversion (tb_format sample_switched)"
  "\<not> needs_encoding_conversion (tb_format sample_switched) (file_kind sample_switched)"
  "carriage_return \<notin> set (tb_text (\<lambda>_. []) sample_switched)"
  "bom_prefix (bf_encoding (tb_format sample_switched)) @
     convert_line_endings_to (tb_text (\<lambda>_. []) sample_switched) (bf_line_ending (tb_format sample_switched)) =
     [97, 120, 13, 10, 98]"
  by code_simp+

theorem save_converts_document_witness:
  "\<exists>r. build_write_recipe (\<lambda>bs _. bs) (memory_fs (\<lambda>_. [])) sample_switched = Some (Inr r) \<and>
     write_recipe (memory_fs (\<lambda>_. [])) r = Some (Inr [97, 120, 13, 10, 98]) \<and>
     flatten_inserts r = Some [97, 120, 13, 10, 98]"
  using save_converts_document[OF memory_fs_serves sample_switched_ok(1-5), of "\<lambda>bs _. bs"]
  unfolding sample_switched_ok(6) by blast

subsection \<open>Where the conversion of pieces differs from the conversion of the text\<close>

definition saved_bytes ::
  "(byte list \<Rightarrow> Encoding \<Rightarrow> byte list) \<Rightarrow> 'e FileSystem \<Rightarrow> TextBuffer \<Rightarrow> ('e save_error + byte list) option" where
  "saved_bytes conv_enc fs tb =
     Option.bind (build_write_recipe conv_enc fs tb)
       (\<lambda>r. case r of Inl e \<Rightarrow> Some (Inl e) | Inr r \<Rightarrow> write_recipe fs r)"

text \<open>
  A CRLF that two pieces share is written as two line breaks. The document "a\r\nb" has two lines;
  after typing a character between the carriage return and the line feed and deleting it
  again the text is the same, but switching to LF and saving writes "a\n\nb", while converting the text
  gives "a\nb".
\<close>

theorem split_crlf_doubled:
  "\<exists>tb1 c tb2. insert_bytes (memory_fs (\<lambda>_. [])) (from_utf8_detected [97, 13, 10, 98] Utf8 True) 2 [120] = Some (tb1, c) \<and>
     delete_bytes (memory_fs (\<lambda>_. [])) tb1 2 1 = Some tb2 \<and>
     tb_text (\<lambda>_. []) tb2 = [97, 13, 10, 98] \<and>
     convert_line_endings_to [97, 13, 10, 98] LF = [97, 10, 98] \<and>
     saved_bytes (\<lambda>bs _. bs) (memory_fs (\<lambda>_. [])) (tb_set_line_ending tb2 LF) = Some (Inr [97, 10, 10, 98])"
proof -
  have "(case insert_bytes (memory_fs (\<lambda>_. [])) (from_utf8_detected [97, 13, 10, 98] Utf8 True) 2 [120] of
          None \<Rightarrow> False
        | Some (tb1, c) \<Rightarrow>
            (case delete_bytes (memory_fs (\<lambda>_. [])) tb1 2 1 of
               None \<Rightarrow> False
             | Some tb2 \<Rightarrow> tb_text (\<lambda>_. []) tb2 = [97, 13, 10, 98] \<and>
                 convert_line_endings_to [97, 13, 10, 98] LF = [97, 10, 98] \<and>
                 saved_bytes (\<lambda>bs _. bs) (memory_fs (\<lambda>_. [])) (tb_set_line_ending tb2 LF) =
                   Some (Inr [97, 10, 10, 98])))"
    by code_simp
  then show ?thesis by (simp only: split: option.split_asm prod.split_asm) blast
qed

text \<open>
  Mixed line endings are not always preserved. A file whose endings are mostly carriage returns
  counts as a CR file even when it holds line feeds; opening it for editing turns every ending into a
  line feed, and saving the unedited document turns every line feed into a carriage return: "a\rb\rc\n"
  is written back as "a\rb\rc\r".
\<close>

theorem mixed_endings_rewritten:
  "saved_bytes (\<lambda>bs _. bs) (memory_fs (\<lambda>_. [])) (from_utf8_detected [97, 13, 98, 13, 99, 10] Utf8 True) =
     Some (Inr [97, 13, 98, 13, 99, 13])"
  by code_simp

end
