(* ===== verification/Recovery_Chunks.thy ===== *)
theory Recovery_Chunks
  imports Save_Recipe
begin

text \<open>
  Crash recovery of a large file: the changes of the buffer to the file on disk
  (\<open>model/buffer/recovery_chunks.rs\<close>), the packed form they are stored in (\<open>recovery_types.rs\<close>) and
  reading them back and applying them (\<open>services/recovery/storage.rs\<close>). A failed read is an error value
  and a failed index, slice, subtraction or \<open>expect\<close> is the outer \<open>None\<close>. The JSON of the index and the
  files it is stored in are not modelled: an entry is its index and the bytes of its chunk file.
\<close>

subsection \<open>Chunks\<close>

record RecoveryChunk =
  rc_offset :: nat
  rc_original_len :: nat
  rc_content :: "byte list"

record ChunkMeta =
  cm_offset :: nat
  cm_original_len :: nat
  cm_size :: nat

definition RecoveryChunk_new :: "nat \<Rightarrow> nat \<Rightarrow> byte list \<Rightarrow> RecoveryChunk" where
  "RecoveryChunk_new offset original_len content =
     \<lparr>rc_offset = offset, rc_original_len = original_len, rc_content = content\<rparr>"

definition to_meta :: "RecoveryChunk \<Rightarrow> ChunkMeta" where
  "to_meta c = \<lparr>cm_offset = rc_offset c, cm_original_len = rc_original_len c,
                cm_size = length (rc_content c)\<rparr>"

record ChunkedRecoveryIndex =
  ix_original_size :: nat
  ix_final_size :: nat
  ix_chunks :: "ChunkMeta list"
  ix_packed :: bool

record ChunkedRecoveryData =
  cd_original_size :: nat
  cd_chunks :: "RecoveryChunk list"
  cd_final_size :: nat

definition ChunkedRecoveryData_new :: "nat \<Rightarrow> nat \<Rightarrow> RecoveryChunk list \<Rightarrow> ChunkedRecoveryData" where
  "ChunkedRecoveryData_new original_size final_size chunks =
     \<lparr>cd_original_size = original_size, cd_chunks = chunks, cd_final_size = final_size\<rparr>"

definition to_index :: "ChunkedRecoveryData \<Rightarrow> ChunkedRecoveryIndex" where
  "to_index d = \<lparr>ix_original_size = cd_original_size d, ix_final_size = cd_final_size d,
                 ix_chunks = map to_meta (cd_chunks d), ix_packed = True\<rparr>"

subsection \<open>Building the chunks of a buffer\<close>

definition RECOVERY_MERGE_GAP :: nat where
  "RECOVERY_MERGE_GAP = 1024"

definition READ_SPAN_GAP :: nat where
  "READ_SPAN_GAP = 64 * 1024"

datatype Part = Bytes "byte list" | File string nat nat

record Pending =
  pe_offset :: nat
  pe_original_len :: nat
  pe_parts :: "Part list"

record Chunker =
  ch_chunks :: "RecoveryChunk list"
  ch_pending :: "Pending option"
  ch_gap :: "(Part list \<times> nat) option"
  orig_cursor :: nat

datatype 'e recovery_error = Recovery_io 'e | Shorter_than_opened string

text \<open>The \<open>?\<close> operator on a result inside code that may panic.\<close>

definition try_then :: "('x + 'a) option \<Rightarrow> ('a \<Rightarrow> ('x + 'b) option) \<Rightarrow> ('x + 'b) option" where
  "try_then r k = (case r of None \<Rightarrow> None | Some (Inl e) \<Rightarrow> Some (Inl e) | Some (Inr a) \<Rightarrow> k a)"

lemma try_then_simps [simp]:
  "try_then None k = None" "try_then (Some (Inl e)) k = Some (Inl e)"
  "try_then (Some (Inr a)) k = k a"
  by (simp_all add: try_then_def)

text \<open>
  The spans are grown at the end of the list, whose last element is the one a stretch may join.
\<close>

fun read_spans_loop ::
  "Part list \<Rightarrow> (string \<times> nat \<times> nat) list \<Rightarrow> nat list \<Rightarrow> (string \<times> nat \<times> nat) list \<times> nat list" where
  "read_spans_loop [] spans span_of = (spans, span_of)"
| "read_spans_loop (Bytes _ # parts) spans span_of = read_spans_loop parts spans span_of"
| "read_spans_loop (File path s e # parts) spans span_of =
     (let joins = (spans \<noteq> [] \<and>
                   (case last spans of (p, ss, se) \<Rightarrow> p = path \<and> s \<ge> ss \<and> s \<le> se + READ_SPAN_GAP));
          spans' = (if joins
                    then butlast spans @ [case last spans of (p, ss, se) \<Rightarrow> (p, ss, max se e)]
                    else spans @ [(path, s, e)])
      in read_spans_loop parts spans' (span_of @ [length spans' - 1]))"

definition read_spans :: "Part list \<Rightarrow> (string \<times> nat \<times> nat) list \<times> nat list" where
  "read_spans parts = read_spans_loop parts [] []"

text \<open>Reading the spans stops at the first error, as \<open>collect\<close> does. \<open>span.len()\<close> is 0 for a reversed range.\<close>

fun read_all_spans ::
  "'e FileSystem \<Rightarrow> (string \<times> nat \<times> nat) list \<Rightarrow> 'e recovery_error + byte list list" where
  "read_all_spans fs [] = Inr []"
| "read_all_spans fs ((path, s, e) # spans) =
     (case fs_read_range fs path s (e - s) of
        Inl err \<Rightarrow> Inl (Recovery_io err)
      | Inr bytes \<Rightarrow>
          if length bytes \<noteq> e - s then Inl (Shorter_than_opened path)
          else map_sum id ((#) bytes) (read_all_spans fs spans))"

fun join_parts ::
  "Part list \<Rightarrow> (string \<times> nat \<times> nat) list \<Rightarrow> byte list list \<Rightarrow> nat list \<Rightarrow> byte list \<Rightarrow> byte list option" where
  "join_parts [] spans reads span_of content = Some content"
| "join_parts (Bytes bytes # parts) spans reads span_of content =
     join_parts parts spans reads span_of (content @ bytes)"
| "join_parts (File _ s e # parts) spans reads span_of content =
     (case span_of of
        [] \<Rightarrow> None
      | i # span_of' \<Rightarrow> do {
          (_, start, _) \<leftarrow> slice_get spans i;
          bytes \<leftarrow> slice_get reads i;
          lo \<leftarrow> usub s start;
          hi \<leftarrow> usub e start;
          piece \<leftarrow> index_range bytes lo hi;
          join_parts parts spans reads span_of' (content @ piece)
        })"

definition complete ::
  "'e FileSystem \<Rightarrow> Pending \<Rightarrow> ('e recovery_error + RecoveryChunk) option" where
  "complete fs pending =
     (case read_spans (pe_parts pending) of (spans, span_of) \<Rightarrow>
        case read_all_spans fs spans of
          Inl err \<Rightarrow> Some (Inl err)
        | Inr reads \<Rightarrow> map_option
            (\<lambda>content. Inr (RecoveryChunk_new (pe_offset pending) (pe_original_len pending) content))
            (join_parts (pe_parts pending) spans reads span_of []))"

definition change ::
  "'e FileSystem \<Rightarrow> Chunker \<Rightarrow> nat \<Rightarrow> Part option \<Rightarrow> ('e recovery_error + Chunker) option" where
  "change fs ch original_len content =
     (let fresh = ch\<lparr>ch_gap := Some ([], 0), orig_cursor := orig_cursor ch + original_len\<rparr> in
      case (ch_pending ch, ch_gap ch) of
        (Some chunk, Some (unchanged, len)) \<Rightarrow>
          Some (Inr (fresh\<lparr>ch_pending := Some
            (chunk\<lparr>pe_original_len := pe_original_len chunk + (len + original_len),
                   pe_parts := (pe_parts chunk @ unchanged) @ case_option [] (\<lambda>p. [p]) content\<rparr>)\<rparr>))
      | _ \<Rightarrow>
          (let next = \<lparr>pe_offset = orig_cursor ch, pe_original_len = original_len,
                       pe_parts = case_option [] (\<lambda>p. [p]) content\<rparr> in
           case ch_pending ch of
             None \<Rightarrow> Some (Inr (fresh\<lparr>ch_pending := Some next\<rparr>))
           | Some old \<Rightarrow> try_then (complete fs old)
               (\<lambda>chunk. Some (Inr (fresh\<lparr>ch_pending := Some next, ch_chunks := ch_chunks ch @ [chunk]\<rparr>)))))"

definition unchanged ::
  "'e FileSystem \<Rightarrow> Chunker \<Rightarrow> nat \<Rightarrow> nat \<Rightarrow> Part option \<Rightarrow> ('e recovery_error + Chunker) option" where
  "unchanged fs ch pos bytes part =
     try_then (if pos > orig_cursor ch then change fs ch (pos - orig_cursor ch) None else Some (Inr ch))
       (\<lambda>ch1. let ch2 = (if ch_pending ch1 \<noteq> None
                        then (case (ch_gap ch1, part) of
                                (Some (unch, len), Some p) \<Rightarrow>
                                  if len + bytes \<le> RECOVERY_MERGE_GAP
                                  then ch1\<lparr>ch_gap := Some (unch @ [p], len + bytes)\<rparr>
                                  else ch1\<lparr>ch_gap := None\<rparr>
                              | _ \<Rightarrow> ch1\<lparr>ch_gap := None\<rparr>)
                        else ch1)
              in Some (Inr (ch2\<lparr>orig_cursor := pos + bytes\<rparr>)))"

definition finish_chunks ::
  "'e FileSystem \<Rightarrow> Chunker \<Rightarrow> nat \<Rightarrow> ('e recovery_error + RecoveryChunk list) option" where
  "finish_chunks fs ch original_size =
     try_then (if orig_cursor ch < original_size then change fs ch (original_size - orig_cursor ch) None
               else Some (Inr ch))
       (\<lambda>ch1. case ch_pending ch1 of
                None \<Rightarrow> Some (Inr (ch_chunks ch1))
              | Some old \<Rightarrow> try_then (complete fs old) (\<lambda>chunk. Some (Inr (ch_chunks ch1 @ [chunk]))))"

definition piece_part :: "StringBuffer list \<Rightarrow> PieceView \<Rightarrow> Part option" where
  "piece_part bufs pv =
     (case slice_get bufs (buffer_id (pv_location pv)) of
        None \<Rightarrow> None
      | Some b \<Rightarrow>
          (case sb_data b of
             Loaded data _ \<Rightarrow>
               map_option Bytes (index_range data (pv_buffer_offset pv) (pv_buffer_offset pv + pv_bytes pv))
           | Unloaded file_path file_offset _ \<Rightarrow>
               Some (File file_path (file_offset + pv_buffer_offset pv)
                       (file_offset + (pv_buffer_offset pv + pv_bytes pv)))))"

definition original_offset :: "StringBuffer list \<Rightarrow> PieceView \<Rightarrow> nat option" where
  "original_offset bufs pv =
     (case pv_location pv of
        Stored _ \<Rightarrow> Some (pv_buffer_offset pv)
      | Added i \<Rightarrow>
          (case slice_get bufs i of
             None \<Rightarrow> None
           | Some b \<Rightarrow> map_option (\<lambda>file_offset. file_offset + pv_buffer_offset pv) (stored_file_offset b)))"

fun recovery_loop ::
  "'e FileSystem \<Rightarrow> StringBuffer list \<Rightarrow> PieceView list \<Rightarrow> Chunker \<Rightarrow> ('e recovery_error + Chunker) option" where
  "recovery_loop fs bufs [] ch = Some (Inr ch)"
| "recovery_loop fs bufs (pv # pvs) ch =
     try_then
       (case original_offset bufs pv of
          Some pos \<Rightarrow> if pos \<ge> orig_cursor ch then unchanged fs ch pos (pv_bytes pv) (piece_part bufs pv)
                     else change fs ch 0 (piece_part bufs pv)
        | None \<Rightarrow> change fs ch 0 (piece_part bufs pv))
       (recovery_loop fs bufs pvs)"

definition chunker_start :: Chunker where
  "chunker_start = \<lparr>ch_chunks = [], ch_pending = None, ch_gap = Some ([], 0), orig_cursor = 0\<rparr>"

definition original_file_size :: "TextBuffer \<Rightarrow> nat option" where
  "original_file_size tb = p_saved_file_size (persistence tb)"

definition get_recovery_chunks ::
  "'e FileSystem \<Rightarrow> TextBuffer \<Rightarrow> ('e recovery_error + RecoveryChunk list) option" where
  "get_recovery_chunks fs tb =
     try_then
       (recovery_loop fs (buffers tb)
          (iter_pieces_in_range (piece_tree tb) 0 (pt_total_bytes (piece_tree tb))) chunker_start)
       (\<lambda>ch. finish_chunks fs ch (case original_file_size tb of Some n \<Rightarrow> n | None \<Rightarrow> 0))"

subsection \<open>Storing and reading back\<close>

datatype 'x storage_error = Storage_io 'x | Content_size_mismatch nat nat | Original_size_mismatch nat nat

text \<open>What a save stores: the index and the bytes of the one chunk file.\<close>

definition save_recovery :: "RecoveryChunk list \<Rightarrow> nat \<Rightarrow> nat \<Rightarrow> ChunkedRecoveryIndex \<times> byte list" where
  "save_recovery chunks file_size final_size =
     (let chunked_data = ChunkedRecoveryData_new file_size final_size chunks;
          content = fold (\<lambda>chunk all. all @ rc_content chunk) (cd_chunks chunked_data) []
      in (to_index chunked_data, content))"

fun split_contents :: "ChunkMeta list \<Rightarrow> byte list \<Rightarrow> byte list list" where
  "split_contents [] rest = []"
| "split_contents (c # cs) rest =
     (let n = min (cm_size c) (length rest) in take n rest # split_contents cs (drop n rest))"

text \<open>\<open>collect\<close> into a result: the first error, or all the values.\<close>

fun collect_results :: "('x + 'a) list \<Rightarrow> 'x + 'a list" where
  "collect_results [] = Inr []"
| "collect_results (Inl e # rs) = Inl e"
| "collect_results (Inr a # rs) = map_sum id ((#) a) (collect_results rs)"

text \<open>\<open>read i\<close> is the content of chunk file \<open>i\<close>, or the error of reading it (not found included).\<close>

definition read_chunked_content ::
  "ChunkedRecoveryIndex \<Rightarrow> (nat \<Rightarrow> 'x + byte list) \<Rightarrow> 'x storage_error + ChunkedRecoveryData" where
  "read_chunked_content index read =
     (let data = (\<lambda>contents. ChunkedRecoveryData_new (ix_original_size index) (ix_final_size index)
            (map (\<lambda>(meta, content). RecoveryChunk_new (cm_offset meta) (cm_original_len meta) content)
               (zip (ix_chunks index) contents)))
      in if ix_packed index then
           (case read 0 of
              Inl e \<Rightarrow> Inl (Storage_io e)
            | Inr all \<Rightarrow>
                (let total_size = sum_list (map cm_size (ix_chunks index));
                     short_single = (length (ix_chunks index) = 1 \<and> length all < total_size) in
                 if total_size \<noteq> length all \<and> \<not> short_single
                 then Inl (Content_size_mismatch (length all) total_size)
                 else Inr (data (split_contents (ix_chunks index) all))))
         else
           map_sum Storage_io data (collect_results (map read [0..<length (ix_chunks index)])))"

fun apply_chunks :: "byte list \<Rightarrow> RecoveryChunk list \<Rightarrow> nat \<Rightarrow> byte list \<Rightarrow> byte list option" where
  "apply_chunks original [] original_pos result =
     Some (result @ (if original_pos < length original then drop original_pos original else []))"
| "apply_chunks original (chunk # chunks) original_pos result = do {
     before \<leftarrow> (if rc_offset chunk > original_pos
                then index_range original original_pos (rc_offset chunk) else Some []);
     apply_chunks original chunks (rc_offset chunk + rc_original_len chunk)
       (result @ before @ rc_content chunk)
   }"

definition reconstruct_from_chunks ::
  "ChunkedRecoveryIndex \<Rightarrow> (nat \<Rightarrow> 'x + byte list) \<Rightarrow> 'x + byte list
   \<Rightarrow> ('x storage_error + byte list) option" where
  "reconstruct_from_chunks index read original_file =
     (case read_chunked_content index read of
        Inl e \<Rightarrow> Some (Inl e)
      | Inr chunked_data \<Rightarrow>
          (case original_file of
             Inl e \<Rightarrow> Some (Inl (Storage_io e))
           | Inr original_content \<Rightarrow>
               if length original_content \<noteq> cd_original_size chunked_data
               then Some (Inl (Original_size_mismatch (cd_original_size chunked_data) (length original_content)))
               else map_option Inr (apply_chunks original_content (cd_chunks chunked_data) 0 [])))"

subsection \<open>Completing a chunk\<close>

fun part_text :: "(string \<Rightarrow> byte list) \<Rightarrow> Part \<Rightarrow> byte list" where
  "part_text f (Bytes bytes) = bytes"
| "part_text f (File p s e) = take (e - s) (drop s (f p))"

fun part_ok :: "(string \<Rightarrow> byte list) \<Rightarrow> Part \<Rightarrow> bool" where
  "part_ok f (Bytes bytes) \<longleftrightarrow> True"
| "part_ok f (File p s e) \<longleftrightarrow> s \<le> e \<and> e \<le> length (f p)"

definition parts_text :: "(string \<Rightarrow> byte list) \<Rightarrow> Part list \<Rightarrow> byte list" where
  "parts_text f ps = concat (map (part_text f) ps)"

lemma parts_text_simps [simp]:
  "parts_text f [] = []" "parts_text f (p # ps) = part_text f p @ parts_text f ps"
  "parts_text f (ps @ qs) = parts_text f ps @ parts_text f qs"
  by (simp_all add: parts_text_def)

fun span_ok :: "(string \<Rightarrow> byte list) \<Rightarrow> string \<times> nat \<times> nat \<Rightarrow> bool" where
  "span_ok f (p, s, e) \<longleftrightarrow> s \<le> e \<and> e \<le> length (f p)"

fun span_text :: "(string \<Rightarrow> byte list) \<Rightarrow> string \<times> nat \<times> nat \<Rightarrow> byte list" where
  "span_text f (p, s, e) = take (e - s) (drop s (f p))"

fun span_within :: "string \<times> nat \<times> nat \<Rightarrow> string \<times> nat \<times> nat \<Rightarrow> bool" where
  "span_within (p, s, e) (q, s', e') \<longleftrightarrow> p = q \<and> s' \<le> s \<and> e \<le> e'"

definition spans_grow :: "(string \<times> nat \<times> nat) list \<Rightarrow> (string \<times> nat \<times> nat) list \<Rightarrow> bool" where
  "spans_grow xs ys \<longleftrightarrow> length xs \<le> length ys \<and> (\<forall>i<length xs. span_within (xs ! i) (ys ! i))"

fun part_in_span :: "(string \<times> nat \<times> nat) list \<Rightarrow> nat \<Rightarrow> Part \<Rightarrow> bool" where
  "part_in_span spans i (Bytes _) \<longleftrightarrow> False"
| "part_in_span spans i (File p s e) \<longleftrightarrow> i < length spans \<and> span_within (p, s, e) (spans ! i)"

abbreviation file_parts :: "Part list \<Rightarrow> Part list" where
  "file_parts \<equiv> filter (\<lambda>p. case p of Bytes _ \<Rightarrow> False | File _ _ _ \<Rightarrow> True)"

lemma span_within_refl [simp]: "span_within x x"
  by (cases x) simp

lemma span_within_trans: "span_within x y \<Longrightarrow> span_within y z \<Longrightarrow> span_within x z"
  by (cases x; cases y; cases z) auto

lemma spans_grow_refl [simp]: "spans_grow xs xs"
  by (simp add: spans_grow_def)

lemma spans_grow_trans: "spans_grow xs ys \<Longrightarrow> spans_grow ys zs \<Longrightarrow> spans_grow xs zs"
  unfolding spans_grow_def by (meson order_less_le_trans order_trans span_within_trans)

lemma spans_grow_snoc: "spans_grow xs (xs @ ys)"
  by (simp add: spans_grow_def nth_append)

lemma spans_grow_last:
  assumes "xs \<noteq> []" "span_within (last xs) y"
  shows "spans_grow xs (butlast xs @ [y])"
  using assms by (cases xs rule: rev_cases) (auto simp: spans_grow_def nth_append less_Suc_eq)

lemma part_in_span_grow: "part_in_span xs i p \<Longrightarrow> spans_grow xs ys \<Longrightarrow> part_in_span ys i p"
  unfolding spans_grow_def by (cases p) (auto intro: span_within_trans)

lemma read_spans_loop_correct:
  assumes "read_spans_loop parts spans span_of = (spans', span_of')"
    and "list_all (part_ok f) parts" "list_all (span_ok f) spans"
  shows "spans_grow spans spans' \<and> list_all (span_ok f) spans' \<and>
    (\<exists>new. span_of' = span_of @ new \<and> list_all2 (part_in_span spans') new (file_parts parts))"
  using assms
proof (induction parts spans span_of rule: read_spans_loop.induct)
  case (1 spans span_of)
  then show ?case by simp
next
  case (2 bytes parts spans span_of)
  then show ?case by simp
next
  case (3 path s e parts spans span_of)
  define joins where "joins = (spans \<noteq> [] \<and>
    (case last spans of (p, ss, se) \<Rightarrow> p = path \<and> s \<ge> ss \<and> s \<le> se + READ_SPAN_GAP))"
  define grown where "grown = (if joins
    then butlast spans @ [case last spans of (p, ss, se) \<Rightarrow> (p, ss, max se e)] else spans @ [(path, s, e)])"
  have run: "read_spans_loop parts grown (span_of @ [length grown - 1]) = (spans', span_of')"
    using 3(2) by (simp add: joins_def grown_def Let_def)
  have "list_all (span_ok f) grown \<and> spans_grow spans grown \<and>
    part_in_span grown (length grown - 1) (File path s e)"
  proof (cases joins)
    case True
    obtain sps ss se where sp: "spans = sps @ [(path, ss, se)]" "ss \<le> s"
      using True by (cases spans rule: rev_cases) (auto simp: joins_def)
    then have "grown = sps @ [(path, ss, max se e)]" using True by (simp add: grown_def)
    with sp 3(3,4) show ?thesis
      using spans_grow_last[of spans "(path, ss, max se e)"] by (simp add: le_max_iff_disj)
  next
    case False
    then have "grown = spans @ [(path, s, e)]" by (simp add: grown_def)
    with 3(3,4) show ?thesis by (simp add: spans_grow_snoc)
  qed
  then have grown_ok: "list_all (span_ok f) grown" and grow: "spans_grow spans grown"
    and here: "part_in_span grown (length grown - 1) (File path s e)" by blast+
  have ih: "spans_grow grown spans' \<and> list_all (span_ok f) spans' \<and>
    (\<exists>new. span_of' = (span_of @ [length grown - 1]) @ new \<and>
           list_all2 (part_in_span spans') new (file_parts parts))"
    using 3(1)[OF joins_def grown_def run] 3(3) grown_ok by simp
  then obtain new where "span_of' = (span_of @ [length grown - 1]) @ new"
    "list_all2 (part_in_span spans') new (file_parts parts)" by blast
  moreover have "part_in_span spans' (length grown - 1) (File path s e)"
    using here ih part_in_span_grow by blast
  ultimately show ?case
    using ih spans_grow_trans[OF grow] by (intro conjI exI[of _ "(length grown - 1) # new"]) auto
qed

lemma read_all_spans_served:
  "fs_serves f fs \<Longrightarrow> list_all (span_ok f) spans \<Longrightarrow> read_all_spans fs spans = Inr (map (span_text f) spans)"
  by (induction spans) (auto simp: fs_serves_def)

lemma slice_of_span:
  assumes "ss \<le> s" "s \<le> e" "e \<le> se" "se \<le> length (xs :: 'a list)"
  shows "index_range (take (se - ss) (drop ss xs)) (s - ss) (e - ss) = Some (take (e - s) (drop s xs))"
  using assms by (auto simp: index_range_def drop_take min_def)

lemma join_parts_correct:
  assumes "list_all2 (part_in_span spans) span_of (file_parts parts)"
    and "list_all (part_ok f) parts" "list_all (span_ok f) spans"
  shows "join_parts parts spans (map (span_text f) spans) span_of content = Some (content @ parts_text f parts)"
  using assms(1,2)
proof (induction parts arbitrary: span_of content)
  case Nil
  then show ?case by simp
next
  case (Cons part parts)
  show ?case
  proof (cases part)
    case (Bytes bytes)
    with Cons show ?thesis by simp
  next
    case (File p s e)
    with Cons.prems obtain i rest where span_of: "span_of = i # rest"
      and i: "i < length spans" "span_within (p, s, e) (spans ! i)"
      and rest: "list_all2 (part_in_span spans) rest (file_parts parts)"
      by (auto simp: list_all2_Cons2)
    obtain ss se where sp: "spans ! i = (p, ss, se)" "ss \<le> s" "e \<le> se"
      using i(2) by (cases "spans ! i") auto
    have "span_ok f (spans ! i)"
      using assms(3) i(1) by (simp add: list_all_length)
    then have "se \<le> length (f p)" "s \<le> e" using sp Cons.prems(2) File by auto
    with sp i show ?thesis
      using Cons.IH[OF rest] Cons.prems(2) slice_of_span[of ss s e se "f p"]
      by (simp add: File span_of slice_get_def usub_def)
  qed
qed

lemma complete_correct:
  assumes "fs_serves f fs" "list_all (part_ok f) (pe_parts p)"
  shows "complete fs p = Some (Inr (RecoveryChunk_new (pe_offset p) (pe_original_len p) (parts_text f (pe_parts p))))"
proof -
  obtain spans span_of where sp: "read_spans (pe_parts p) = (spans, span_of)" by fastforce
  then have "list_all (span_ok f) spans"
    "list_all2 (part_in_span spans) span_of (file_parts (pe_parts p))"
    using read_spans_loop_correct[of "pe_parts p" "[]" "[]" spans span_of f] assms(2)
    by (auto simp: read_spans_def)
  then show ?thesis
    using sp read_all_spans_served[OF assms(1)] join_parts_correct[OF _ assms(2)] by (simp add: complete_def)
qed

subsection \<open>The invariant of the chunker\<close>

text \<open>
  Chunks of a file of \<open>n\<close> bytes: in order, more than the merge gap apart, and inside the file. What they
  make of the original \<open>orig\<close> from position \<open>pos\<close> up to the end of the last of them is \<open>chunks_out\<close>.
\<close>

abbreviation rc_end :: "RecoveryChunk \<Rightarrow> nat" where
  "rc_end c \<equiv> rc_offset c + rc_original_len c"

definition chunks_ok :: "nat \<Rightarrow> RecoveryChunk list \<Rightarrow> bool" where
  "chunks_ok n cs \<longleftrightarrow>
     successively (\<lambda>c d. rc_end c + RECOVERY_MERGE_GAP < rc_offset d) cs \<and> list_all (\<lambda>c. rc_end c \<le> n) cs"

definition chunks_end :: "nat \<Rightarrow> RecoveryChunk list \<Rightarrow> nat" where
  "chunks_end pos cs = (if cs = [] then pos else rc_end (last cs))"

fun chunks_out :: "byte list \<Rightarrow> nat \<Rightarrow> RecoveryChunk list \<Rightarrow> byte list" where
  "chunks_out orig pos [] = []"
| "chunks_out orig pos (c # cs) =
     take (rc_offset c - pos) (drop pos orig) @ rc_content c @ chunks_out orig (rc_end c) cs"

lemma chunks_end_simps [simp]:
  "chunks_end pos [] = pos" "chunks_end pos (cs @ [c]) = rc_end c"
  "chunks_end pos (c # cs) = chunks_end (rc_end c) cs"
  by (simp_all add: chunks_end_def)

lemma chunks_out_append [simp]:
  "chunks_out orig pos (cs @ ds) = chunks_out orig pos cs @ chunks_out orig (chunks_end pos cs) ds"
  by (induction cs arbitrary: pos) simp_all

lemma chunks_ok_snoc:
  "chunks_ok n (cs @ [c]) \<longleftrightarrow>
     chunks_ok n cs \<and> (cs \<noteq> [] \<longrightarrow> chunks_end 0 cs + RECOVERY_MERGE_GAP < rc_offset c) \<and> rc_end c \<le> n"
  by (auto simp: chunks_ok_def successively_append_iff chunks_end_def)

lemma chunks_ok_snoc2:
  "chunks_ok n (cs @ [c, d]) \<longleftrightarrow>
     chunks_ok n (cs @ [c]) \<and> rc_end c + RECOVERY_MERGE_GAP < rc_offset d \<and> rc_end d \<le> n"
  using chunks_ok_snoc[of n "cs @ [c]" d] by simp

lemma apply_chunks_out:
  assumes "chunks_ok (length orig) cs" "cs \<noteq> [] \<longrightarrow> pos \<le> rc_offset (hd cs)"
  shows "apply_chunks orig cs pos out =
    Some (out @ chunks_out orig pos cs @ drop (chunks_end pos cs) orig)"
  using assms
proof (induction cs arbitrary: pos out)
  case Nil
  then show ?case by simp
next
  case (Cons c cs)
  then have "chunks_ok (length orig) cs" "cs \<noteq> [] \<longrightarrow> rc_end c \<le> rc_offset (hd cs)"
    "pos \<le> rc_offset c" "rc_offset c \<le> length orig"
    by (cases cs; simp add: chunks_ok_def)+
  then show ?case
    using Cons.IH by (auto simp: index_range_def drop_take)
qed

definition pending_chunk :: "(string \<Rightarrow> byte list) \<Rightarrow> Pending \<Rightarrow> RecoveryChunk" where
  "pending_chunk f p = RecoveryChunk_new (pe_offset p) (pe_original_len p) (parts_text f (pe_parts p))"

definition all_chunks :: "(string \<Rightarrow> byte list) \<Rightarrow> Chunker \<Rightarrow> RecoveryChunk list" where
  "all_chunks f ch = ch_chunks ch @ (case ch_pending ch of None \<Rightarrow> [] | Some p \<Rightarrow> [pending_chunk f p])"

lemma pending_chunk_sel [simp]:
  "rc_offset (pending_chunk f p) = pe_offset p" "rc_original_len (pending_chunk f p) = pe_original_len p"
  "rc_content (pending_chunk f p) = parts_text f (pe_parts p)"
  by (simp_all add: pending_chunk_def RecoveryChunk_new_def)

text \<open>
  The chunker has seen the document's text \<open>seen\<close>: its chunks give it, up to the cursor in the original
  file. Without a pending chunk there is none at all. The gap is the stretch between the pending chunk
  and the cursor, given up only when it is too long to merge.
\<close>

definition chunker_ok :: "(string \<Rightarrow> byte list) \<Rightarrow> byte list \<Rightarrow> byte list \<Rightarrow> Chunker \<Rightarrow> bool" where
  "chunker_ok f orig seen ch \<longleftrightarrow>
     (let cs = all_chunks f ch; e = chunks_end 0 cs in
      chunks_ok (length orig) cs \<and> e \<le> orig_cursor ch \<and> orig_cursor ch \<le> length orig \<and>
      seen = chunks_out orig 0 cs @ take (orig_cursor ch - e) (drop e orig) \<and>
      (case ch_pending ch of
         None \<Rightarrow> ch_chunks ch = []
       | Some p \<Rightarrow> list_all (part_ok f) (pe_parts p) \<and>
           (case ch_gap ch of
              None \<Rightarrow> e + RECOVERY_MERGE_GAP < orig_cursor ch
            | Some (us, n) \<Rightarrow> n = orig_cursor ch - e \<and> list_all (part_ok f) us \<and>
                parts_text f us = take n (drop e orig))))"

abbreviation opt_parts :: "Part option \<Rightarrow> Part list" where
  "opt_parts c \<equiv> case_option [] (\<lambda>p. [p]) c"

lemma chunker_start_ok: "chunker_ok f orig [] chunker_start"
  by (simp add: chunker_ok_def chunker_start_def all_chunks_def chunks_ok_def)

lemma take_drop_split:
  assumes "(a::nat) \<le> b" "b \<le> c"
  shows "take (c - a) (drop a xs) = take (b - a) (drop a xs) @ take (c - b) (drop b xs)"
proof -
  have "c - a = (b - a) + (c - b)" using assms by simp
  then show ?thesis using assms by (simp only: take_add drop_drop) simp
qed

lemma chunker_ok_open:
  assumes "ch_pending ch = Some p" "ch_gap ch = Some (us, m)"
  shows "chunker_ok f orig seen ch \<longleftrightarrow>
    chunks_ok (length orig) (ch_chunks ch @ [pending_chunk f p]) \<and>
    pe_offset p + pe_original_len p \<le> orig_cursor ch \<and> orig_cursor ch \<le> length orig \<and>
    seen = chunks_out orig 0 (ch_chunks ch @ [pending_chunk f p]) @ parts_text f us \<and>
    list_all (part_ok f) (pe_parts p) \<and> m = orig_cursor ch - (pe_offset p + pe_original_len p) \<and>
    list_all (part_ok f) us \<and> parts_text f us = take m (drop (pe_offset p + pe_original_len p) orig)"
  unfolding chunker_ok_def all_chunks_def Let_def assms option.case prod.case chunks_end_simps pending_chunk_sel
  by (rule iffI; clarify; simp)

lemma chunker_ok_closed:
  assumes "ch_pending ch = Some p" "ch_gap ch = None"
  shows "chunker_ok f orig seen ch \<longleftrightarrow>
    chunks_ok (length orig) (ch_chunks ch @ [pending_chunk f p]) \<and>
    pe_offset p + pe_original_len p + RECOVERY_MERGE_GAP < orig_cursor ch \<and> orig_cursor ch \<le> length orig \<and>
    seen = chunks_out orig 0 (ch_chunks ch @ [pending_chunk f p]) @
      take (orig_cursor ch - (pe_offset p + pe_original_len p)) (drop (pe_offset p + pe_original_len p) orig) \<and>
    list_all (part_ok f) (pe_parts p)"
  unfolding chunker_ok_def all_chunks_def Let_def assms option.case chunks_end_simps pending_chunk_sel
  by auto

lemma chunker_ok_empty:
  assumes "ch_pending ch = None"
  shows "chunker_ok f orig seen ch \<longleftrightarrow>
    ch_chunks ch = [] \<and> orig_cursor ch \<le> length orig \<and> seen = take (orig_cursor ch) orig"
  unfolding chunker_ok_def all_chunks_def Let_def assms option.case
  by (auto simp: chunks_ok_def)

lemma change_correct:
  assumes "fs_serves f fs" "chunker_ok f orig seen ch" "orig_cursor ch + n \<le> length orig"
    and "list_all (part_ok f) (opt_parts content)"
  shows "\<exists>ch'. change fs ch n content = Some (Inr ch') \<and>
    chunker_ok f orig (seen @ parts_text f (opt_parts content)) ch' \<and>
    orig_cursor ch' = orig_cursor ch + n \<and> ch_gap ch' = Some ([], 0) \<and> ch_pending ch' \<noteq> None"
proof (cases "ch_pending ch")
  case None
  let ?next = "\<lparr>pe_offset = orig_cursor ch, pe_original_len = n, pe_parts = opt_parts content\<rparr>"
  let ?ch = "ch\<lparr>ch_gap := Some ([], 0), orig_cursor := orig_cursor ch + n, ch_pending := Some ?next\<rparr>"
  have "chunker_ok f orig (seen @ parts_text f (opt_parts content)) ?ch"
    using assms None by (subst chunker_ok_open[of _ ?next "[]" 0])
      (simp_all add: chunker_ok_empty chunks_ok_def)
  with None show ?thesis by (simp add: change_def)
next
  case (Some p)
  show ?thesis
  proof (cases "ch_gap ch")
    case None
    let ?next = "\<lparr>pe_offset = orig_cursor ch, pe_original_len = n, pe_parts = opt_parts content\<rparr>"
    let ?ch = "ch\<lparr>ch_gap := Some ([], 0), orig_cursor := orig_cursor ch + n, ch_pending := Some ?next,
                  ch_chunks := ch_chunks ch @ [pending_chunk f p]\<rparr>"
    note inv = assms(2)[unfolded chunker_ok_closed[OF Some None]]
    have "complete fs p = Some (Inr (pending_chunk f p))"
      using complete_correct[OF assms(1)] inv by (simp add: pending_chunk_def)
    moreover have "chunker_ok f orig (seen @ parts_text f (opt_parts content)) ?ch"
      using assms(3,4) inv by (subst chunker_ok_open[of _ ?next "[]" 0])
        (simp_all add: chunks_ok_snoc2)
    ultimately show ?thesis using Some None by (simp add: change_def)
  next
    case gap: (Some g)
    obtain us m where g: "g = (us, m)" by (cases g)
    let ?next = "p\<lparr>pe_original_len := pe_original_len p + (m + n),
                   pe_parts := (pe_parts p @ us) @ opt_parts content\<rparr>"
    let ?ch = "ch\<lparr>ch_gap := Some ([], 0), orig_cursor := orig_cursor ch + n, ch_pending := Some ?next\<rparr>"
    note inv = assms(2)[unfolded chunker_ok_open[OF Some gap[unfolded g]]]
    have "chunker_ok f orig (seen @ parts_text f (opt_parts content)) ?ch"
      using assms(3,4) inv by (subst chunker_ok_open[of _ ?next "[]" 0])
        (simp_all add: chunks_ok_snoc)
    then show ?thesis using Some gap g by (simp add: change_def)
  qed
qed

lemma unchanged_correct:
  assumes "fs_serves f fs" "chunker_ok f orig seen ch" "orig_cursor ch \<le> pos" "pos + n \<le> length orig"
    and "part_ok f p" "part_text f p = take n (drop pos orig)"
  shows "\<exists>ch'. unchanged fs ch pos n (Some p) = Some (Inr ch') \<and> chunker_ok f orig (seen @ part_text f p) ch'"
proof -
  obtain ch1 where ch1: "chunker_ok f orig seen ch1" "orig_cursor ch1 = pos"
    "(if pos > orig_cursor ch then change fs ch (pos - orig_cursor ch) None else Some (Inr ch)) = Some (Inr ch1)"
  proof (cases "pos > orig_cursor ch")
    case True
    then show thesis
      using change_correct[OF assms(1,2), of "pos - orig_cursor ch" None] assms(4) that by auto
  next
    case False
    then show thesis using assms(2,3) that by simp
  qed
  show ?thesis
  proof (cases "ch_pending ch1")
    case None
    let ?ch = "ch1\<lparr>orig_cursor := pos + n\<rparr>"
    have "chunker_ok f orig (seen @ part_text f p) ?ch"
      using ch1(1,2) None assms(4,6) by (simp add: chunker_ok_empty take_add)
    with ch1(3) None show ?thesis by (simp add: unchanged_def)
  next
    case (Some q)
    define e where "e = pe_offset q + pe_original_len q"
    show ?thesis
    proof (cases "ch_gap ch1")
      case None
      let ?ch = "ch1\<lparr>ch_gap := None, orig_cursor := pos + n\<rparr>"
      note inv = ch1(1)[unfolded chunker_ok_closed[OF Some None], folded e_def]
      have "chunker_ok f orig (seen @ part_text f p) ?ch"
        using inv Some assms(4,6) ch1(2) take_drop_split[of e pos "pos + n" orig]
        by (subst chunker_ok_closed[of _ q]) (simp_all add: e_def)
      with ch1(3) Some None show ?thesis by (simp add: unchanged_def)
    next
      case gap: (Some g)
      obtain us m where g: "g = (us, m)" by (cases g)
      note inv = ch1(1)[unfolded chunker_ok_open[OF Some gap[unfolded g]], folded e_def]
      have split: "take (pos + n - e) (drop e orig) = take (pos - e) (drop e orig) @ take n (drop pos orig)"
        using take_drop_split[of e pos "pos + n" orig] inv ch1(2) by simp
      show ?thesis
      proof (cases "m + n \<le> RECOVERY_MERGE_GAP")
        case True
        let ?ch = "ch1\<lparr>ch_gap := Some (us @ [p], m + n), orig_cursor := pos + n\<rparr>"
        have "chunker_ok f orig (seen @ part_text f p) ?ch"
          using inv Some assms(4-6) ch1(2) split
          by (subst chunker_ok_open[of _ q "us @ [p]" "m + n"]) (simp_all add: e_def)
        with ch1(3) Some gap g True show ?thesis by (simp add: unchanged_def)
      next
        case False
        let ?ch = "ch1\<lparr>ch_gap := None, orig_cursor := pos + n\<rparr>"
        have "chunker_ok f orig (seen @ part_text f p) ?ch"
          using inv Some assms(4-6) ch1(2) split False
          by (subst chunker_ok_closed[of _ q]) (simp_all add: e_def)
        with ch1(3) Some gap g False show ?thesis by (simp add: unchanged_def)
      qed
    qed
  qed
qed

lemma finish_correct:
  assumes "fs_serves f fs" "chunker_ok f orig seen ch"
  shows "\<exists>cs. finish_chunks fs ch (length orig) = Some (Inr cs) \<and> chunks_ok (length orig) cs \<and>
    apply_chunks orig cs 0 [] = Some seen"
proof -
  obtain ch1 where ch1: "chunker_ok f orig seen ch1" "orig_cursor ch1 = length orig"
    "(if orig_cursor ch < length orig then change fs ch (length orig - orig_cursor ch) None
      else Some (Inr ch)) = Some (Inr ch1)"
  proof (cases "orig_cursor ch < length orig")
    case True
    then show thesis
      using change_correct[OF assms, of "length orig - orig_cursor ch" None] that by auto
  next
    case False
    then have "orig_cursor ch = length orig" using assms(2) by (simp add: chunker_ok_def Let_def)
    then show thesis using assms(2) that by simp
  qed
  have all: "chunks_ok (length orig) (all_chunks f ch1)" "chunks_end 0 (all_chunks f ch1) \<le> length orig"
    "seen = chunks_out orig 0 (all_chunks f ch1) @ drop (chunks_end 0 (all_chunks f ch1)) orig"
    using ch1(1,2) by (simp_all add: chunker_ok_def Let_def)
  have "finish_chunks fs ch (length orig) = Some (Inr (all_chunks f ch1))"
  proof (cases "ch_pending ch1")
    case None
    then show ?thesis using ch1(3) by (simp add: finish_chunks_def all_chunks_def)
  next
    case (Some p)
    have "list_all (part_ok f) (pe_parts p)"
      using ch1(1) Some by (simp add: chunker_ok_def Let_def)
    then have "complete fs p = Some (Inr (pending_chunk f p))"
      using complete_correct[OF assms(1)] by (simp add: pending_chunk_def)
    then show ?thesis using ch1(3) Some by (simp add: finish_chunks_def all_chunks_def)
  qed
  with all show ?thesis
    using apply_chunks_out[OF all(1), of 0 "[]"] by simp
qed

subsection \<open>Chunks of a buffer\<close>

text \<open>
  What the construction relies on: a piece the code takes for original text is inside the original file
  and holds its bytes.
\<close>

definition originals_ok :: "(string \<Rightarrow> byte list) \<Rightarrow> byte list \<Rightarrow> StringBuffer list \<Rightarrow> PieceView \<Rightarrow> bool" where
  "originals_ok f orig bufs pv \<longleftrightarrow>
     (case original_offset bufs pv of
        None \<Rightarrow> True
      | Some pos \<Rightarrow> pos + pv_bytes pv \<le> length orig \<and>
          view_text f bufs pv = take (pv_bytes pv) (drop pos orig))"

definition originals_kept :: "(string \<Rightarrow> byte list) \<Rightarrow> byte list \<Rightarrow> TextBuffer \<Rightarrow> bool" where
  "originals_kept f orig tb \<longleftrightarrow>
     list_all (originals_ok f orig (buffers tb))
       (iter_pieces_in_range (piece_tree tb) 0 (pt_total_bytes (piece_tree tb)))"

text \<open>The file an unloaded buffer stands for is no shorter than when it was opened.\<close>

definition file_covers :: "(string \<Rightarrow> byte list) \<Rightarrow> StringBuffer \<Rightarrow> bool" where
  "file_covers f b \<longleftrightarrow>
     (case sb_data b of Loaded _ _ \<Rightarrow> True | Unloaded p off n \<Rightarrow> off + n \<le> length (f p))"

lemma piece_part_correct:
  assumes "in_buffer f bufs (pv_location pv) (pv_buffer_offset pv) (pv_bytes pv)"
    and "list_all (file_covers f) bufs"
  shows "\<exists>p. piece_part bufs pv = Some p \<and> part_ok f p \<and> part_text f p = view_text f bufs pv"
proof -
  obtain b where b: "slice_get bufs (buffer_id (pv_location pv)) = Some b"
    "pv_buffer_offset pv + pv_bytes pv \<le> length (buffer_bytes f b)"
    "view_text f bufs pv = take (pv_bytes pv) (drop (pv_buffer_offset pv) (buffer_bytes f b))"
    using assms(1) by (rule in_bufferE) (simp add: view_text_def)
  then have "file_covers f b"
    using assms(2) by (auto simp: slice_get_def list_all_length split: if_splits)
  show ?thesis
  proof (cases "sb_data b")
    case (Loaded data ls)
    with b show ?thesis by (simp add: piece_part_def buffer_bytes_def index_range_def drop_take)
  next
    case (Unloaded path off m)
    then have "pv_buffer_offset pv + pv_bytes pv \<le> length (take m (drop off (f path)))" "off + m \<le> length (f path)"
      using b(2) \<open>file_covers f b\<close> by (simp_all add: buffer_bytes_def file_covers_def)
    with b Unloaded show ?thesis
      using unloaded_slice[of "pv_buffer_offset pv" "pv_bytes pv" m off "f path"]
      by (simp add: piece_part_def buffer_bytes_def)
  qed
qed

lemma recovery_loop_correct:
  assumes "fs_serves f fs" "list_all (file_covers f) bufs"
    and "\<forall>pv\<in>set pvs. in_buffer f bufs (pv_location pv) (pv_buffer_offset pv) (pv_bytes pv)"
    and "list_all (originals_ok f orig bufs) pvs" "chunker_ok f orig seen ch"
  shows "\<exists>ch'. recovery_loop fs bufs pvs ch = Some (Inr ch') \<and>
    chunker_ok f orig (seen @ concat (map (view_text f bufs) pvs)) ch'"
  using assms(3-5)
proof (induction pvs arbitrary: seen ch)
  case Nil
  then show ?case by simp
next
  case (Cons pv pvs)
  obtain p where p: "piece_part bufs pv = Some p" "part_ok f p" "part_text f p = view_text f bufs pv"
    using piece_part_correct[OF _ assms(2)] Cons.prems(1) by fastforce
  have changed: "\<exists>ch'. change fs ch 0 (Some p) = Some (Inr ch') \<and> chunker_ok f orig (seen @ view_text f bufs pv) ch'"
    using change_correct[OF assms(1) Cons.prems(3), of 0 "Some p"] p Cons.prems(3)
    by (auto simp: chunker_ok_def Let_def)
  obtain ch1 where ch1: "chunker_ok f orig (seen @ view_text f bufs pv) ch1"
    "recovery_loop fs bufs (pv # pvs) ch = recovery_loop fs bufs pvs ch1"
  proof (cases "original_offset bufs pv")
    case None
    with changed p that show thesis by auto
  next
    case (Some pos)
    show thesis
    proof (cases "orig_cursor ch \<le> pos")
      case True
      have "pos + pv_bytes pv \<le> length orig" "part_text f p = take (pv_bytes pv) (drop pos orig)"
        using Cons.prems(2) Some p(3) by (simp_all add: originals_ok_def)
      with unchanged_correct[OF assms(1) Cons.prems(3) True _ p(2)] obtain ch1 where
        "unchanged fs ch pos (pv_bytes pv) (Some p) = Some (Inr ch1)"
        "chunker_ok f orig (seen @ part_text f p) ch1" by blast
      with Some True p that show thesis by simp
    next
      case False
      with changed Some p that show thesis by auto
    qed
  qed
  show ?case
    using Cons.IH[OF _ _ ch1(1)] Cons.prems(1,2) ch1(2) by simp
qed

lemma get_recovery_chunks_correct:
  assumes "fs_serves f fs" "tb_ok f tb" "leaves_in_buffers f tb" "list_all (file_covers f) (buffers tb)"
    and "originals_kept f orig tb" "original_file_size tb = Some (length orig)"
  shows "\<exists>cs. get_recovery_chunks fs tb = Some (Inr cs) \<and> chunks_ok (length orig) cs \<and>
    apply_chunks orig cs 0 [] = Some (tb_text f tb)"
proof -
  let ?pvs = "iter_pieces_in_range (piece_tree tb) 0 (pt_total_bytes (piece_tree tb))"
  have "\<forall>pv\<in>set ?pvs. in_buffer f (buffers tb) (pv_location pv) (pv_buffer_offset pv) (pv_bytes pv)"
    using assms(3) collect_pieces_in_buffer by (fastforce simp: leaves_in_buffers_def iter_pieces_in_range_def)
  then obtain ch where "recovery_loop fs (buffers tb) ?pvs chunker_start = Some (Inr ch)"
    "chunker_ok f orig (tb_text f tb) ch"
    using recovery_loop_correct[OF assms(1,4) _ assms(5)[unfolded originals_kept_def] chunker_start_ok]
      document_pieces_text[OF assms(2)] by auto
  then show ?thesis
    using finish_correct[OF assms(1)] assms(6) by (simp add: get_recovery_chunks_def)
qed

subsection \<open>Reads that fail\<close>

text \<open>
  A file system that may fail, beside one that always answers: the run stops at the first read that
  fails, or it is the run of the other.
\<close>

definition fails_or :: "('x + 'a) option \<Rightarrow> ('x + 'a) option \<Rightarrow> bool" where
  "fails_or r r' \<longleftrightarrow> (\<exists>e. r = Some (Inl e)) \<or> r = r'"

definition answering :: "(string \<Rightarrow> byte list) \<Rightarrow> 'e FileSystem \<Rightarrow> 'e FileSystem" where
  "answering f fs = fs\<lparr>fs_read_range := \<lambda>p off n. Inr (take n (drop off (f p)))\<rparr>"

lemma answering_serves: "fs_serves f (answering f fs)"
  by (simp add: fs_serves_def answering_def)

lemma fails_or_refl [simp]: "fails_or r r"
  by (simp add: fails_or_def)

lemma fails_or_try:
  assumes "fails_or r r'" "\<And>a. fails_or (k a) (k' a)"
  shows "fails_or (try_then r k) (try_then r' k')"
  using assms unfolding fails_or_def try_then_def by (auto split: option.splits sum.splits)

lemma read_all_spans_or:
  assumes "read_range_contract f (fs_read_range fs)"
  shows "(\<exists>e. read_all_spans fs spans = Inl e) \<or> read_all_spans fs spans = read_all_spans (answering f fs) spans"
proof (induction spans)
  case (Cons sp spans)
  obtain p s e where sp: "sp = (p, s, e)" by (cases sp)
  show ?case
  proof (cases "fs_read_range fs p s (e - s)")
    case (Inr bytes)
    then have "bytes = take (e - s) (drop s (f p))" using assms by (simp add: read_range_contract_def)
    with Inr sp Cons show ?thesis by (auto simp: answering_def)
  qed (simp add: sp)
qed simp

lemma complete_or:
  assumes "read_range_contract f (fs_read_range fs)"
  shows "fails_or (complete fs p) (complete (answering f fs) p)"
  using read_all_spans_or[OF assms, of "fst (read_spans (pe_parts p))"]
  by (auto simp: complete_def fails_or_def split: prod.splits)

lemma change_or:
  assumes "read_range_contract f (fs_read_range fs)"
  shows "fails_or (change fs ch n c) (change (answering f fs) ch n c)"
  using complete_or[OF assms] by (auto simp: change_def Let_def intro!: fails_or_try split: option.splits)

lemma unchanged_or:
  assumes "read_range_contract f (fs_read_range fs)"
  shows "fails_or (unchanged fs ch pos n c) (unchanged (answering f fs) ch pos n c)"
  using change_or[OF assms] by (auto simp: unchanged_def intro!: fails_or_try)

lemma recovery_loop_or:
  assumes "read_range_contract f (fs_read_range fs)"
  shows "fails_or (recovery_loop fs bufs pvs ch) (recovery_loop (answering f fs) bufs pvs ch)"
  using change_or[OF assms] unchanged_or[OF assms]
  by (induction pvs arbitrary: ch) (auto intro!: fails_or_try split: option.splits)

lemma get_recovery_chunks_or:
  assumes "read_range_contract f (fs_read_range fs)"
  shows "fails_or (get_recovery_chunks fs tb) (get_recovery_chunks (answering f fs) tb)"
  using recovery_loop_or[OF assms] change_or[OF assms] complete_or[OF assms]
  by (auto simp: get_recovery_chunks_def finish_chunks_def intro!: fails_or_try split: option.splits)

subsection \<open>The stored entry\<close>

lemma split_contents_concat:
  "split_contents (map to_meta cs) (concat (map rc_content cs) @ rest) = map rc_content cs"
  by (induction cs arbitrary: rest) (simp_all add: to_meta_def)

lemma fold_contents: "fold (\<lambda>chunk all. all @ rc_content chunk) cs all = all @ concat (map rc_content cs)"
  by (induction cs arbitrary: all) simp_all

lemma sum_meta_sizes: "sum_list (map cm_size (map to_meta cs)) = length (concat (map rc_content cs))"
  by (induction cs) (simp_all add: to_meta_def)

lemma rebuilt_chunks:
  "map (\<lambda>(m, c). RecoveryChunk_new (cm_offset m) (cm_original_len m) c)
     (zip (map to_meta cs) (map rc_content cs)) = cs"
  by (induction cs) (simp_all add: to_meta_def RecoveryChunk_new_def)

lemma read_saved_recovery:
  assumes "save_recovery cs n m = (index, content)" "read 0 = Inr content"
  shows "read_chunked_content index read = Inr (ChunkedRecoveryData_new n m cs)"
proof -
  have "index = to_index (ChunkedRecoveryData_new n m cs)" "content = concat (map rc_content cs)"
    using assms(1) by (simp_all add: save_recovery_def ChunkedRecoveryData_new_def fold_contents)
  then show ?thesis
    using assms(2) split_contents_concat[of cs "[]"] sum_meta_sizes[of cs] rebuilt_chunks[of cs]
    by (simp add: read_chunked_content_def to_index_def ChunkedRecoveryData_new_def del: length_concat)
qed

end
