(* ===== verification/Lazy_Load.thy ===== *)
theory Lazy_Load
  imports Text_Buffer
begin

text \<open>
  Lazy loading of a buffer does not change its text: \<open>chunk_split_and_load\<close> on a piece whose
  chunk starts inside the piece, with its line feed fix-ups and its update of the saved root. On a
  piece larger than \<open>LOAD_CHUNK_SIZE\<close> whose buffer offset is not aligned to \<open>CHUNK_ALIGNMENT\<close>,
  the chunk can start before the piece, and then the text does change.
\<close>

subsection \<open>Unknown counts belong to leaves that hold text\<close>

definition counted :: "LeafData list \<Rightarrow> bool" where
  "counted lds \<longleftrightarrow> list_all (\<lambda>ld. ld_line_feed_cnt ld = None \<longrightarrow> 0 < ld_bytes ld) lds"

lemma counted_simps [simp]:
  "counted []" "counted (x # xs) \<longleftrightarrow> (ld_line_feed_cnt x = None \<longrightarrow> 0 < ld_bytes x) \<and> counted xs"
  "counted (xs @ ys) \<longleftrightarrow> counted xs \<and> counted ys"
  by (auto simp: counted_def)

lemma collect_leaves_with_split_counted:
  "collect_leaves_with_split n cur p None acc b = Some lds \<Longrightarrow> counted (node_leaves n) \<Longrightarrow>
     counted acc \<Longrightarrow> counted lds"
proof (induction n arbitrary: cur acc lds)
  case (Internal lb lf l r)
  obtain ls where ls: "collect_leaves_with_split l cur p None acc b = Some ls"
    "collect_leaves_with_split r (cur + lb) p None ls b = Some lds"
    using Internal.prems(1) by (auto simp: bind_eq_Some_conv split: if_splits)
  then have "counted ls" using Internal.IH(1)[OF ls(1)] Internal.prems by simp
  then show ?case using Internal.IH(2)[OF ls(2)] Internal.prems by simp
next
  case (Leaf loc off n lf)
  then show ?case by (auto simp: Let_def bind_eq_Some_conv split: if_splits)
qed

lemma split_at_offset_counted:
  assumes "split_at_offset t p b = Some t'" "counted (node_leaves (root t))"
  shows "counted (node_leaves (root t'))"
proof (cases "t' = t")
  case False
  then obtain lds where l: "collect_leaves_with_split (root t) 0 p None [] b = Some lds"
    "t' = check_and_rebalance (t\<lparr>root := build_balanced lds\<rparr>)"
    using assms(1)
    by (auto simp: split_at_offset_def bind_eq_Some_conv split: if_splits option.splits)
  have "counted lds" using collect_leaves_with_split_counted[OF l(1) assms(2)] by simp
  then show ?thesis using l(2)
    by (cases "lds = []") (simp_all add: build_balanced_leaves empty_leaf_def)
qed (use assms in simp)

lemma replace_buffer_reference_counted:
  assumes "counted (node_leaves (root t))"
  shows "counted (node_leaves (root (replace_buffer_reference t i off n loc)))"
proof -
  let ?g = "\<lambda>leaf. if buffer_id (ld_location leaf) = i \<and> ld_offset leaf = off \<and> ld_bytes leaf = n
      then leaf\<lparr>ld_location := loc, ld_offset := 0\<rparr> else leaf"
  have "counted (map ?g lds) = counted lds" for lds by (induction lds) auto
  then show ?thesis using assms by (simp add: replace_buffer_reference_def Let_def build_balanced_leaves)
qed

subsection \<open>Line feed fix-ups\<close>

lemma scan_leaf_correct:
  assumes "fs_contract f fs" "ld_ok f (buffers tb) ld" "0 < ld_bytes ld"
  shows "\<exists>r. scan_leaf fs tb ld = Some r \<and> (\<forall>k. r = Inr k \<longrightarrow> k = count_nl (ld_text f (buffers tb) ld))"
proof -
  let ?i = "buffer_id (ld_location ld)"
  have len: "length (ld_text f (buffers tb) ld) = ld_bytes ld" using assms(2) by (simp add: ld_ok_alt)
  then obtain b where b: "slice_get (buffers tb) ?i = Some b"
    using assms(3) by (cases "slice_get (buffers tb) ?i") (auto simp: ld_text_def piece_text_def)
  then have tx: "ld_text f (buffers tb) ld = take (ld_bytes ld) (drop (ld_offset ld) (buffer_bytes f b))"
    by (simp add: ld_text_def piece_text_def)
  then have bound: "ld_offset ld + ld_bytes ld \<le> length (buffer_bytes f b)"
    using len assms(3) by auto
  show ?thesis
  proof (cases "sb_data b")
    case (Loaded data ls)
    then show ?thesis using b tx bound
      by (simp add: scan_leaf_def index_range_def buffer_bytes_def Let_def min_absorb1)
  next
    case (Unloaded p fo n)
    then have "min (ld_bytes ld) (n - ld_offset ld) = ld_bytes ld"
      using bound by (simp add: buffer_bytes_def) linarith
    then have "ld_text f (buffers tb) ld = take (ld_bytes ld) (drop (fo + ld_offset ld) (f p))"
      using tx Unloaded by (simp add: buffer_bytes_def drop_take add.commute)
    then show ?thesis using b Unloaded assms(1)
      by (auto simp: scan_leaf_def fs_contract_def Let_def split: sum.splits)
  qed
qed

text \<open>Leaves whose count is right, once it is read, are counted right by the fix-ups.\<close>

lemma collect_fixups_scanned:
  assumes "\<And>ld. ld \<in> set lds \<Longrightarrow> ld_line_feed_cnt ld = None \<Longrightarrow>
    \<exists>r. scan_leaf fs tb ld = Some r \<and> (\<forall>k. r = Inr k \<longrightarrow> k = count_nl (ld_text f (buffers tb) ld))"
  shows "\<exists>us. collect_fixups fs tb i lds = Some us \<and>
           (\<forall>(j, k)\<in>set us. i \<le> j \<and> j < i + length lds \<and> k = count_nl (ld_text f (buffers tb) (lds ! (j - i))))"
  using assms
proof (induction lds arbitrary: i)
  case (Cons ld lds)
  obtain us where us: "collect_fixups fs tb (i + 1) lds = Some us"
    "\<forall>(j, k)\<in>set us. i + 1 \<le> j \<and> j < i + 1 + length lds \<and>
       k = count_nl (ld_text f (buffers tb) (lds ! (j - (i + 1))))"
    using Cons.IH[of "i + 1"] Cons.prems by auto
  have shift: "\<forall>(j, k)\<in>set us. i \<le> j \<and> j < i + length (ld # lds) \<and>
       k = count_nl (ld_text f (buffers tb) ((ld # lds) ! (j - i)))"
    using us(2) by (fastforce simp: nth_Cons' diff_diff_left)
  show ?case
  proof (cases "ld_line_feed_cnt ld")
    case None
    then obtain r where r: "scan_leaf fs tb ld = Some r"
      "\<forall>k. r = Inr k \<longrightarrow> k = count_nl (ld_text f (buffers tb) ld)"
      using Cons.prems[of ld] by auto
    show ?thesis using None us(1) r shift by (cases r) auto
  next
    case (Some k)
    then show ?thesis using us(1) shift by simp
  qed
qed simp

lemma collect_fixups_correct:
  assumes "fs_contract f fs" "list_all (ld_ok f (buffers tb)) lds" "counted lds"
  shows "\<exists>us. collect_fixups fs tb i lds = Some us \<and>
           (\<forall>(j, k)\<in>set us. i \<le> j \<and> j < i + length lds \<and> k = count_nl (ld_text f (buffers tb) (lds ! (j - i))))"
proof (rule collect_fixups_scanned)
  fix ld assume "ld \<in> set lds" "ld_line_feed_cnt ld = None"
  then have "ld_ok f (buffers tb) ld" "0 < ld_bytes ld"
    using assms(2,3) by (auto simp: list_all_iff counted_def)
  then show "\<exists>r. scan_leaf fs tb ld = Some r \<and> (\<forall>k. r = Inr k \<longrightarrow> k = count_nl (ld_text f (buffers tb) ld))"
    by (rule scan_leaf_correct[OF assms(1)])
qed

lemma apply_lf_updates_ok:
  assumes "list_all (ld_ok f b) lds"
    "\<forall>(j, k)\<in>set us. j < length lds \<longrightarrow> k = count_nl (ld_text f b (lds ! j))"
  shows "list_all (ld_ok f b) (apply_lf_updates lds us)"
  using assms
proof (induction lds us rule: apply_lf_updates.induct)
  case (2 lds j k us)
  let ?lds = "if j < length lds then lds[j := set_lf k (lds ! j)] else lds"
  have tx: "ld_text f b (?lds ! i) = ld_text f b (lds ! i)" for i
    by (cases "i = j") (auto simp: ld_text_def)
  have "ld_ok f b (set_lf k (lds ! j))" if "j < length lds"
    using that "2.prems" by (auto simp: list_all_length ld_ok_alt ld_text_def)
  then have "list_all (ld_ok f b) ?lds" using "2.prems"(1) by (auto intro: list_all_update)
  moreover have "length ?lds = length lds" by simp
  ultimately show ?case using "2.IH" "2.prems"(2) tx by (auto simp del: if_split)
qed simp

lemma update_path_copy_ok:
  assumes "pt_ok f b t"
    "\<forall>(j, k)\<in>set us. j < length (node_leaves (root t)) \<longrightarrow> k = count_nl (ld_text f b (node_leaves (root t) ! j))"
  shows "pt_ok f b (update_leaf_line_feeds_path_copy t us)"
    "pt_text f b (update_leaf_line_feeds_path_copy t us) = pt_text f b t"
proof -
  have "caches_ok (root t)" "list_all (ld_ok f b) (node_leaves (root t))"
    using assms(1) by (auto simp: pt_ok_def node_ok_def)
  note p = path_copy_updates[OF this(1) refl, of us] and ok = apply_lf_updates_ok[OF this(2) assms(2)]
  show "pt_ok f b (update_leaf_line_feeds_path_copy t us)"
    "pt_text f b (update_leaf_line_feeds_path_copy t us) = pt_text f b t"
    using p ok assms(1) by (simp_all add: pt_ok_def node_ok_def pt_text_def node_text_def apply_lf_updates_text)
qed

subsection \<open>Loading a chunk\<close>

lemma chunk_bounds_inside:
  assumes "CHUNK_ALIGNMENT dvd pv_buffer_offset pv \<or> pv_bytes pv \<le> LOAD_CHUNK_SIZE"
  shows "pv_buffer_offset pv \<le> fst (chunk_bounds pv oip)"
proof (cases "pv_bytes pv \<le> LOAD_CHUNK_SIZE")
  case False
  then obtain k where k: "pv_buffer_offset pv = CHUNK_ALIGNMENT * k" using assms by (auto elim: dvdE)
  have "k \<le> (CHUNK_ALIGNMENT * k + oip) div CHUNK_ALIGNMENT"
    by (simp add: CHUNK_ALIGNMENT_def)
  then show ?thesis using False k by (simp add: chunk_bounds_def Let_def)
qed (simp add: chunk_bounds_def)

lemma create_chunk_buffer_chunk:
  assumes "slice_get bufs i = Some b" "create_chunk_buffer b (length bufs) cs n = Some c"
  shows "chunk_of f (bufs @ [c]) i cs n (length bufs)" "sb_ok c" "sb_id c = length bufs"
  using assms
  by (auto simp: create_chunk_buffer_def chunk_of_def slice_get_def nth_append new_unloaded_def
      buffer_bytes_def sb_ok_def Let_def drop_take min_def add.commute
      split: BufferData.splits if_splits)

lemma chunk_of_ext:
  assumes "chunk_of f bufs i cs n new" "length bufs' = length bufs"
    "\<forall>j<length bufs. buffer_bytes f (bufs' ! j) = buffer_bytes f (bufs ! j)"
  shows "chunk_of f bufs' i cs n new"
  using assms by (simp add: chunk_of_def)

lemma split_tree_ok:
  assumes "tb_ok f tb" "counted (node_leaves (root (piece_tree tb)))"
  shows "\<exists>t. (if c then split_at_offset (piece_tree tb) p (buffers tb) else Some (piece_tree tb)) = Some t \<and>
           tb_ok f (tb\<lparr>piece_tree := t\<rparr>) \<and> tb_text f (tb\<lparr>piece_tree := t\<rparr>) = tb_text f tb \<and>
           saved_text f (tb\<lparr>piece_tree := t\<rparr>) = saved_text f tb \<and> counted (node_leaves (root t))"
proof -
  have ok: "pt_ok f (buffers tb) (piece_tree tb)" using assms(1) by (simp add: tb_ok_def)
  obtain t where t: "split_at_offset (piece_tree tb) p (buffers tb) = Some t" "pt_ok f (buffers tb) t"
    "pt_text f (buffers tb) t = tb_text f tb"
    using split_at_offset_correct[OF ok, of p] by (auto simp: tb_text_def)
  show ?thesis
    using t set_tree_ok[OF assms(1) t(2)] set_tree_ok[OF assms(1) ok] assms
      split_at_offset_counted[OF t(1) assms(2)] by (cases c) (simp_all add: tb_text_def)
qed

lemma reference_chunk_ok:
  assumes ok: "tb_ok f tb" "counted (node_leaves (root (piece_tree tb)))"
    and b: "slice_get (buffers tb) i = Some b" "create_chunk_buffer b (next_buffer_id tb) cs n = Some c"
  defines "tb3 \<equiv> tb\<lparr>next_buffer_id := next_buffer_id tb + 1, buffers := buffers tb @ [c],
      piece_tree := replace_buffer_reference (piece_tree tb) i cs n (Added (sb_id c))\<rparr>"
  shows "tb_ok f tb3" "tb_text f tb3 = tb_text f tb" "saved_text f tb3 = saved_text f tb"
    "counted (node_leaves (root (piece_tree tb3)))"
    "chunk_of f (buffers tb3) i cs n (sb_id c)" "slice_get (buffers tb3) (sb_id c) = Some c"
proof -
  have nid: "next_buffer_id tb = length (buffers tb)" using ok(1) by (simp add: tb_ok_def)
  note c = create_chunk_buffer_chunk[OF b(1) b(2)[unfolded nid]]
  let ?bs = "buffers tb @ [c]"
  have id: "sb_id c = length (buffers tb)" by (rule c(3))
  have ch: "chunk_of f ?bs i cs n (sb_id c)" using c(1)[of f] id by simp
  let ?g = "tb\<lparr>next_buffer_id := next_buffer_id tb + 1, buffers := ?bs\<rparr>"
  have "tb_grown f tb ?g" using ok(1) c(2) by (simp add: tb_grown_def tb_ok_def)
  note g = tb_grown_ok[OF ok(1) this]
  have pt: "pt_ok f ?bs (piece_tree tb)" using g(1) by (simp add: tb_ok_def)
  have same: "piece_text f ?bs (Added (sb_id c)) 0 n = piece_text f ?bs l cs n" if "buffer_id l = i" for l
    using chunk_of_text[OF ch that, of 0 n] by simp
  note r = replace_buffer_reference_correct[OF pt same]
  have tb3: "tb3 = ?g\<lparr>piece_tree := replace_buffer_reference (piece_tree tb) i cs n (Added (sb_id c))\<rparr>"
    by (simp add: tb3_def)
  have "pt_ok f (buffers ?g) (replace_buffer_reference (piece_tree tb) i cs n (Added (sb_id c)))"
    using r(1) by simp
  note st = set_tree_ok[OF g(1) this]
  show "tb_ok f tb3" "saved_text f tb3 = saved_text f tb" using st g unfolding tb3 by simp_all
  show "tb_text f tb3 = tb_text f tb" using st(2) r(2) g(2) unfolding tb3 by (simp add: tb_text_def)
  show "counted (node_leaves (root (piece_tree tb3)))"
    using replace_buffer_reference_counted[OF ok(2)] by (simp add: tb3_def)
  show "chunk_of f (buffers tb3) i cs n (sb_id c)" using ch by (simp add: tb3_def)
  show "slice_get (buffers tb3) (sb_id c) = Some c" using id by (simp add: tb3_def slice_get_def)
qed

lemma load_buffer_ok:
  assumes "fs_contract f fs" "tb_ok f tb" "slice_get (buffers tb) j = Some b"
    "load (fs_read_range fs) b = Some (Inr b')"
  defines "tb' \<equiv> tb\<lparr>buffers := (buffers tb)[j := b']\<rparr>"
  shows "tb_ok f tb'" "tb_text f tb' = tb_text f tb" "saved_text f tb' = saved_text f tb"
    "chunk_of f (buffers tb) i cs n new \<Longrightarrow> chunk_of f (buffers tb') i cs n new"
proof -
  have rr: "read_range_contract f (fs_read_range fs)" using assms(1) by (simp add: fs_contract_def)
  have j: "j < length (buffers tb)" "b = buffers tb ! j"
    using assms(3) by (auto simp: slice_get_def split: if_splits)
  have "sb_ok b" using assms(2) j by (simp add: tb_ok_def list_all_length)
  note l = load_ok[OF rr assms(4) this]
  have "tb_grown f tb tb'" using l j assms(2) unfolding tb'_def
    by (auto simp: tb_grown_def tb_ok_def list_all_update intro!: bufs_ext_update[of _ _ _ _ "[]"])
  note g = tb_grown_ok[OF assms(2) this]
  show "tb_ok f tb'" "tb_text f tb' = tb_text f tb" "saved_text f tb' = saved_text f tb"
    using g by simp_all
  show "chunk_of f (buffers tb) i cs n new \<Longrightarrow> chunk_of f (buffers tb') i cs n new"
    using l(3) j by (auto simp: tb'_def nth_list_update elim!: chunk_of_ext)
qed

lemma fix_line_feeds_ok:
  assumes "fs_contract f fs" "tb_ok f tb" "counted (node_leaves (root (piece_tree tb)))"
  shows "\<exists>t. fix_line_feeds fs tb = Some (tb\<lparr>piece_tree := t\<rparr>) \<and> tb_ok f (tb\<lparr>piece_tree := t\<rparr>) \<and>
           tb_text f (tb\<lparr>piece_tree := t\<rparr>) = tb_text f tb"
proof -
  let ?lds = "node_leaves (root (piece_tree tb))"
  have pt: "pt_ok f (buffers tb) (piece_tree tb)" using assms(2) by (simp add: tb_ok_def)
  then have lds: "list_all (ld_ok f (buffers tb)) ?lds" by (simp add: pt_ok_def node_ok_def)
  obtain us where us: "collect_fixups fs tb 0 ?lds = Some us"
    "\<forall>(j, k)\<in>set us. 0 \<le> j \<and> j < 0 + length ?lds \<and> k = count_nl (ld_text f (buffers tb) (?lds ! (j - 0)))"
    using collect_fixups_correct[OF assms(1) lds assms(3), of 0] by blast
  then have "\<forall>(j, k)\<in>set us. j < length ?lds \<longrightarrow> k = count_nl (ld_text f (buffers tb) (?lds ! j))"
    by auto
  note u = update_path_copy_ok[OF pt this]
  note s = set_tree_ok[OF assms(2) u(1)] set_tree_ok[OF assms(2) pt]
  have "tb = tb\<lparr>piece_tree := piece_tree tb\<rparr>" by simp
  then show ?thesis using us(1) s u(2) assms(2)
    by (cases "fk_line_feeds_scanned (file_kind tb) \<and> us \<noteq> []")
      (auto simp: fix_line_feeds_def get_leaves_def tb_text_def
        intro: exI[of _ "update_leaf_line_feeds_path_copy (piece_tree tb) us"] exI[of _ "piece_tree tb"])
qed

lemma sync_saved_root_ok:
  assumes "tb_ok f tb" "chunk_of f (buffers tb) i cs n new"
  defines "tb' \<equiv> sync_saved_root tb i cs n new"
  shows "tb_ok f tb'" "tb_text f tb' = tb_text f tb"
    "saved_text f tb' = (if p_modified (persistence tb) then saved_text f tb else tb_text f tb)"
proof -
  have "node_ok f (buffers tb) (p_saved_root (persistence tb))" using assms(1) by (simp add: tb_ok_def)
  note a = apply_chunk_load_correct[OF assms(2) this]
  show "tb_ok f tb'" "tb_text f tb' = tb_text f tb"
    "saved_text f tb' = (if p_modified (persistence tb) then saved_text f tb else tb_text f tb)"
    using a assms(1)
    by (simp_all add: tb'_def sync_saved_root_def tb_ok_def tb_text_def saved_text_def pt_ok_def
        pt_text_def set_saved_root_def bump_save_state_def Let_def)
qed

lemma install_chunk_ok:
  assumes fs: "fs_contract f fs" and ok: "tb_ok f tb" "counted (node_leaves (root (piece_tree tb)))"
    and b: "slice_get (buffers tb) i = Some b" "create_chunk_buffer b (next_buffer_id tb) cs n = Some c"
  shows "\<exists>tb' r. install_chunk fs tb i cs cs n c = Some (tb', r) \<and> tb_ok f tb' \<and>
           tb_text f tb' = tb_text f tb \<and>
           saved_text f tb' = (if p_modified (persistence tb) \<or> r \<noteq> Inr True then saved_text f tb
                               else tb_text f tb)"
proof -
  define tb3 where "tb3 = tb\<lparr>next_buffer_id := next_buffer_id tb + 1, buffers := buffers tb @ [c],
      piece_tree := replace_buffer_reference (piece_tree tb) i cs n (Added (sb_id c))\<rparr>"
  note r3 = reference_chunk_ok[OF ok b, folded tb3_def]
  have m3: "p_modified (persistence tb3) = p_modified (persistence tb)" by (simp add: tb3_def)
  have rr: "read_range_contract f (fs_read_range fs)" using fs by (simp add: fs_contract_def)
  obtain r where r: "load (fs_read_range fs) c = Some r" using load_never_panics[OF rr] by blast
  show ?thesis
  proof (cases r)
    case (Inl e)
    then have "install_chunk fs tb i cs cs n c = Some (tb3, Inl (Failed_to_load e))"
      unfolding install_chunk_def Let_def tb3_def[symmetric] using r r3(6) by simp
    then show ?thesis using r3 by simp
  next
    case (Inr c')
    define tb4 where "tb4 = tb3\<lparr>buffers := (buffers tb3)[sb_id c := c']\<rparr>"
    note l4 = load_buffer_ok[OF fs r3(1) r3(6), of c', folded tb4_def]
    have ld: "load (fs_read_range fs) c = Some (Inr c')" using r Inr by simp
    have ct: "counted (node_leaves (root (piece_tree tb4)))" using r3(4) by (simp add: tb4_def)
    obtain t where t: "fix_line_feeds fs tb4 = Some (tb4\<lparr>piece_tree := t\<rparr>)"
      "tb_ok f (tb4\<lparr>piece_tree := t\<rparr>)" "tb_text f (tb4\<lparr>piece_tree := t\<rparr>) = tb_text f tb4"
      using fix_line_feeds_ok[OF fs l4(1)[OF ld] ct] by blast
    have "chunk_of f (buffers (tb4\<lparr>piece_tree := t\<rparr>)) i cs n (sb_id c)" using l4(4)[OF ld r3(5)] by simp
    note s5 = sync_saved_root_ok[OF t(2) this]
    have "install_chunk fs tb i cs cs n c =
        Some (sync_saved_root (tb4\<lparr>piece_tree := t\<rparr>) i cs n (sb_id c), Inr True)"
      unfolding install_chunk_def Let_def tb3_def[symmetric] using r3(6) ld t(1) tb4_def by simp
    moreover have "saved_text f (tb4\<lparr>piece_tree := t\<rparr>) = saved_text f tb" "p_modified (persistence tb4) = p_modified (persistence tb)"
      using l4(3)[OF ld] r3(3) m3 by (simp_all add: saved_text_def tb4_def)
    ultimately show ?thesis using s5 t(3) l4(2)[OF ld] r3(2) by simp
  qed
qed

lemma load_chunk_correct:
  assumes fs: "fs_contract f fs" and ok: "tb_ok f tb" "counted (node_leaves (root (piece_tree tb)))"
    and inside: "pv_buffer_offset pv \<le> fst (chunk_bounds pv (cur - pv_doc_offset pv))"
  shows "\<exists>tb' r. load_chunk fs tb pv cur = Some (tb', r) \<and> tb_ok f tb' \<and> tb_text f tb' = tb_text f tb \<and>
           saved_text f tb' = (if p_modified (persistence tb) \<or> r \<noteq> Inr True then saved_text f tb
                               else tb_text f tb)"
proof -
  obtain cs n where cb: "chunk_bounds pv (cur - pv_doc_offset pv) = (cs, n)" by force
  have cs: "pv_buffer_offset pv + (cs - pv_buffer_offset pv) = cs" using inside cb by simp
  define i where "i = buffer_id (pv_location pv)"
  define s where "s = pv_doc_offset pv + (cs - pv_buffer_offset pv)"
  obtain t1 where t1: "(if cs - pv_buffer_offset pv > 0
      then split_at_offset (piece_tree tb) s (buffers tb) else Some (piece_tree tb)) = Some t1"
    "tb_ok f (tb\<lparr>piece_tree := t1\<rparr>)" "tb_text f (tb\<lparr>piece_tree := t1\<rparr>) = tb_text f tb"
    "saved_text f (tb\<lparr>piece_tree := t1\<rparr>) = saved_text f tb" "counted (node_leaves (root t1))"
    using split_tree_ok[OF ok] by blast
  obtain t2 where t2: "(if s + n < pv_doc_offset pv + pv_bytes pv
      then split_at_offset t1 (s + n) (buffers tb) else Some t1) = Some t2"
    "tb_ok f (tb\<lparr>piece_tree := t2\<rparr>)" "tb_text f (tb\<lparr>piece_tree := t2\<rparr>) = tb_text f tb"
    "saved_text f (tb\<lparr>piece_tree := t2\<rparr>) = saved_text f tb" "counted (node_leaves (root t2))"
    using split_tree_ok[OF t1(2), of "s + n < pv_doc_offset pv + pv_bytes pv" "s + n"] t1(3,4,5)
    by (cases "s + n < pv_doc_offset pv + pv_bytes pv") auto
  define tb2 where "tb2 = tb\<lparr>piece_tree := t2\<rparr>"
  have k2: "tb_ok f tb2" "counted (node_leaves (root (piece_tree tb2)))" "tb_text f tb2 = tb_text f tb"
    "saved_text f tb2 = saved_text f tb" "p_modified (persistence tb2) = p_modified (persistence tb)"
    using t2 by (simp_all add: tb2_def)
  have eq: "load_chunk fs tb pv cur =
      (case slice_get (buffers tb2) i of
        None \<Rightarrow> Some (tb2, Inl Buffer_not_found)
      | Some buffer \<Rightarrow>
          (case create_chunk_buffer buffer (next_buffer_id tb2) cs n of
             None \<Rightarrow> Some (tb2, Inl Failed_to_create_chunk)
           | Some chunk_buffer \<Rightarrow> install_chunk fs tb2 i cs cs n chunk_buffer))"
    unfolding load_chunk_def Let_def cb prod.case i_def[symmetric] s_def[symmetric] cs tb2_def
    by (simp only: t1(1) t2(1) bind.bind_lunit)
  show ?thesis
  proof (cases "slice_get (buffers tb2) i")
    case None
    then show ?thesis using eq k2 by simp
  next
    case (Some b)
    show ?thesis
    proof (cases "create_chunk_buffer b (next_buffer_id tb2) cs n")
      case None
      then show ?thesis using eq k2 Some by simp
    next
      case c: (Some c)
      then have "load_chunk fs tb pv cur = install_chunk fs tb2 i cs cs n c" using eq Some by simp
      then show ?thesis using install_chunk_ok[OF fs k2(1,2) Some c] unfolding k2(3-5) by simp
    qed
  qed
qed

lemma chunk_split_and_load_correct:
  assumes fs: "fs_contract f fs" and ok: "tb_ok f tb" "counted (node_leaves (root (piece_tree tb)))"
    and inside: "pv_buffer_offset pv \<le> fst (chunk_bounds pv (cur - pv_doc_offset pv))"
  shows "\<exists>tb' r. chunk_split_and_load fs tb pv cur = Some (tb', r) \<and> tb_ok f tb' \<and>
           tb_text f tb' = tb_text f tb \<and>
           saved_text f tb' = (if p_modified (persistence tb) \<or> r \<noteq> Inr True then saved_text f tb
                               else tb_text f tb)"
proof -
  let ?i = "buffer_id (pv_location pv)"
  have rr: "read_range_contract f (fs_read_range fs)" using fs by (simp add: fs_contract_def)
  show ?thesis
  proof (cases "pv_bytes pv > LOAD_CHUNK_SIZE \<or> (case slice_get (buffers tb) ?i of
      Some b \<Rightarrow> (case unloaded_bytes b of Some n \<Rightarrow> n | None \<Rightarrow> 0) | None \<Rightarrow> 0) > pv_bytes pv")
    case True
    then have eq: "chunk_split_and_load fs tb pv cur = load_chunk fs tb pv cur"
      unfolding chunk_split_and_load_def Let_def by (simp only: not_True_eq_False if_False)
    show ?thesis unfolding eq by (rule load_chunk_correct[OF fs ok inside])
  next
    case False
    then have eq: "chunk_split_and_load fs tb pv cur = (case slice_get (buffers tb) ?i of
           None \<Rightarrow> Some (tb, Inl Buffer_not_found)
         | Some buffer \<Rightarrow>
             map_option (\<lambda>r. case r of
                 Inl e \<Rightarrow> (tb, Inl (Failed_to_load e))
               | Inr loaded \<Rightarrow> (tb\<lparr>buffers := (buffers tb)[?i := loaded]\<rparr>, Inr False))
               (load (fs_read_range fs) buffer))"
      unfolding chunk_split_and_load_def Let_def by (simp only: not_False_eq_True if_True)
    show ?thesis
    proof (cases "slice_get (buffers tb) ?i")
      case None
      then show ?thesis using eq ok(1) by simp
    next
      case (Some b)
      obtain r where r: "load (fs_read_range fs) b = Some r" using load_never_panics[OF rr] by blast
      show ?thesis
      proof (cases r)
        case (Inl e)
        then show ?thesis using eq Some r ok(1) by simp
      next
        case (Inr b')
        then show ?thesis using eq Some r load_buffer_ok[OF fs ok(1) Some, of b'] by simp
      qed
    qed
  qed
qed

subsection \<open>A chunk that starts before its piece\<close>

text \<open>
  A buffer over a file of which the first \<open>skip\<close> bytes have been deleted before anything was
  loaded: one piece at buffer offset \<open>skip\<close>.
\<close>

definition trimmed_file :: "string \<Rightarrow> nat \<Rightarrow> nat \<Rightarrow> byte list \<Rightarrow> Encoding \<Rightarrow> bool \<Rightarrow> TextBuffer" where
  "trimmed_file path len skip sample enc bin =
     mark_content_modified
       ((lazy_file path len sample enc bin)\<lparr>piece_tree := pt_new (Stored 0) skip (len - skip) None\<rparr>)"

definition whole_piece :: "nat \<Rightarrow> nat \<Rightarrow> PieceView" where
  "whole_piece len skip =
     \<lparr>pv_location = Stored 0, pv_buffer_offset = skip, pv_bytes = len - skip, pv_doc_offset = 0,
      pv_line_feed_cnt = None\<rparr>"

lemma lazy_file_simps [simp]:
  "buffers (lazy_file path len sample enc bin) = [new_unloaded 0 path 0 len]"
  "next_buffer_id (lazy_file path len sample enc bin) = 1"
  "piece_tree (lazy_file path len sample enc bin) =
     (if len > 0 then pt_new (Stored 0) 0 len None else pt_empty)"
  "p_saved_root (persistence (lazy_file path len sample enc bin)) =
     root (piece_tree (lazy_file path len sample enc bin))"
  "\<not> fk_line_feeds_scanned (file_kind (lazy_file path len sample enc bin))"
  "\<not> p_modified (persistence (lazy_file path len sample enc bin))"
  by (simp_all add: lazy_file_def Let_def new_unloaded_def persistence_new_def file_kind_new_def)

lemma lazy_file_ok:
  assumes "length (f path) = len"
  shows "tb_ok f (lazy_file path len sample enc bin)" "tb_text f (lazy_file path len sample enc bin) = f path"
    "saved_text f (lazy_file path len sample enc bin) = f path"
  using assms
  by (auto simp: tb_ok_def tb_text_def saved_text_def piece_ok_def piece_text_def slice_get_def pt_ok_def
      new_unloaded_def buffer_bytes_def sb_ok_def pt_new_def pt_empty_def pt_text_def)

lemma trimmed_file_ok:
  assumes "length (f path) = len" "skip \<le> len"
  shows "tb_ok f (trimmed_file path len skip sample enc bin)"
    "tb_text f (trimmed_file path len skip sample enc bin) = drop skip (f path)"
  using assms lazy_file_ok(1)[of f path len sample enc bin]
  by (auto simp: trimmed_file_def tb_ok_def tb_text_def pt_text_def pt_new_def pt_ok_def piece_ok_def
      piece_text_def slice_get_def new_unloaded_def buffer_bytes_def sb_ok_def)

text \<open>Deleting the first \<open>skip\<close> bytes of a file that has just been opened gives that buffer.\<close>

lemma delete_from_lazy_file:
  assumes "0 < skip" "skip < len"
  shows "delete_bytes fs (lazy_file path len sample enc bin) 0 skip =
           Some (trimmed_file path len skip sample enc bin)"
proof -
  have "compute_line_feeds_static [new_unloaded 0 path 0 len] (Stored 0) off n = Some None" for off n
    by (simp add: compute_line_feeds_static_def slice_get_def new_unloaded_def get_data_def)
  then have "pt_delete (pt_new (Stored 0) 0 len None) 0 skip [new_unloaded 0 path 0 len] =
      Some (pt_new (Stored 0) skip (len - skip) None)"
    using assms by (simp add: pt_delete_def pt_new_def check_and_rebalance_def Let_def)
  then show ?thesis using assms by (simp add: delete_bytes_def trimmed_file_def) (simp add: pt_new_def)
qed

lemma trimmed_file_split:
  assumes "LOAD_CHUNK_SIZE + skip < len"
  defines "t \<equiv> pt_new (Stored 0) skip (len - skip) None"
  obtains t2 where "split_at_offset t LOAD_CHUNK_SIZE [new_unloaded 0 path 0 len] = Some t2"
    "node_leaves (root t2) = [LeafData_new (Stored 0) skip LOAD_CHUNK_SIZE None,
       LeafData_new (Stored 0) (skip + LOAD_CHUNK_SIZE) (len - skip - LOAD_CHUNK_SIZE) None]"
proof -
  let ?lds = "[LeafData_new (Stored 0) skip LOAD_CHUNK_SIZE None,
       LeafData_new (Stored 0) (skip + LOAD_CHUNK_SIZE) (len - skip - LOAD_CHUNK_SIZE) None]"
  have lc: "0 < LOAD_CHUNK_SIZE" by (simp add: LOAD_CHUNK_SIZE_def)
  have big: "LOAD_CHUNK_SIZE < len - skip" using assms(1) by simp
  have lf: "compute_line_feeds_static [new_unloaded 0 path 0 len] (Stored 0) off n = Some None" for off n
    by (simp add: compute_line_feeds_static_def slice_get_def new_unloaded_def get_data_def)
  have "collect_leaves_with_split (root t) 0 LOAD_CHUNK_SIZE None [] [new_unloaded 0 path 0 len] =
      Some ?lds"
    using big lc by (simp add: t_def pt_new_def Let_def lf)
  moreover have "pt_total_bytes t = len - skip" by (simp add: t_def pt_new_def)
  moreover obtain r where "node_find_by_offset (root t) LOAD_CHUNK_SIZE = Some r"
    using big by (simp add: t_def pt_new_def)
  ultimately have "split_at_offset t LOAD_CHUNK_SIZE [new_unloaded 0 path 0 len] =
      Some (check_and_rebalance (t\<lparr>root := build_balanced ?lds\<rparr>))"
    using big lc by (simp add: split_at_offset_def)
  then show ?thesis by (rule that) (simp add: build_balanced_leaves)
qed

lemma unaligned_chunk_text:
  assumes len: "length (f path) = len" and skip: "0 < skip" "skip < CHUNK_ALIGNMENT"
    and large: "LOAD_CHUNK_SIZE + skip < len"
    and rd: "fs_read_range fs path 0 LOAD_CHUNK_SIZE = Inr (take LOAD_CHUNK_SIZE (f path))"
  shows "\<exists>tb'. chunk_split_and_load fs (trimmed_file path len skip sample enc bin) (whole_piece len skip) 0 =
             Some (tb', Inr True) \<and>
           tb_text f tb' = take LOAD_CHUNK_SIZE (f path) @ drop (skip + LOAD_CHUNK_SIZE) (f path)"
proof -
  let ?tb = "trimmed_file path len skip sample enc bin" and ?L = LOAD_CHUNK_SIZE
  have lc: "0 < ?L" by (simp add: LOAD_CHUNK_SIZE_def)
  have big: "?L < len - skip" using large by simp
  have cb: "chunk_bounds (whole_piece len skip) 0 = (0, ?L)"
    using skip large by (simp add: chunk_bounds_def whole_piece_def Let_def)
  obtain t2 where t2: "split_at_offset (piece_tree ?tb) ?L (buffers ?tb) = Some t2"
    "node_leaves (root t2) = [LeafData_new (Stored 0) skip ?L None,
       LeafData_new (Stored 0) (skip + ?L) (len - skip - ?L) None]"
    using trimmed_file_split[OF large, of path] by (auto simp: trimmed_file_def)
  define c where "c = (new_unloaded 1 path 0 ?L)\<lparr>stored_file_offset := Some 0\<rparr>"
  define tb2 where "tb2 = ?tb\<lparr>piece_tree := t2\<rparr>"
  define t3 where "t3 = replace_buffer_reference t2 0 skip ?L (Added 1)"
  have cr: "create_chunk_buffer (new_unloaded 0 path 0 len) 1 0 ?L = Some c"
    using large by (simp add: create_chunk_buffer_def new_unloaded_def c_def)
  have b2: "buffers tb2 = [new_unloaded 0 path 0 len]" "next_buffer_id tb2 = 1"
    "\<not> fk_line_feeds_scanned (file_kind tb2)"
    by (simp_all add: tb2_def trimmed_file_def)
  have step: "chunk_split_and_load fs ?tb (whole_piece len skip) 0 = install_chunk fs tb2 0 skip 0 ?L c"
    using cb t2(1) big skip lc b2 cr
    by (simp add: chunk_split_and_load_def load_chunk_def whole_piece_def Let_def tb2_def slice_get_def)
  have ld: "load (fs_read_range fs) c = Some (Inr (c\<lparr>sb_data := Loaded (take ?L (f path))
      (Some (compute_line_starts (take ?L (f path))))\<rparr>))"
    using rd len large by (simp add: load_def c_def new_unloaded_def)
  let ?c' = "c\<lparr>sb_data := Loaded (take ?L (f path)) (Some (compute_line_starts (take ?L (f path))))\<rparr>"
  define tb4 where "tb4 = tb2\<lparr>next_buffer_id := 2, piece_tree := t3,
      buffers := [new_unloaded 0 path 0 len, ?c']\<rparr>"
  have id: "sb_id c = 1" by (simp add: c_def new_unloaded_def)
  have inst: "install_chunk fs tb2 0 skip 0 ?L c = Some (sync_saved_root tb4 0 0 ?L 1, Inr True)"
    using b2 ld by (simp add: install_chunk_def Let_def id slice_get_def fix_line_feeds_def tb4_def t3_def
        tb2_def numeral_2_eq_2)
  have leaves: "node_leaves (root t3) = [LeafData_new (Added 1) 0 ?L None,
       LeafData_new (Stored 0) (skip + ?L) (len - skip - ?L) None]"
    using t2(2) lc by (simp add: t3_def replace_buffer_reference_def Let_def build_balanced_leaves
        LeafData_new_def)
  have "tb_text f (sync_saved_root tb4 0 0 ?L 1) = pt_text f [new_unloaded 0 path 0 len, ?c'] t3"
    by (simp add: tb_text_def sync_saved_root_def Let_def tb4_def)
  also have "\<dots> = take ?L (f path) @ drop (skip + ?L) (f path)"
    using len large
    by (simp add: pt_text_def node_text_def leaves piece_text_def slice_get_def buffer_bytes_def
        new_unloaded_def)
  finally show ?thesis using step inst by simp
qed

subsection \<open>Undoing past a save\<close>

text \<open>
  A save replaces the buffer list, and \<open>restore_buffer_state\<close> puts the old list back under a saved
  root that was built for the new one.
\<close>

definition finalized_persistence :: "TextBuffer \<Rightarrow> string \<Rightarrow> nat \<Rightarrow> TextBuffer" where
  "finalized_persistence tb path n =
     tb\<lparr>persistence := set_torn_write (set_source_torn (set_file_path
          (set_saved_file_size (persistence tb) (Some n)) path) False) None\<rparr>"

lemma finalized_persistence_simps [simp]:
  "tb_ok f (finalized_persistence tb path n) = tb_ok f tb"
  "tb_text f (finalized_persistence tb path n) = tb_text f tb"
  "get_all_text (finalized_persistence tb path n) = get_all_text tb"
  "buffers (finalized_persistence tb path n) = buffers tb"
  "piece_tree (finalized_persistence tb path n) = piece_tree tb"
  "file_kind (finalized_persistence tb path n) = file_kind tb"
  by (simp_all add: finalized_persistence_def tb_ok_def tb_text_def get_all_text_def get_text_range_def
      persistence_setters)

lemma set_format_simps [simp]:
  "tb_ok f (tb\<lparr>tb_format := fm\<rparr>) = tb_ok f tb" "tb_text f (tb\<lparr>tb_format := fm\<rparr>) = tb_text f tb"
  "saved_text f (tb\<lparr>tb_format := fm\<rparr>) = saved_text f tb"
  by (simp_all add: tb_ok_def tb_text_def saved_text_def)

lemma finalize_small_eq:
  "\<not> fk_large_file (file_kind tb) \<Longrightarrow> \<exists>fm. finalize_with_size tb path n =
     (tb_mark_saved_snapshot (consolidate_small_file (finalized_persistence tb path n)))\<lparr>tb_format := fm\<rparr>"
  by (auto simp: finalize_with_size_def Let_def consolidate_after_save_def finalized_persistence_def[symmetric])

lemma finalize_small:
  assumes "tb_ok f tb" "node_loaded (buffers tb) (root (piece_tree tb))" "\<not> fk_large_file (file_kind tb)"
  shows "tb_ok f (finalize_with_size tb path n)" "tb_text f (finalize_with_size tb path n) = tb_text f tb"
    "saved_text f (finalize_with_size tb path n) = tb_text f tb"
    "\<not> p_modified (persistence (finalize_with_size tb path n))"
  using finalize_small_eq[OF assms(3), of path n]
    consolidate_small_file_correct[of f "finalized_persistence tb path n"] assms(1,2) by auto

lemma undo_past_save_texts:
  fixes path :: string and n :: nat
  assumes "tb_ok f tb" "node_loaded (buffers tb) (root (piece_tree tb))" "\<not> fk_large_file (file_kind tb)"
    and "length (tb_text f tb) = length content" "content \<noteq> []"
  defines "tb' \<equiv> restore_buffer_state (finalize_with_size tb path n)
                   (snapshot_buffer_state (from_bytes_raw content))"
  shows "tb_text f tb' = content" "saved_text f tb' = content"
proof -
  show "tb_text f tb' = content" by (simp add: tb'_def restore_snapshot_text from_bytes_raw_ok)
  have "get_all_text tb = Some (tb_text f tb)"
    using read_range_loaded[of f "buffers tb" "piece_tree tb" 0] assms(1,2) get_all_text_correct[of f tb]
    by (simp add: get_all_text_def get_text_range_def tb_ok_def)
  then have "root (piece_tree (consolidate_small_file (finalized_persistence tb path n))) =
      Leaf (Stored 0) 0 (length content) (Some (count_nl (tb_text f tb)))"
    using assms(4,5) by (simp add: consolidate_small_file_def pt_new_def Let_def)
  then have "p_saved_root (persistence tb') =
      Leaf (Stored 0) 0 (length content) (Some (count_nl (tb_text f tb)))"
    using finalize_small_eq[OF assms(3), of path n]
    by (auto simp: tb'_def tb_mark_saved_snapshot_def mark_saved_snapshot_def bump_save_state_def
        restore_buffer_state_def)
  moreover have "buffers tb' = [sb_new 0 content]"
    by (simp add: tb'_def restore_buffer_state_def snapshot_buffer_state_def from_bytes_raw_def Let_def)
  ultimately show "saved_text f tb' = content"
    by (simp add: saved_text_def piece_text_def slice_get_def)
qed

subsection \<open>Properties\<close>

text \<open>
  C5: loading a chunk of a file on demand does not change the document. For a chunk that begins
  inside the viewed piece, splitting the piece, creating the chunk buffer, redirecting the piece to
  it, loading it and filling in unknown line feed counts never panics and keeps the text and the
  invariant, provided that no empty piece has an unknown line feed count. A modified buffer keeps its saved text;
  an unmodified one takes its text as the new saved text, so its saved text stays as it is when
  it was the text, which the flag claims but which undoing past a save can break.
\<close>

theorem chunk_load_invisible:
  assumes "fs_contract files fs" and "tb_ok files tb" and "counted (get_leaves (piece_tree tb))"
    and "pv_buffer_offset pv \<le> fst (chunk_bounds pv (cur - pv_doc_offset pv))"
  shows "\<exists>tb' r. chunk_split_and_load fs tb pv cur = Some (tb', r) \<and> tb_ok files tb' \<and>
           tb_text files tb' = tb_text files tb \<and>
           saved_text files tb' = (if p_modified (persistence tb) \<or> r \<noteq> Inr True
                                   then saved_text files tb else tb_text files tb) \<and>
           (p_modified (persistence tb) \<or> saved_text files tb = tb_text files tb \<longrightarrow>
              saved_text files tb' = saved_text files tb)"
proof -
  obtain tb' r where "chunk_split_and_load fs tb pv cur = Some (tb', r)" "tb_ok files tb'" "tb_text files tb' = tb_text files tb"
      "saved_text files tb' = (if p_modified (persistence tb) \<or> r \<noteq> Inr True then saved_text files tb else tb_text files tb)"
    using chunk_split_and_load_correct[OF assms(1,2) _ assms(4)] assms(3) by (auto simp: get_leaves_def)
  then show ?thesis by auto
qed

theorem chunk_load_invisible_witness:
  "\<exists>tb' r. chunk_split_and_load (memory_fs (\<lambda>_. [97, 10, 98])) (lazy_file ''f'' 3 [] Utf8 False)
       (whole_piece 3 0) 0 = Some (tb', r) \<and> tb_text (\<lambda>_. [97, 10, 98]) tb' = [97, 10, 98] \<and>
       saved_text (\<lambda>_. [97, 10, 98]) tb' = [97, 10, 98]"
proof -
  have ok: "tb_ok (\<lambda>_. [97, 10, 98]) (lazy_file ''f'' 3 [] Utf8 False)"
    "tb_text (\<lambda>_. [97, 10, 98]) (lazy_file ''f'' 3 [] Utf8 False) = [97, 10, 98]"
    "saved_text (\<lambda>_. [97, 10, 98]) (lazy_file ''f'' 3 [] Utf8 False) = [97, 10, 98]"
    using lazy_file_ok[of "\<lambda>_. [97, 10, 98]" "''f''" 3 "[]" Utf8 False] by simp_all
  have counted: "counted (get_leaves (piece_tree (lazy_file ''f'' 3 [] Utf8 False)))" by code_simp
  have inside: "pv_buffer_offset (whole_piece 3 0) \<le>
      fst (chunk_bounds (whole_piece 3 0) (0 - pv_doc_offset (whole_piece 3 0)))"
    by (simp add: chunk_bounds_def whole_piece_def Let_def)
  show ?thesis
    using chunk_load_invisible[OF memory_fs_contract ok(1) counted inside] unfolding ok(2,3) by blast
qed

text \<open>
  C38: loading a chunk changes the document when a piece longer than the load chunk begins at an
  unaligned offset of its buffer. Open a large file and delete its first \<open>skip\<close> bytes: the chunk that
  is loaded to show the beginning is aligned down to an offset before the piece, so the first
  megabyte of the document becomes the first megabyte of the file. The deleted bytes come back and
  as many bytes behind the chunk's end are lost.
\<close>

theorem unaligned_chunk_load_wrong:
  assumes "length (files path) = len" and "0 < skip" and "skip < CHUNK_ALIGNMENT"
    and "LOAD_CHUNK_SIZE + skip < len" and "fs_contract files fs"
    and "\<exists>bs. fs_read_range fs path 0 LOAD_CHUNK_SIZE = Inr bs"
  shows "\<exists>tb1 tb2 pv. delete_bytes fs (lazy_file path len sample enc bin) 0 skip = Some tb1 \<and>
           tb_text files tb1 = drop skip (files path) \<and>
           iter_pieces_in_range (piece_tree tb1) 0 1 = [pv] \<and>
           chunk_split_and_load fs tb1 pv 0 = Some (tb2, Inr True) \<and>
           tb_text files tb2 =
             take LOAD_CHUNK_SIZE (files path) @ drop (skip + LOAD_CHUNK_SIZE) (files path)"
proof -
  have rd: "fs_read_range fs path 0 LOAD_CHUNK_SIZE = Inr (take LOAD_CHUNK_SIZE (files path))"
    using assms(5,6) unfolding fs_contract_def read_range_contract_def by (metis drop_0)
  have "iter_pieces_in_range (piece_tree (trimmed_file path len skip sample enc bin)) 0 1 =
      [whole_piece len skip]"
    using assms(4) by (simp add: trimmed_file_def iter_pieces_in_range_def pt_new_def whole_piece_def)
  then show ?thesis
    using unaligned_chunk_text[of files, OF assms(1-4) rd, of sample enc bin] assms(1,2,4)
      trimmed_file_ok(2)[of files path len skip sample enc bin]
      delete_from_lazy_file[of skip len fs path sample enc bin] by auto
qed

theorem unaligned_chunk_load_wrong_witness:
  "let files = (\<lambda>_. 98 # replicate 1048577 97) in
   \<exists>tb1 tb2 pv. delete_bytes (memory_fs files) (lazy_file ''f'' 1048578 [] Utf8 False) 0 1 = Some tb1 \<and>
     chunk_split_and_load (memory_fs files) tb1 pv 0 = Some (tb2, Inr True) \<and>
     hd (tb_text files tb1) = 97 \<and> hd (tb_text files tb2) = 98"
proof -
  define xs :: "byte list" where "xs = replicate 1048577 97"
  have len: "length xs = 1048577" and hd_xs: "hd xs = 97" by (simp_all only: xs_def length_replicate hd_replicate)
  let ?f = "\<lambda>_::string. 98 # xs"
  have rd: "\<exists>bs. fs_read_range (memory_fs ?f) ''f'' 0 LOAD_CHUNK_SIZE = Inr bs"
    using len by (simp add: memory_fs_def LOAD_CHUNK_SIZE_def)
  have "length (?f ''f'') = 1048578" "0 < (1::nat)" "1 < CHUNK_ALIGNMENT" "LOAD_CHUNK_SIZE + 1 < 1048578"
    using len by (simp_all add: LOAD_CHUNK_SIZE_def CHUNK_ALIGNMENT_def)
  from unaligned_chunk_load_wrong[of ?f, OF this memory_fs_contract rd, of "[]" Utf8 False]
  obtain tb1 tb2 pv where tb: "delete_bytes (memory_fs ?f) (lazy_file ''f'' 1048578 [] Utf8 False) 0 1 = Some tb1"
      "chunk_split_and_load (memory_fs ?f) tb1 pv 0 = Some (tb2, Inr True)" "tb_text ?f tb1 = xs"
      "tb_text ?f tb2 = take LOAD_CHUNK_SIZE (98 # xs) @ drop (1 + LOAD_CHUNK_SIZE) (98 # xs)" by auto
  have "hd (tb_text ?f tb2) = 98" unfolding tb(4) LOAD_CHUNK_SIZE_def by simp
  then show ?thesis using tb(1,2,3) hd_xs unfolding xs_def[symmetric] Let_def by metis
qed

text \<open>
  C29: after a save of a loaded, normal-sized document everything agrees: the text is unchanged, the
  saved text is the text, the buffer is not modified, no torn write is on record, and the invariant
  holds although all string buffers have been replaced by one. If the size of the written file
  cannot be read, the error is reported.
\<close>

theorem save_consolidates:
  assumes "tb_ok files tb" and "node_loaded (buffers tb) (root (piece_tree tb))"
    and "\<not> fk_large_file (file_kind tb)"
  shows "case finalize_save fs tb path of
           Inl e \<Rightarrow> fs_metadata_size fs path = Inl e
         | Inr tb' \<Rightarrow> tb_ok files tb' \<and> tb_text files tb' = tb_text files tb \<and>
             saved_text files tb' = tb_text files tb \<and> \<not> p_modified (persistence tb') \<and>
             p_torn_write (persistence tb') = None \<and> p_file_path (persistence tb') = Some path"
proof (cases "fs_metadata_size fs path")
  case (Inr n)
  have "p_torn_write (persistence (finalize_with_size tb path n)) = None \<and>
      p_file_path (persistence (finalize_with_size tb path n)) = Some path"
    using finalize_small_eq[OF assms(3), of path n]
    by (auto simp: tb_mark_saved_snapshot_def mark_saved_snapshot_def bump_save_state_def
        consolidate_small_file_def finalized_persistence_def persistence_setters Let_def split: option.splits)
  then show ?thesis using finalize_small[OF assms, of path n] Inr by (simp add: finalize_save_def)
qed (simp add: finalize_save_def)

theorem save_consolidates_witness:
  "\<exists>tb'. finalize_save (memory_fs (\<lambda>_. [98, 10])) (replace_content (from_bytes_raw [97]) [98, 10]) ''f'' =
       Inr tb' \<and> saved_text (\<lambda>_. [98, 10]) tb' = [98, 10]"
proof -
  let ?tb = "replace_content (from_bytes_raw [97]) [98, 10]" and ?f = "\<lambda>_. [98, 10]"
  have "node_loaded (buffers ?tb) (root (piece_tree ?tb))" "\<not> fk_large_file (file_kind ?tb)"
    by code_simp+
  moreover have "tb_ok ?f ?tb" "tb_text ?f ?tb = [98, 10]"
    using replace_content_correct[OF from_bytes_raw_ok(1)] by simp_all
  moreover have "finalize_save (memory_fs ?f) ?tb ''f'' = Inr (finalize_with_size ?tb ''f'' 2)"
    by (simp add: finalize_save_def memory_fs_def numeral_2_eq_2)
  ultimately show ?thesis using save_consolidates[of ?f ?tb "memory_fs ?f" "''f''"] by simp
qed

text \<open>
  C39: undoing past a save falsifies the record of what was saved. When a document was replaced by a
  bulk edit with another one of the same length, saved, and the snapshot taken before the edit is
  restored, the saved root points into the restored buffers: it reads as the old content, and the
  buffer, whose text differs from the file, has no difference from its saved state.
\<close>

theorem undo_past_save_wrong:
  assumes "tb_ok files tb" and "node_loaded (buffers tb) (root (piece_tree tb))"
    and "\<not> fk_large_file (file_kind tb)"
    and "length (tb_text files tb) = length content" and "content \<noteq> []"
    and "finalize_save fs tb path = Inr saved"
  shows "saved_text files saved = tb_text files tb \<and>
         tb_text files (restore_buffer_state saved (snapshot_buffer_state (from_bytes_raw content))) = content \<and>
         saved_text files (restore_buffer_state saved (snapshot_buffer_state (from_bytes_raw content))) = content"
proof -
  obtain n where "saved = finalize_with_size tb path n"
    using assms(6) by (auto simp: finalize_save_def split: sum.splits)
  then show ?thesis
    using undo_past_save_texts[OF assms(1-5), of path n] finalize_small[OF assms(1-3), of path n] by simp
qed

theorem undo_past_save_wrong_witness:
  "\<exists>saved. finalize_save (memory_fs (\<lambda>_. [98])) (replace_content (from_bytes_raw [97]) [98]) ''f'' = Inr saved \<and>
     saved_text (\<lambda>_. [98]) saved = [98] \<and>
     saved_text (\<lambda>_. [98]) (restore_buffer_state saved (snapshot_buffer_state (from_bytes_raw [97]))) = [97]"
proof -
  let ?tb = "replace_content (from_bytes_raw [97]) [98]" and ?f = "\<lambda>_. [98]"
  have "node_loaded (buffers ?tb) (root (piece_tree ?tb))" "\<not> fk_large_file (file_kind ?tb)"
    by code_simp+
  moreover have "tb_ok ?f ?tb" "tb_text ?f ?tb = [98]"
    using replace_content_correct[OF from_bytes_raw_ok(1)] by simp_all
  moreover have "finalize_save (memory_fs ?f) ?tb ''f'' = Inr (finalize_with_size ?tb ''f'' 1)"
    by (simp add: finalize_save_def memory_fs_def)
  ultimately show ?thesis
    using undo_past_save_wrong[of ?f ?tb "[97]" "memory_fs ?f" "''f''"] by simp
qed

subsection \<open>The difference to the saved document\<close>

lemma diff_from_leaf:
  assumes "\<not> ptr_eq (Leaf l off n lf) after"
  shows "diff_piece_trees ptr_eq (Leaf l off n lf) after = diff_piece_trees (\<lambda>_ _. False) (Leaf l off n lf) after"
  using assms by (simp add: diff_piece_trees_def)

lemma diff_since_saved_same:
  assumes "p_modified p" "\<not> ptr_eq (p_saved_root p) (root t)" "p_saved_diff_memo p = None"
    and "diff_piece_trees ptr_eq (p_saved_root p) (root t) = \<lparr>d_equal = False, byte_ranges = [rg], nodes_visited = k\<rparr>"
    and "snd rg - fst rg \<le> 64 * 1024" "\<not> verify_content_differs_in_ranges p [rg] t bufs"
  shows "d_equal (fst (diff_since_saved ptr_eq p t bufs v))"
  using assms by (simp add: diff_since_saved_def diff_since_saved_uncached_def diff_trees_by_structure_def
      Let_def MAX_VERIFY_BYTES_def case_prod_unfold)

text \<open>The document "abcdefghij" with a "d" typed at 3 and the byte at 8, the "h", deleted.\<close>

definition sample_shifted :: TextBuffer where
  "sample_shifted =
     the (delete_bytes (memory_fs (\<lambda>_. []))
       (fst (the (insert_bytes (memory_fs (\<lambda>_. []))
         (from_utf8_detected [97, 98, 99, 100, 101, 102, 103, 104, 105, 106] Utf8 True) 3 [100]))) 8 1)"

lemma sample_shifted_diff:
  "p_modified (persistence sample_shifted)"
  "p_saved_root (persistence sample_shifted) = Leaf (Stored 0) 0 10 (Some 0)"
  "root (piece_tree sample_shifted) \<noteq> Leaf (Stored 0) 0 10 (Some 0)"
  "p_saved_diff_memo (persistence sample_shifted) = None"
  "(let d = diff_piece_trees (\<lambda>_ _. False) (Leaf (Stored 0) 0 10 (Some 0)) (root (piece_tree sample_shifted))
    in \<not> d_equal d \<and> byte_ranges d = [(3, 4)])"
  "\<not> verify_content_differs_in_ranges (persistence sample_shifted) [(3, 4)] (piece_tree sample_shifted)
      (buffers sample_shifted)"
  "saved_text (\<lambda>_. []) sample_shifted = [97, 98, 99, 100, 101, 102, 103, 104, 105, 106]"
  "tb_text (\<lambda>_. []) sample_shifted = [97, 98, 99, 100, 100, 101, 102, 103, 105, 106]"
  by code_simp+

text \<open>
  C40: The difference to the saved document can be reported as empty for a different text. The check that
  confirms a structural difference compares only the bytes of the changed ranges, at the same offsets of both
  documents; a byte typed and another deleted further on shift what lies between. After saving
  "abcdefghij", typing "d" at 3 and deleting the "h", the document is "abcddefgij" and is reported equal to
  the saved one, whichever subtrees are shared.
\<close>

theorem diff_since_saved_misses_shift:
  assumes "\<And>x y. ptr_eq x y \<Longrightarrow> x = y"
  shows "d_equal (fst (tb_diff_since_saved ptr_eq sample_shifted)) \<and>
         tb_text (\<lambda>_. []) sample_shifted \<noteq> saved_text (\<lambda>_. []) sample_shifted"
proof -
  let ?p = "persistence sample_shifted" and ?t = "piece_tree sample_shifted"
  have neq: "\<not> ptr_eq (p_saved_root ?p) (root ?t)"
    using assms[of "p_saved_root ?p" "root ?t"] sample_shifted_diff(2,3) by auto
  define d where "d = diff_piece_trees (\<lambda>_ _. False) (Leaf (Stored 0) 0 10 (Some 0)) (root ?t)"
  have d: "d = \<lparr>d_equal = False, byte_ranges = [(3, 4)], nodes_visited = nodes_visited d\<rparr>"
    using sample_shifted_diff(5) unfolding Let_def d_def[symmetric] by simp
  have "diff_piece_trees ptr_eq (p_saved_root ?p) (root ?t) = d"
    using neq unfolding d_def sample_shifted_diff(2) by (rule diff_from_leaf)
  then have eq: "diff_piece_trees ptr_eq (p_saved_root ?p) (root ?t) =
      \<lparr>d_equal = False, byte_ranges = [(3, 4)], nodes_visited = nodes_visited d\<rparr>" using d by simp
  have "d_equal (fst (diff_since_saved ptr_eq ?p ?t (buffers sample_shifted) (tb_version sample_shifted)))"
    by (rule diff_since_saved_same[OF sample_shifted_diff(1) neq sample_shifted_diff(4) eq _ sample_shifted_diff(6)])
       simp
  then show ?thesis
    using sample_shifted_diff(7,8) by (simp add: tb_diff_since_saved_def case_prod_unfold)
qed

theorem diff_since_saved_misses_shift_witness:
  "d_equal (fst (tb_diff_since_saved (=) sample_shifted)) \<and>
   saved_text (\<lambda>_. []) sample_shifted = [97, 98, 99, 100, 101, 102, 103, 104, 105, 106]"
  using diff_since_saved_misses_shift[of "(=)"] sample_shifted_diff(7) by simp

end
