(* ===== verification/Recovery_Edits.thy ===== *)
theory Recovery_Edits
  imports Recovery_Chunks Lazy_Load
begin

text \<open>
  Recovery and editing together: where the pieces of an edited large file come from, and that the stored
  chunks give the edited text back after any script of insertions and deletions. A property of the slice
  a leaf refers to that holds of every part of the slice is kept by every edit of the tree; the locale
  \<open>slice_property\<close> proves that once.
\<close>

subsection \<open>Properties of slices\<close>

locale slice_property =
  fixes good :: "BufferLocation \<Rightarrow> nat \<Rightarrow> nat \<Rightarrow> bool"
  assumes part_good: "good loc off n \<Longrightarrow> a + k \<le> n \<Longrightarrow> good loc (off + a) k"
    and empty_good: "good (Stored 0) 0 0"
begin

definition good_leaf :: "LeafData \<Rightarrow> bool" where
  "good_leaf ld \<longleftrightarrow> good (ld_location ld) (ld_offset ld) (ld_bytes ld)"

lemma prefix_good: "good loc off n \<Longrightarrow> k \<le> n \<Longrightarrow> good loc off k"
  using part_good[of loc off n 0 k] by simp

lemma path_copy_insert_good:
  "list_all good_leaf (node_leaves t) \<Longrightarrow> good_leaf ld \<Longrightarrow>
   path_copy_insert t cur p ld bufs = Some t' \<Longrightarrow> list_all good_leaf (node_leaves t')"
proof (induction t arbitrary: cur t')
  case (Internal lb lf l r)
  have "(\<exists>nl. path_copy_insert l cur p ld bufs = Some nl \<and> node_leaves t' = node_leaves nl @ node_leaves r) \<or>
    (\<exists>nr. path_copy_insert r (cur + lb) p ld bufs = Some nr \<and> node_leaves t' = node_leaves l @ node_leaves nr)"
    using Internal.prems(3) by (auto simp: Let_def bind_eq_Some_conv split: if_splits)
  moreover have ok: "list_all good_leaf (node_leaves l)" "list_all good_leaf (node_leaves r)"
    using Internal.prems(1) by simp_all
  moreover note Internal.IH(1)[OF ok(1) Internal.prems(2)] Internal.IH(2)[OF ok(2) Internal.prems(2)]
  ultimately show ?case by (metis list_all_append)
next
  case (Leaf loc off n lf)
  have whole: "good loc off n" using Leaf.prems(1) by (simp add: good_leaf_def)
  show ?case
  proof (cases "p - cur > 0 \<and> p < cur + n")
    case True
    have "good loc off (p - cur)" using True by (intro prefix_good[OF whole]) linarith
    moreover have "good loc (off + (p - cur)) (n - (p - cur))"
      using True by (intro part_good[OF whole]) linarith
    ultimately show ?thesis using Leaf.prems(2,3) True
      by (auto simp: Let_def bind_eq_Some_conv good_leaf_def build_balanced_leaves)
  next
    case False
    with Leaf.prems whole show ?thesis
      by (auto simp: good_leaf_def build_balanced_leaves split: if_splits)
  qed
qed

lemma path_copy_delete_good:
  "list_all good_leaf (node_leaves t) \<Longrightarrow>
   path_copy_delete t cur s e bufs = Some t' \<Longrightarrow> list_all good_leaf (node_leaves t')"
proof (induction t arbitrary: cur s e t')
  case (Internal lb lf l r)
  have "set (node_leaves t') \<subseteq> {LeafData_new (Stored 0) 0 0 (Some 0)} \<union> set (node_leaves l) \<union> set (node_leaves r) \<union>
    \<Union> {set (node_leaves n) |n. \<exists>s e. path_copy_delete l cur s e bufs = Some n \<or>
       path_copy_delete r (cur + lb) s e bufs = Some n}"
    (is "_ \<subseteq> ?all")
    using Internal.prems(2)
    by (simp only: path_copy_delete.simps Let_def bind_eq_Some_conv split: if_splits) (auto, blast+)?
  moreover have "good_leaf ld" if ld: "ld \<in> ?all" for ld
  proof -
    have ok: "list_all good_leaf (node_leaves l)" "list_all good_leaf (node_leaves r)"
      using Internal.prems(1) by simp_all
    have "list_all good_leaf (node_leaves n)"
      if "path_copy_delete l cur s e bufs = Some n \<or> path_copy_delete r (cur + lb) s e bufs = Some n" for n s e
      using that Internal.IH(1)[OF ok(1)] Internal.IH(2)[OF ok(2)] by blast
    moreover have "good_leaf (LeafData_new (Stored 0) 0 0 (Some 0))"
      using empty_good by (simp add: good_leaf_def)
    ultimately show ?thesis using ld ok unfolding list_all_iff by blast
  qed
  ultimately show ?case unfolding list_all_iff by blast
next
  case (Leaf loc off n lf)
  have whole: "good loc off n" using Leaf.prems(1) by (simp add: good_leaf_def)
  show ?case
  proof (cases "cur + n \<le> s \<or> cur \<ge> e \<or> s \<le> cur \<and> e \<ge> cur + n")
    case True
    with Leaf.prems whole empty_good show ?thesis by (auto simp: Let_def good_leaf_def split: if_splits)
  next
    case False
    let ?a = "s - cur" and ?b = "cur + n - e"
    have "good loc off ?a" using False by (intro prefix_good[OF whole]) linarith
    moreover have "off + n - ?b = off + (n - ?b)" "good loc (off + (n - ?b)) ?b"
      using False by (auto intro: part_good[OF whole])
    moreover have "good loc (off + (e - cur)) ?b" if "s \<le> cur"
      using False that by (intro part_good[OF whole]) linarith
    ultimately show ?thesis
      using Leaf.prems(2) False by (auto simp: Let_def bind_eq_Some_conv good_leaf_def build_balanced_leaves split: if_splits)
  qed
qed

lemma pt_insert_good:
  "list_all good_leaf (node_leaves (root t)) \<Longrightarrow> good loc off n \<Longrightarrow>
   pt_insert t p loc off n lf bufs = Some (t', c) \<Longrightarrow> list_all good_leaf (node_leaves (root t'))"
  using path_copy_insert_good[of "root t" "LeafData_new loc off n lf" 0 p bufs]
  by (auto simp: pt_insert_def Let_def bind_eq_Some_conv good_leaf_def split: if_splits)

lemma pt_delete_good:
  "list_all good_leaf (node_leaves (root t)) \<Longrightarrow>
   pt_delete t p n bufs = Some t' \<Longrightarrow> list_all good_leaf (node_leaves (root t'))"
  using path_copy_delete_good[of "root t"]
  by (auto simp: pt_delete_def Let_def bind_eq_Some_conv split: if_splits)

end

subsection \<open>Where the pieces of a large file come from\<close>

text \<open>
  A leaf of a large file that was only edited: a stored piece is a slice of the one buffer of the file,
  an added piece a slice of another buffer. No buffer claims to hold a chunk of the file.
\<close>

definition origin_ok :: "(string \<Rightarrow> byte list) \<Rightarrow> StringBuffer list \<Rightarrow> BufferLocation \<Rightarrow> nat \<Rightarrow> nat \<Rightarrow> bool" where
  "origin_ok f bufs loc off n \<longleftrightarrow>
     in_buffer f bufs loc off n \<and> (case loc of Stored i \<Rightarrow> i = 0 | Added i \<Rightarrow> i \<noteq> 0)"

interpretation origin: slice_property "origin_ok f (b # bs)" for f b bs
  by unfold_locales
    (auto simp: origin_ok_def in_buffer_def slice_get_def split: BufferLocation.splits if_splits)

definition bufs_unshared :: "(string \<Rightarrow> byte list) \<Rightarrow> byte list \<Rightarrow> StringBuffer list \<Rightarrow> bool" where
  "bufs_unshared f orig bufs \<longleftrightarrow>
     bufs \<noteq> [] \<and> buffer_bytes f (hd bufs) = orig \<and>
     list_all (\<lambda>b. stored_file_offset b = None \<and> file_covers f b) bufs"

definition recoverable :: "(string \<Rightarrow> byte list) \<Rightarrow> byte list \<Rightarrow> TextBuffer \<Rightarrow> bool" where
  "recoverable f orig tb \<longleftrightarrow>
     tb_ok f tb \<and> bufs_unshared f orig (buffers tb) \<and>
     list_all (\<lambda>ld. origin_ok f (buffers tb) (ld_location ld) (ld_offset ld) (ld_bytes ld))
       (node_leaves (root (piece_tree tb))) \<and>
     original_file_size tb = Some (length orig)"

lemma origin_ok_ext:
  assumes "origin_ok f bufs loc off n" "bufs_ext f bufs bufs'"
  shows "origin_ok f bufs' loc off n"
proof -
  obtain b where b: "slice_get bufs (buffer_id loc) = Some b" "off + n \<le> length (buffer_bytes f b)"
    using assms(1) in_bufferE unfolding origin_ok_def by metis
  then have i: "buffer_id loc < length bufs" "b = bufs ! buffer_id loc"
    by (auto simp: slice_get_def split: if_splits)
  then obtain xs where "buffer_bytes f (bufs' ! buffer_id loc) = buffer_bytes f b @ xs" "buffer_id loc < length bufs'"
    using assms(2) unfolding bufs_ext_def by (metis order_less_le_trans)
  then show ?thesis using assms(1) b(2) by (simp add: origin_ok_def in_buffer_def slice_get_def)
qed

lemma origin_leaves_ext:
  assumes "list_all (\<lambda>ld. origin_ok f bufs (ld_location ld) (ld_offset ld) (ld_bytes ld)) lds"
    and "bufs_ext f bufs bufs'"
  shows "list_all (\<lambda>ld. origin_ok f bufs' (ld_location ld) (ld_offset ld) (ld_bytes ld)) lds"
  using assms(1) origin_ok_ext[OF _ assms(2)] unfolding list_all_iff by blast

lemma origin_leaves_insert:
  assumes "bufs \<noteq> []" "origin_ok f bufs loc off n"
    and "list_all (\<lambda>ld. origin_ok f bufs (ld_location ld) (ld_offset ld) (ld_bytes ld)) (node_leaves (root t))"
    and "pt_insert t p loc off n lf bufs = Some (t', c)"
  shows "list_all (\<lambda>ld. origin_ok f bufs (ld_location ld) (ld_offset ld) (ld_bytes ld)) (node_leaves (root t'))"
  using assms origin.pt_insert_good[of f "hd bufs" "tl bufs" t loc off n p lf "hd bufs # tl bufs" t' c]
  unfolding origin.good_leaf_def[abs_def] by simp

lemma origin_leaves_delete:
  assumes "bufs \<noteq> []"
    and "list_all (\<lambda>ld. origin_ok f bufs (ld_location ld) (ld_offset ld) (ld_bytes ld)) (node_leaves (root t))"
    and "pt_delete t p n bufs = Some t'"
  shows "list_all (\<lambda>ld. origin_ok f bufs (ld_location ld) (ld_offset ld) (ld_bytes ld)) (node_leaves (root t'))"
  using assms origin.pt_delete_good[of f "hd bufs" "tl bufs" t p n "hd bufs # tl bufs" t']
  unfolding origin.good_leaf_def[abs_def] by simp

subsection \<open>Editing keeps it\<close>

lemma bufs_unshared_update:
  assumes "bufs_unshared f orig bufs" "stored_file_offset b = None" "file_covers f b"
    and "i = 0 \<Longrightarrow> buffer_bytes f b = orig"
  shows "bufs_unshared f orig (bufs[i := b])"
  using assms by (cases bufs; cases i) (auto simp: bufs_unshared_def list_all_update)

lemma bufs_unshared_nth:
  assumes "bufs_unshared f orig bufs" "slice_get bufs i = Some b"
  shows "stored_file_offset b = None" "file_covers f b" "i = 0 \<Longrightarrow> buffer_bytes f b = orig"
  using assms by (auto simp: bufs_unshared_def slice_get_def list_all_length hd_conv_nth split: if_splits)

lemma ensure_chunk_loaded_unshared:
  assumes "fs_contract f fs" "bufs_unshared f orig (buffers tb)" "ensure_chunk_loaded_at fs tb p = Some tb'"
  shows "bufs_unshared f orig (buffers tb')"
proof (cases "tb' = tb")
  case True
  then show ?thesis using assms(2) by simp
next
  case False
  then obtain i b r where b0: "slice_get (buffers tb) i = Some b" "load (fs_read_range fs) b = Some r"
    "tb' = (case r of Inl _ \<Rightarrow> tb | Inr b' \<Rightarrow> tb\<lparr>buffers := (buffers tb)[i := b']\<rparr>)" "\<not> is_loaded b"
    using assms(3) by (auto simp: ensure_chunk_loaded_at_def Let_def split: option.splits if_splits)
  then obtain b' where b: "slice_get (buffers tb) i = Some b" "load (fs_read_range fs) b = Some (Inr b')"
    "tb' = tb\<lparr>buffers := (buffers tb)[i := b']\<rparr>" "\<not> is_loaded b"
    using False by (cases r) auto
  have rr: "read_range_contract f (fs_read_range fs)" using assms(1) by (simp add: fs_contract_def)
  have "stored_file_offset b' = stored_file_offset b" "file_covers f b'"
    using b(2,4) by (auto simp: load_def is_loaded_def file_covers_def split: BufferData.splits sum.splits if_splits)
  moreover have "buffer_bytes f b' = buffer_bytes f b"
    using b(2,4) rr by (auto simp: load_def is_loaded_def buffer_bytes_def read_range_contract_def
        split: BufferData.splits sum.splits if_splits)
  ultimately show ?thesis
    using bufs_unshared_nth[OF assms(2) b(1)] b(3) by (simp add: bufs_unshared_update[OF assms(2)])
qed

text \<open>Text is appended to the buffer of an added piece, never to the buffer of the file.\<close>

lemma find_by_offset_origin:
  assumes "recoverable f orig tb" "pt_find_by_offset (piece_tree tb) p = Some pi"
  shows "origin_ok f (buffers tb) (pi_location pi) (pi_offset pi) (pi_bytes pi)"
proof -
  have ok: "node_ok f (buffers tb) (root (piece_tree tb))" "pt_ok f (buffers tb) (piece_tree tb)"
    using assms(1) by (simp_all add: recoverable_def tb_ok_def pt_ok_def)
  obtain r where r: "node_find_by_offset (root (piece_tree tb)) p = Some r" "pi = info r"
    "p < node_total_bytes (root (piece_tree tb))"
    using assms(2) ok(2) by (auto simp: pt_find_by_offset_def pt_ok_def split: if_splits)
  then have "found_at f (buffers tb) (root (piece_tree tb)) p r"
    using node_find_by_offset_correct[OF ok(1) r(3)] by auto
  then show ?thesis using assms(1) r(2) by (auto simp: found_at_def recoverable_def list_all_iff)
qed

lemma append_unshared:
  assumes "recoverable f orig tb" "try_append_to_existing_buffer tb p s = Some (tb', loc, bo, n)"
  shows "bufs_unshared f orig (buffers tb')" "origin_ok f (buffers tb') loc bo n"
proof -
  obtain pi b i where b: "pt_find_by_offset (piece_tree tb) (p - 1) = Some pi" "pi_location pi = Added i"
    "slice_get (buffers tb) i = Some b" "is_loaded b" "loc = Added i" "n = length s" "bo = snd (sb_append b s)"
    "tb' = tb\<lparr>buffers := (buffers tb)[i := fst (sb_append b s)]\<rparr>"
    using assms(2)
    by (auto simp: try_append_to_existing_buffer_def bind_eq_Some_conv Let_def get_data_def
        is_loaded_def split: if_splits prod.splits BufferData.splits BufferLocation.splits)
  have i: "i \<noteq> 0" "i < length (buffers tb)"
    using find_by_offset_origin[OF assms(1) b(1)] b(2,3) by (auto simp: origin_ok_def slice_get_def split: if_splits)
  have un: "bufs_unshared f orig (buffers tb)" using assms(1) by (simp add: recoverable_def)
  have "stored_file_offset (fst (sb_append b s)) = None" "file_covers f (fst (sb_append b s))"
    using bufs_unshared_nth[OF un b(3)] by (auto simp: sb_append_def file_covers_def Let_def split: BufferData.splits)
  with i(1) show "bufs_unshared f orig (buffers tb')"
    using b(8) by (simp add: bufs_unshared_update[OF un])
  show "origin_ok f (buffers tb') loc bo n"
    using append_bytes(1)[OF b(4), of f s] append_bytes(2)[OF b(4), of s f] b(5-8) i by (simp add: origin_ok_def in_buffer_def slice_get_def)
qed

lemma push_unshared:
  assumes "recoverable f orig tb" "push_buffer tb s = (tb', i)"
  shows "bufs_unshared f orig (buffers tb')" "origin_ok f (buffers tb') (Added i) 0 (length s)"
  using assms
  by (auto simp: push_buffer_def recoverable_def tb_ok_def bufs_unshared_def origin_ok_def in_buffer_def
      slice_get_def sb_new_def file_covers_def buffer_bytes_def Let_def)

lemma persistence_size [simp]:
  "original_file_size (mark_content_modified tb) = original_file_size tb"
  "original_file_size (tb\<lparr>piece_tree := t\<rparr>) = original_file_size tb"
  "original_file_size (tb\<lparr>buffers := b\<rparr>) = original_file_size tb"
  "original_file_size (tb\<lparr>next_buffer_id := i\<rparr>) = original_file_size tb"
  "recoverable f orig (mark_content_modified tb) = recoverable f orig tb"
proof -
  show size: "original_file_size (mark_content_modified tb) = original_file_size tb"
    by (simp add: original_file_size_def mark_content_modified_def bump_version_def mark_dirty_def bump_save_state_def)
  show "original_file_size (tb\<lparr>piece_tree := t\<rparr>) = original_file_size tb"
    "original_file_size (tb\<lparr>buffers := b\<rparr>) = original_file_size tb"
    "original_file_size (tb\<lparr>next_buffer_id := i\<rparr>) = original_file_size tb"
    by (simp_all add: original_file_size_def)
  show "recoverable f orig (mark_content_modified tb) = recoverable f orig tb"
    by (simp add: recoverable_def size)
qed

lemma grown_recoverable:
  assumes "recoverable f orig tb" "tb_grown f tb tb'" "bufs_unshared f orig (buffers tb')"
    "persistence tb' = persistence tb"
  shows "recoverable f orig tb'"
proof -
  have "piece_tree tb' = piece_tree tb" "bufs_ext f (buffers tb) (buffers tb')"
    using assms(2) by (simp_all add: tb_grown_def)
  then show ?thesis
    using assms tb_grown_ok(1)[OF _ assms(2)] origin_leaves_ext[of f "buffers tb" "node_leaves (root (piece_tree tb))" "buffers tb'"]
    by (simp add: recoverable_def original_file_size_def)
qed

lemma insertion_buffer_recoverable:
  assumes "recoverable f orig tb"
    and "(case try_append_to_existing_buffer tb p s of Some r \<Rightarrow> r
          | None \<Rightarrow> (case push_buffer tb s of (tb', i) \<Rightarrow> (tb', Added i, 0, length s))) = (tb', loc, bo, n)"
  shows "recoverable f orig tb'" "origin_ok f (buffers tb') loc bo n"
proof -
  have ok: "tb_ok f tb" using assms(1) by (simp add: recoverable_def)
  have "recoverable f orig tb' \<and> origin_ok f (buffers tb') loc bo n"
  proof (cases "try_append_to_existing_buffer tb p s")
    case None
    then have pushed: "push_buffer tb s = (tb', buffer_id loc)" "loc = Added (buffer_id loc)" "bo = 0" "n = length s"
      using assms(2) by (auto split: prod.splits)
    show ?thesis
      using push_unshared[OF assms(1) pushed(1)] pushed push_buffer_grown[OF ok pushed(1)]
        grown_recoverable[OF assms(1)] by metis
  next
    case (Some r)
    then have "try_append_to_existing_buffer tb p s = Some (tb', loc, bo, n)" using assms(2) by simp
    then show ?thesis
      using append_unshared[OF assms(1)] try_append_grown[OF ok] grown_recoverable[OF assms(1)] by metis
  qed
  then show "recoverable f orig tb'" "origin_ok f (buffers tb') loc bo n" by blast+
qed

lemma ensure_chunk_loaded_recoverable:
  assumes "fs_contract f fs" "recoverable f orig tb" "ensure_chunk_loaded_at fs tb p = Some tb'"
  shows "recoverable f orig tb'" "bufs_ext f (buffers tb) (buffers tb')"
proof -
  have ok: "tb_ok f tb" "bufs_unshared f orig (buffers tb)" using assms(2) by (simp_all add: recoverable_def)
  have g: "tb_grown f tb tb'" "persistence tb' = persistence tb"
    using ensure_chunk_loaded_grown[OF assms(1) ok(1), of p] assms(3) by auto
  then show "recoverable f orig tb'" "bufs_ext f (buffers tb) (buffers tb')"
    using grown_recoverable[OF assms(2) g(1) ensure_chunk_loaded_unshared[OF assms(1) ok(2) assms(3)] g(2)]
    by (simp_all add: tb_grown_def)
qed

lemma insert_recoverable:
  assumes "fs_contract f fs" "recoverable f orig tb" "insert_bytes fs tb p s = Some (tb', c)"
  shows "recoverable f orig tb'"
proof (cases "s = []")
  case True
  then show ?thesis using assms(2,3) by (simp add: insert_bytes_def)
next
  case False
  have ok: "tb_ok f tb'"
    using insert_bytes_correct[OF assms(1), of tb p s] assms(2,3) by (simp add: recoverable_def)
  obtain tb2 loc bo n where t2: "(case try_append_to_existing_buffer (mark_content_modified tb) p s of Some r \<Rightarrow> r
      | None \<Rightarrow> (case push_buffer (mark_content_modified tb) s of (tb', i) \<Rightarrow> (tb', Added i, 0, length s))) =
      (tb2, loc, bo, n)" by (metis prod_cases4)
  note r2 = insertion_buffer_recoverable[OF _ t2, of f orig]
  obtain tb3 t where t3: "(if fk_line_feeds_scanned (file_kind tb2)
      then ensure_chunk_loaded_at fs tb2 p else Some tb2) = Some tb3"
    "pt_insert (piece_tree tb3) p loc bo n (Some (count_nl s)) (buffers tb3) = Some (t, c)"
    "tb' = tb3\<lparr>piece_tree := t\<rparr>"
    using assms(3) False t2 by (auto simp: insert_bytes_def Let_def bind_eq_Some_conv)
  have r3: "recoverable f orig tb3" "bufs_ext f (buffers tb2) (buffers tb3)"
    using t3(1) r2(1) assms(2) ensure_chunk_loaded_recoverable[OF assms(1)] by (auto split: if_splits)
  have "origin_ok f (buffers tb3) loc bo n"
    using origin_ok_ext[OF r2(2) r3(2)] assms(2) by simp
  then have "list_all (\<lambda>ld. origin_ok f (buffers tb3) (ld_location ld) (ld_offset ld) (ld_bytes ld))
      (node_leaves (root t))"
    using origin_leaves_insert[OF _ _ _ t3(2)] r3(1) by (simp add: recoverable_def bufs_unshared_def)
  with r3(1) ok show ?thesis using t3(3) by (simp add: recoverable_def original_file_size_def)
qed

lemma delete_recoverable:
  assumes "fs_contract f fs" "recoverable f orig tb" "delete_bytes fs tb p n = Some tb'"
  shows "recoverable f orig tb'"
proof (cases "n = 0 \<or> pt_total_bytes (piece_tree tb) \<le> p")
  case True
  then show ?thesis using assms(2,3) by (auto simp: delete_bytes_def)
next
  case False
  have ok: "tb_ok f tb'"
    using delete_bytes_correct[OF assms(1), of tb p n] assms(2,3) by (simp add: recoverable_def)
  obtain tb2 t where t2: "(if fk_line_feeds_scanned (file_kind tb) then do {
          tb1 \<leftarrow> ensure_chunk_loaded_at fs tb p;
          let fin = min (p + n) (pt_total_bytes (piece_tree tb1));
          if fin > p then ensure_chunk_loaded_at fs tb1 (fin - 1) else Some tb1
        } else Some tb) = Some tb2"
    "pt_delete (piece_tree tb2) p n (buffers tb2) = Some t"
    "tb' = mark_content_modified (tb2\<lparr>piece_tree := t\<rparr>)"
    using assms(3) False by (auto simp: delete_bytes_def bind_eq_Some_conv)
  have r2: "recoverable f orig tb2"
    using t2(1) assms(2) ensure_chunk_loaded_recoverable(1)[OF assms(1)]
    by (simp only: bind_eq_Some_conv Let_def split: if_split_asm) blast+
  then have "list_all (\<lambda>ld. origin_ok f (buffers tb2) (ld_location ld) (ld_offset ld) (ld_bytes ld))
      (node_leaves (root t))"
    using origin_leaves_delete[OF _ _ t2(2)] by (simp add: recoverable_def bufs_unshared_def)
  then have "recoverable f orig (tb2\<lparr>piece_tree := t\<rparr>)"
    using r2 ok t2(3) by (simp add: recoverable_def)
  then show ?thesis using t2(3) by simp
qed

interpretation rbuf: byte_sequence "\<lambda>tb. fs_contract f fs \<and> recoverable f orig tb" "tb_text f"
  "\<lambda>tb p s. map_option fst (insert_bytes fs tb p s)" "delete_bytes fs"
  for f :: "string \<Rightarrow> byte list" and fs :: "'e FileSystem" and orig :: "byte list"
proof
  fix b p s assume b: "fs_contract f fs \<and> recoverable f orig b"
  then have "tb_ok f b" by (simp add: recoverable_def)
  with b obtain b' c where "insert_bytes fs b p s = Some (b', c)"
    "tb_text f b' = take p (tb_text f b) @ s @ drop p (tb_text f b)"
    using insert_bytes_correct by blast
  with b show "\<exists>b'. map_option fst (insert_bytes fs b p s) = Some b' \<and>
      (fs_contract f fs \<and> recoverable f orig b') \<and> tb_text f b' = take p (tb_text f b) @ s @ drop p (tb_text f b)"
    using insert_recoverable[of f fs orig b p s b' c] by simp
next
  fix b p n assume b: "fs_contract f fs \<and> recoverable f orig b"
  then have "tb_ok f b" by (simp add: recoverable_def)
  with b obtain b' where "delete_bytes fs b p n = Some b'"
    "tb_text f b' = take p (tb_text f b) @ drop (p + n) (tb_text f b)"
    using delete_bytes_correct by blast
  with b show "\<exists>b'. delete_bytes fs b p n = Some b' \<and>
      (fs_contract f fs \<and> recoverable f orig b') \<and> tb_text f b' = take p (tb_text f b) @ drop (p + n) (tb_text f b)"
    using delete_recoverable[of f fs orig b p n b'] by simp
qed

subsection \<open>Recovering an edited file\<close>

lemma collect_pieces_view:
  "list_all P (node_leaves n) \<Longrightarrow> pv \<in> set (collect_pieces n doc s e []) \<Longrightarrow>
   P (LeafData_new (pv_location pv) (pv_buffer_offset pv) (pv_bytes pv) (pv_line_feed_cnt pv))"
  by (induction n arbitrary: doc) (auto simp: collect_pieces_Internal Let_def simp del: collect_pieces.simps(1) split: if_splits)

lemma recoverable_views:
  assumes "recoverable f orig tb"
  shows "leaves_in_buffers f tb" "list_all (file_covers f) (buffers tb)" "originals_kept f orig tb"
proof -
  have un: "bufs_unshared f orig (buffers tb)" and
    leaves: "list_all (\<lambda>ld. origin_ok f (buffers tb) (ld_location ld) (ld_offset ld) (ld_bytes ld))
      (node_leaves (root (piece_tree tb)))"
    using assms by (simp_all add: recoverable_def)
  then show "leaves_in_buffers f tb" "list_all (file_covers f) (buffers tb)"
    by (auto simp: leaves_in_buffers_def origin_ok_def bufs_unshared_def list_all_iff)
  show "originals_kept f orig tb"
    unfolding originals_kept_def list_all_iff
  proof
    fix pv assume pv: "pv \<in> set (iter_pieces_in_range (piece_tree tb) 0 (pt_total_bytes (piece_tree tb)))"
    have o: "origin_ok f (buffers tb) (pv_location pv) (pv_buffer_offset pv) (pv_bytes pv)"
      using collect_pieces_view[OF leaves pv[unfolded iter_pieces_in_range_def]] by simp
    show "originals_ok f orig (buffers tb) pv"
    proof (cases "pv_location pv")
      case (Stored i)
      then obtain b where "slice_get (buffers tb) 0 = Some b" "i = 0"
        "pv_buffer_offset pv + pv_bytes pv \<le> length (buffer_bytes f b)"
        using o by (auto simp: origin_ok_def in_buffer_def split: option.splits)
      then show ?thesis
        using Stored bufs_unshared_nth(3)[OF un]
        by (simp add: originals_ok_def original_offset_def view_text_def piece_text_def)
    next
      case (Added i)
      then show ?thesis
        using bufs_unshared_nth(1)[OF un]
        by (auto simp: originals_ok_def original_offset_def split: option.splits)
    qed
  qed
qed

lemma lazy_file_recoverable:
  assumes "length (f path) = len"
  shows "recoverable f (f path) (lazy_file path len sample enc bin)"
  using assms lazy_file_ok(1)[of f path len sample enc bin]
  by (auto simp: recoverable_def bufs_unshared_def new_unloaded_def buffer_bytes_def file_covers_def
      origin_ok_def in_buffer_def slice_get_def pt_new_def pt_empty_def empty_leaf_def
      original_file_size_def lazy_file_def persistence_new_def Let_def)

definition sample_bytes :: "byte list" where
  "sample_bytes = [97, 98, 99, 100, 101, 102]"

definition sample_fs :: "unit FileSystem" where
  "sample_fs = memory_fs (\<lambda>_. sample_bytes)"

text \<open>The same files, with every read of a range failing.\<close>

definition blind_fs :: "unit FileSystem" where
  "blind_fs = sample_fs\<lparr>fs_read_range := \<lambda>_ _ _. Inl ()\<rparr>"

definition sample_open :: TextBuffer where
  "sample_open = lazy_file ''f'' (length sample_bytes) [] Utf8 False"

definition sample_file_buffer :: StringBuffer where
  "sample_file_buffer = new_unloaded 0 ''f'' 0 6"

definition sample_chunk :: "byte list \<Rightarrow> StringBuffer" where
  "sample_chunk s = \<lparr>sb_id = 1, sb_data = Loaded ([97, 98] @ s) (Some (compute_line_starts ([97, 98] @ s))),
                     stored_file_offset = Some 0\<rparr>"

definition sample_view :: PieceView where
  "sample_view = \<lparr>pv_location = Stored 0, pv_buffer_offset = 0, pv_bytes = 2, pv_doc_offset = 0, pv_line_feed_cnt = None\<rparr>"

abbreviation cut_tree :: PieceTree where
  "cut_tree \<equiv> \<lparr>root = Internal 2 None (Leaf (Stored 0) 0 2 None) (Leaf (Stored 0) 4 2 None),
     pt_total_bytes = 4\<rparr>"

abbreviation loaded_tree :: PieceTree where
  "loaded_tree \<equiv> \<lparr>root = Internal 2 None (Leaf (Added 1) 0 2 None) (Leaf (Stored 0) 4 2 None),
     pt_total_bytes = 4\<rparr>"

abbreviation typed_behind_tree :: PieceTree where
  "typed_behind_tree \<equiv> \<lparr>root = Internal 2 None (Leaf (Added 1) 0 2 None)
       (Internal 1 (Some 0) (Leaf (Added 1) 2 1 (Some 0)) (Leaf (Stored 0) 4 2 None)),
     pt_total_bytes = 5\<rparr>"

lemmas sample_eval = delete_bytes_def pt_delete_def compute_line_feeds_static_def Let_def slice_get_def
  check_and_rebalance_def build_balanced.simps leaf_node_def pt_new_def get_data_def

lemma sample_depths: "ceil_log2 (Suc (Suc 0)) = 1" "ceil_log2 (Suc (Suc (Suc 0))) = 2"
  by (simp_all add: ceil_log2.simps)

lemma lazy_file_size: "original_file_size (lazy_file path len sample enc bin) = Some len"
  by (simp add: original_file_size_def lazy_file_def persistence_new_def Let_def)

lemma sample_delete:
  "\<exists>tb. delete_bytes sample_fs sample_open 2 2 = Some tb \<and>
     piece_tree tb = cut_tree \<and>
     buffers tb = [sample_file_buffer] \<and> next_buffer_id tb = 1 \<and> original_file_size tb = Some 6 \<and>
     \<not> fk_line_feeds_scanned (file_kind tb)"
  by (simp add: sample_open_def sample_bytes_def sample_depths sample_eval sample_file_buffer_def new_unloaded_def lazy_file_size)

lemma sample_load:
  assumes "piece_tree tb = cut_tree"
    "buffers tb = [sample_file_buffer]" "next_buffer_id tb = 1" "original_file_size tb = Some 6"
    "\<not> fk_line_feeds_scanned (file_kind tb)"
  shows "\<exists>tb'. chunk_split_and_load sample_fs tb sample_view 0 = Some (tb', Inr True) \<and>
     piece_tree tb' = loaded_tree \<and>
     buffers tb' = [sample_file_buffer, sample_chunk []] \<and> next_buffer_id tb' = 2 \<and>
     original_file_size tb' = Some 6 \<and> \<not> fk_line_feeds_scanned (file_kind tb')"
  using assms
  by (simp add: chunk_split_and_load_def load_chunk_def sample_view_def chunk_bounds_def sample_eval
      sample_file_buffer_def new_unloaded_def unloaded_bytes_def LOAD_CHUNK_SIZE_def create_chunk_buffer_def
      install_chunk_def fix_line_feeds_def sync_saved_root_def load_def sample_fs_def memory_fs_def sample_bytes_def
      replace_buffer_reference_def sample_chunk_def original_file_size_def apply_chunk_load_to_saved_root_def
      set_saved_root_def bump_save_state_def sample_depths)

lemma sample_type:
  assumes "piece_tree tb = loaded_tree"
    "buffers tb = [sample_file_buffer, sample_chunk []]" "next_buffer_id tb = 2"
    "original_file_size tb = Some 6" "\<not> fk_line_feeds_scanned (file_kind tb)"
  shows "\<exists>tb' c. insert_bytes sample_fs tb 2 [88] = Some (tb', c) \<and>
     piece_tree tb' = typed_behind_tree \<and>
     buffers tb' = [sample_file_buffer, sample_chunk [88]] \<and> original_file_size tb' = Some 6"
  using assms
  by (simp add: insert_bytes_def try_append_to_existing_buffer_def pt_find_by_offset_def sample_eval
      sample_chunk_def sb_append_def pt_insert_def sample_depths newline_def compute_line_starts_def)

lemma sample_recovery:
  assumes "piece_tree tb = typed_behind_tree"
    "buffers tb = [sample_file_buffer, sample_chunk [88]]" "original_file_size tb = Some 6"
  shows "get_recovery_chunks sample_fs tb = Some (Inr [RecoveryChunk_new 3 1 []])"
    "tb_text (\<lambda>_. sample_bytes) tb = [97, 98, 88, 101, 102]"
  using assms
  by (simp_all add: get_recovery_chunks_def iter_pieces_in_range_def chunker_start_def original_offset_def
      unchanged_def change_def piece_part_def finish_chunks_def complete_def read_spans_def sample_chunk_def
      sample_file_buffer_def new_unloaded_def slice_get_def Let_def tb_text_def pt_text_def piece_text_def
      buffer_bytes_def sample_bytes_def numeral_3_eq_3)

subsection \<open>The properties\<close>

text \<open>
  The chunks of a buffer, stored and read back, give its text. For a buffer whose pieces taken for
  original text hold the bytes of the original file, on a file system that serves it, building the chunks
  does not panic and does not fail; the chunks are in order, inside the original file and more than
  the merge gap apart; and applying the stored entry to the original file gives the text of the buffer,
  byte for byte.
\<close>

theorem recovery_roundtrip:
  assumes "fs_serves f fs" and "tb_ok f tb" and "leaves_in_buffers f tb"
    and "list_all (file_covers f) (buffers tb)" and "originals_kept f orig tb"
    and "original_file_size tb = Some (length orig)"
  shows "\<exists>cs index content. get_recovery_chunks fs tb = Some (Inr cs) \<and> chunks_ok (length orig) cs \<and>
           save_recovery cs (length orig) (length (tb_text f tb)) = (index, content) \<and>
           reconstruct_from_chunks index (\<lambda>i. if i = 0 then Inr content else Inl missing) (Inr orig) =
             Some (Inr (tb_text f tb))"
proof -
  obtain cs where cs: "get_recovery_chunks fs tb = Some (Inr cs)" "chunks_ok (length orig) cs"
    "apply_chunks orig cs 0 [] = Some (tb_text f tb)"
    using get_recovery_chunks_correct[OF assms] by blast
  obtain index content where st: "save_recovery cs (length orig) (length (tb_text f tb)) = (index, content)"
    by fastforce
  show ?thesis
    using cs st read_saved_recovery[OF st, of "\<lambda>i. if i = 0 then Inr content else Inl missing"]
    by (simp add: reconstruct_from_chunks_def ChunkedRecoveryData_new_def)
qed

theorem recovery_roundtrip_witness:
  "\<exists>cs index content. get_recovery_chunks sample_fs sample_open = Some (Inr cs) \<and>
     save_recovery cs 6 6 = (index, content) \<and>
     reconstruct_from_chunks index (\<lambda>i. if i = 0 then Inr content else Inl ()) (Inr sample_bytes) =
       Some (Inr sample_bytes)"
proof -
  have r: "recoverable (\<lambda>_. sample_bytes) sample_bytes sample_open"
    unfolding sample_open_def by (rule lazy_file_recoverable) simp
  have t: "tb_text (\<lambda>_. sample_bytes) sample_open = sample_bytes"
    unfolding sample_open_def by (rule lazy_file_ok) simp
  have l: "length sample_bytes = 6" by (simp add: sample_bytes_def)
  have s: "fs_serves (\<lambda>_. sample_bytes) sample_fs" by (simp add: fs_serves_def sample_fs_def memory_fs_def)
  show ?thesis
    using recovery_roundtrip[OF s _ recoverable_views[OF r], of "()"] r t l
    by (auto simp: recoverable_def)
qed

lemma recoverable_fails_or_complete:
  assumes "fs_contract f fs" and "recoverable f orig tb"
  shows "(\<exists>e. get_recovery_chunks fs tb = Some (Inl e)) \<or>
    (\<exists>cs. get_recovery_chunks fs tb = Some (Inr cs) \<and> apply_chunks orig cs 0 [] = Some (tb_text f tb))"
proof -
  have "read_range_contract f (fs_read_range fs)" using assms(1) by (simp add: fs_contract_def)
  note sim = get_recovery_chunks_or[OF this, of tb]
  have "tb_ok f tb" "original_file_size tb = Some (length orig)" using assms(2) by (simp_all add: recoverable_def)
  then show ?thesis
    using sim get_recovery_chunks_correct[OF answering_serves[of f fs] _ recoverable_views[OF assms(2)]]
    by (auto simp: fails_or_def)
qed

text \<open>
  C6: a large file opened without reading it, edited by any script of insertions and deletions and then
  lost, is recovered: the chunks of the edited buffer, stored and applied to the file on disk, give what
  the script makes of the file's bytes.
\<close>

theorem recovery_after_edits:
  assumes "fs_contract f fs" and "fs_serves f fs" and "length (f path) = len"
  shows "\<exists>tb cs index content.
           run_edits (\<lambda>tb p s. map_option fst (insert_bytes fs tb p s)) (delete_bytes fs)
             (lazy_file path len sample enc bin) es = Some tb \<and>
           get_recovery_chunks fs tb = Some (Inr cs) \<and>
           save_recovery cs len (length (tb_text f tb)) = (index, content) \<and>
           reconstruct_from_chunks index (\<lambda>i. if i = 0 then Inr content else Inl missing) (Inr (f path)) =
             Some (Inr (foldl edit_list (f path) es))"
proof -
  note r = lazy_file_recoverable[of f path len sample enc bin, OF assms(3)]
  obtain tb where tb: "run_edits (\<lambda>tb p s. map_option fst (insert_bytes fs tb p s)) (delete_bytes fs)
      (lazy_file path len sample enc bin) es = Some tb" "recoverable f (f path) tb"
    "tb_text f tb = foldl edit_list (f path) es"
    using rbuf.run_edits_correct[of f fs "f path" "lazy_file path len sample enc bin" es] r assms
      lazy_file_ok(2)[of f path len sample enc bin] by auto
  have ok: "tb_ok f tb" "original_file_size tb = Some (length (f path))"
    using tb(2) by (simp_all add: recoverable_def)
  obtain cs where cs: "get_recovery_chunks fs tb = Some (Inr cs)"
    "apply_chunks (f path) cs 0 [] = Some (tb_text f tb)"
    using get_recovery_chunks_correct[OF assms(2) ok(1) recoverable_views[OF tb(2)] ok(2)] by blast
  obtain index content where st: "save_recovery cs len (length (tb_text f tb)) = (index, content)"
    by fastforce
  show ?thesis
    using tb(1,3) cs st assms(3) read_saved_recovery[OF st, of "\<lambda>i. if i = 0 then Inr content else Inl missing"]
    by (simp add: reconstruct_from_chunks_def ChunkedRecoveryData_new_def)
qed

theorem recovery_after_edits_witness:
  "\<exists>tb cs index content.
     run_edits (\<lambda>tb p s. map_option fst (insert_bytes sample_fs tb p s)) (delete_bytes sample_fs)
       (lazy_file ''f'' 6 [] Utf8 False) [Del 2 2, Ins 2 [88]] = Some tb \<and>
     get_recovery_chunks sample_fs tb = Some (Inr cs) \<and>
     save_recovery cs 6 (length (tb_text (\<lambda>_. sample_bytes) tb)) = (index, content) \<and>
     reconstruct_from_chunks index (\<lambda>i. if i = 0 then Inr content else Inl ()) (Inr sample_bytes) =
       Some (Inr [97, 98, 88, 101, 102])"
proof -
  have s: "fs_serves (\<lambda>_. sample_bytes) sample_fs" by (simp add: fs_serves_def sample_fs_def memory_fs_def)
  have c: "fs_contract (\<lambda>_. sample_bytes) sample_fs" unfolding sample_fs_def by (rule memory_fs_contract)
  show ?thesis
    using recovery_after_edits[OF c s, where path = "''f''" and len = 6 and sample = "[]" and enc = Utf8 and bin = False
        and es = "[Del 2 2, Ins 2 [88]]" and missing = "()"]
    by (simp add: sample_bytes_def)
qed

text \<open>
  C7: a read that fails is reported. A large file is opened without reading it and edited by any script of
  insertions and deletions, without loading chunks of it for display. Whatever reads fail while the chunks
  of the edited buffer are built, there is no panic; the result is an error, or chunks that give what the
  script makes of the file's bytes, and never chunks of part of it.
\<close>

theorem recovery_fails_or_complete:
  assumes "fs_contract f fs" and "fs_contract f fs'" and "length (f path) = len"
  shows "\<exists>tb. run_edits (\<lambda>tb p s. map_option fst (insert_bytes fs tb p s)) (delete_bytes fs)
             (lazy_file path len sample enc bin) es = Some tb \<and>
     ((\<exists>e. get_recovery_chunks fs' tb = Some (Inl e)) \<or>
      (\<exists>cs. get_recovery_chunks fs' tb = Some (Inr cs) \<and>
         apply_chunks (f path) cs 0 [] = Some (foldl edit_list (f path) es)))"
proof -
  obtain tb where tb: "run_edits (\<lambda>tb p s. map_option fst (insert_bytes fs tb p s)) (delete_bytes fs)
      (lazy_file path len sample enc bin) es = Some tb" "recoverable f (f path) tb"
    "tb_text f tb = foldl edit_list (f path) es"
    using rbuf.run_edits_correct[of f fs "f path" "lazy_file path len sample enc bin" es]
      lazy_file_recoverable[of f path len sample enc bin, OF assms(3)] assms(1,3)
      lazy_file_ok(2)[of f path len sample enc bin] by auto
  then show ?thesis using recoverable_fails_or_complete[OF assms(2) tb(2)] by auto
qed

theorem recovery_fails_or_complete_witness:
  "\<exists>tb e. run_edits (\<lambda>tb p s. map_option fst (insert_bytes sample_fs tb p s)) (delete_bytes sample_fs)
       (lazy_file ''f'' 6 [] Utf8 False) [Ins 0 [88], Ins 3 [89]] = Some tb \<and>
     get_recovery_chunks blind_fs tb = Some (Inl e)"
proof -
  have c: "fs_contract (\<lambda>_. sample_bytes) sample_fs" unfolding sample_fs_def by (rule memory_fs_contract)
  have b: "fs_contract (\<lambda>_. sample_bytes) blind_fs"
    by (auto simp: fs_contract_def blind_fs_def sample_fs_def memory_fs_def read_range_contract_def split: if_splits)
  have l: "length sample_bytes = 6" by (simp add: sample_bytes_def)
  obtain tb where tb: "run_edits (\<lambda>tb p s. map_option fst (insert_bytes sample_fs tb p s)) (delete_bytes sample_fs)
      (lazy_file ''f'' 6 [] Utf8 False) [Ins 0 [88], Ins 3 [89]] = Some tb"
    "(\<exists>e. get_recovery_chunks blind_fs tb = Some (Inl e)) \<or> (\<exists>cs. get_recovery_chunks blind_fs tb = Some (Inr cs))"
    using recovery_fails_or_complete[OF c b, where path = "''f''" and len = 6 and sample = "[]" and enc = Utf8 and bin = False
        and es = "[Ins 0 [88], Ins 3 [89]]"] l by auto
  have "map_option (get_recovery_chunks blind_fs)
      (run_edits (\<lambda>tb p s. map_option fst (insert_bytes sample_fs tb p s)) (delete_bytes sample_fs)
        (lazy_file ''f'' 6 [] Utf8 False) [Ins 0 [88], Ins 3 [89]]) = Some (Some (Inl (Recovery_io ())))"
    by code_simp
  then show ?thesis using tb by auto
qed

text \<open>
  C8: text typed at the end of a loaded chunk is not recovered. Of a file holding \<open>abcdef\<close>, \<open>cd\<close> is deleted,
  the piece before it is loaded for display, and \<open>X\<close> is typed behind it. The typed byte is appended to the
  chunk's buffer, which records where in the file it came from, so it is taken for the original byte there:
  the buffer holds \<open>abXef\<close>, and its chunks give \<open>abcef\<close>.
\<close>

theorem typed_after_chunk_not_recovered:
  "\<exists>tb1 tb2 tb3 c cs.
     delete_bytes sample_fs sample_open 2 2 = Some tb1 \<and>
     chunk_split_and_load sample_fs tb1 sample_view 0 = Some (tb2, Inr True) \<and>
     insert_bytes sample_fs tb2 2 [88] = Some (tb3, c) \<and>
     tb_text (\<lambda>_. sample_bytes) tb3 = [97, 98, 88, 101, 102] \<and>
     get_recovery_chunks sample_fs tb3 = Some (Inr cs) \<and>
     apply_chunks sample_bytes cs 0 [] = Some [97, 98, 99, 101, 102]"
proof -
  obtain tb1 where tb1: "delete_bytes sample_fs sample_open 2 2 = Some tb1"
    "piece_tree tb1 = cut_tree"
    "buffers tb1 = [sample_file_buffer]" "next_buffer_id tb1 = 1" "original_file_size tb1 = Some 6"
    "\<not> fk_line_feeds_scanned (file_kind tb1)"
    using sample_delete by blast
  obtain tb2 where tb2: "chunk_split_and_load sample_fs tb1 sample_view 0 = Some (tb2, Inr True)"
    "piece_tree tb2 = loaded_tree"
    "buffers tb2 = [sample_file_buffer, sample_chunk []]" "next_buffer_id tb2 = 2"
    "original_file_size tb2 = Some 6" "\<not> fk_line_feeds_scanned (file_kind tb2)"
    using sample_load[OF tb1(2-6)] by blast
  obtain tb3 c where tb3: "insert_bytes sample_fs tb2 2 [88] = Some (tb3, c)"
    "get_recovery_chunks sample_fs tb3 = Some (Inr [RecoveryChunk_new 3 1 []])"
    "tb_text (\<lambda>_. sample_bytes) tb3 = [97, 98, 88, 101, 102]"
    using sample_type[OF tb2(2-6)] sample_recovery by blast
  have "apply_chunks sample_bytes [RecoveryChunk_new 3 1 []] 0 [] = Some [97, 98, 99, 101, 102]"
    by (simp add: sample_bytes_def RecoveryChunk_new_def index_range_def)
  with tb1(1) tb2(1) tb3 show ?thesis by blast
qed

end
