(* ===== verification/Pristine_Rebuild.thy ===== *)
theory Pristine_Rebuild
  imports Recovery_Edits Piece_Scan
begin

text \<open>
  Rebuilding the tree after a line feed scan of a large file (\<open>rebuild_with_pristine_saved_root\<close> of
  \<open>model/buffer/mod.rs\<close>): the edits are read off the current pieces, a tree of the whole file becomes the
  saved root, and the edits are replayed on it. For a buffer that was only edited, with the pieces in file
  order and counts that belong to the leaves they are recorded on, this changes nothing of the text. Both
  conditions matter: after an edit inside a chunk loaded for display the text is lost, and counts of a scan
  made after an edit are recorded on the wrong leaves.
\<close>

subsection \<open>The operation\<close>

text \<open>
  The deletions and insertions that make the current pieces out of the file, and the end of the last
  stretch of the file that is kept. An insertion is its offset among the kept bytes and its piece.
\<close>

type_synonym insertion = "nat \<times> BufferLocation \<times> nat \<times> nat \<times> nat option"

fun rebuild_walk ::
  "StringBuffer list \<Rightarrow> PieceView list \<Rightarrow> nat \<Rightarrow> nat \<Rightarrow> (nat \<times> nat) list \<times> insertion list \<times> nat" where
  "rebuild_walk bufs [] orig_pos stored_bytes_in_doc = ([], [], orig_pos)"
| "rebuild_walk bufs (pv # pvs) orig_pos stored_bytes_in_doc =
     (let file_start = (case pv_location pv of
                          Stored _ \<Rightarrow> Some (pv_buffer_offset pv)
                        | Added i \<Rightarrow> Option.bind (slice_get bufs i) stored_file_offset)
      in case file_start of
           Some off \<Rightarrow>
             (case rebuild_walk bufs pvs (off + pv_bytes pv) (stored_bytes_in_doc + pv_bytes pv) of
                (deletions, insertions, c) \<Rightarrow>
                  (if off > orig_pos then (orig_pos, off - orig_pos) # deletions else deletions,
                   insertions, c))
         | None \<Rightarrow>
             (case rebuild_walk bufs pvs orig_pos stored_bytes_in_doc of
                (deletions, insertions, c) \<Rightarrow>
                  (deletions,
                   (stored_bytes_in_doc, pv_location pv, pv_buffer_offset pv, pv_bytes pv, pv_line_feed_cnt pv)
                     # insertions, c)))"

definition edits_of_pieces :: "StringBuffer list \<Rightarrow> PieceView list \<Rightarrow> nat \<Rightarrow> (nat \<times> nat) list \<times> insertion list" where
  "edits_of_pieces bufs pvs file_size =
     (case rebuild_walk bufs pvs 0 0 of (deletions, insertions, c) \<Rightarrow>
        (if c < file_size then deletions @ [(c, file_size - c)] else deletions, insertions))"

fun pristine_leaves :: "LeafData list \<Rightarrow> nat \<Rightarrow> LeafData list" where
  "pristine_leaves [] doc_offset = []"
| "pristine_leaves (leaf # leaves) doc_offset =
     LeafData_new (Stored 0) doc_offset (ld_bytes leaf) (ld_line_feed_cnt leaf)
       # pristine_leaves leaves (doc_offset + ld_bytes leaf)"

fun replay_deletions :: "PieceTree \<Rightarrow> (nat \<times> nat) list \<Rightarrow> StringBuffer list \<Rightarrow> PieceTree option" where
  "replay_deletions t [] bufs = Some t"
| "replay_deletions t ((offset, len) # deletions) bufs = do {
     t' \<leftarrow> pt_delete t offset len bufs;
     replay_deletions t' deletions bufs
   }"

fun replay_insertions :: "PieceTree \<Rightarrow> insertion list \<Rightarrow> nat \<Rightarrow> StringBuffer list \<Rightarrow> PieceTree option" where
  "replay_insertions t [] insert_delta bufs = Some t"
| "replay_insertions t ((offset, location, buf_offset, bytes, lf_cnt) # insertions) insert_delta bufs = do {
     (t', _) \<leftarrow> pt_insert t (offset + insert_delta) location buf_offset bytes lf_cnt bufs;
     replay_insertions t' insertions (insert_delta + bytes) bufs
   }"

definition whole_file :: "nat \<Rightarrow> PieceTree" where
  "whole_file file_size = (if file_size > 0 then pt_new (Stored 0) 0 file_size None else pt_empty)"

definition mark_line_feed_scan_complete :: "BufferFileKind \<Rightarrow> BufferFileKind" where
  "mark_line_feed_scan_complete fk = fk\<lparr>fk_line_feeds_scanned := True\<rparr>"

definition rebuild_with_pristine_saved_root ::
  "'e FileSystem \<Rightarrow> TextBuffer \<Rightarrow> (nat \<times> nat) list \<Rightarrow> TextBuffer option" where
  "rebuild_with_pristine_saved_root fs tb scan_updates =
     (case p_saved_file_size (persistence tb) of
        None \<Rightarrow> Some (apply_scan_updates tb scan_updates)
      | Some file_size \<Rightarrow>
          (case edits_of_pieces (buffers tb)
                  (iter_pieces_in_range (piece_tree tb) 0 (pt_total_bytes (piece_tree tb))) file_size of
             (deletions, insertions) \<Rightarrow>
               if deletions = [] \<and> insertions = [] then
                 (let scanned = update_leaf_line_feeds (piece_tree tb) scan_updates;
                      pristine = (if file_size > 0
                                  then from_leaves (pristine_leaves (get_leaves scanned) 0) else pt_empty)
                  in Some (tb\<lparr>persistence := set_saved_root (persistence tb) (root pristine),
                              piece_tree := pristine,
                              file_kind := mark_line_feed_scan_complete (file_kind tb)\<rparr>))
               else do {
                 split \<leftarrow> split_leaves_to_chunk_size (whole_file file_size) LOAD_CHUNK_SIZE;
                 let pristine = update_leaf_line_feeds split scan_updates;
                 t1 \<leftarrow> replay_deletions pristine (sort_key (\<lambda>(off, _). - int off) deletions) (buffers tb);
                 t2 \<leftarrow> replay_insertions t1 insertions 0 (buffers tb);
                 fixups \<leftarrow> collect_fixups fs tb 0 (get_leaves t2);
                 let t3 = (if fixups \<noteq> [] then update_leaf_line_feeds_path_copy t2 fixups else t2);
                 Some (tb\<lparr>persistence := set_saved_root (persistence tb) (root pristine),
                          piece_tree := t3,
                          file_kind := mark_line_feed_scan_complete (file_kind tb)\<rparr>)
               }))"

subsection \<open>Cutting and inserting in lists\<close>

definition cut :: "nat \<times> nat \<Rightarrow> 'a list \<Rightarrow> 'a list" where
  "cut d xs = take (fst d) xs @ drop (fst d + snd d) xs"

text \<open>The pieces that are slices of the file, in the order of the file.\<close>

fun in_file_order :: "nat \<Rightarrow> PieceView list \<Rightarrow> bool" where
  "in_file_order c [] \<longleftrightarrow> True"
| "in_file_order c (pv # pvs) \<longleftrightarrow>
     (case pv_location pv of
        Stored _ \<Rightarrow> c \<le> pv_buffer_offset pv \<and> in_file_order (pv_buffer_offset pv + pv_bytes pv) pvs
      | Added _ \<Rightarrow> in_file_order c pvs)"

fun kept_text :: "(string \<Rightarrow> byte list) \<Rightarrow> StringBuffer list \<Rightarrow> PieceView list \<Rightarrow> byte list" where
  "kept_text f bufs [] = []"
| "kept_text f bufs (pv # pvs) =
     (case pv_location pv of Stored _ \<Rightarrow> view_text f bufs pv | Added _ \<Rightarrow> []) @ kept_text f bufs pvs"

text \<open>A piece of an edited file: a slice of the original, or of a buffer that holds no part of it.\<close>

definition plain_piece :: "(string \<Rightarrow> byte list) \<Rightarrow> byte list \<Rightarrow> StringBuffer list \<Rightarrow> PieceView \<Rightarrow> bool" where
  "plain_piece f orig bufs pv \<longleftrightarrow>
     (case pv_location pv of
        Stored _ \<Rightarrow> pv_buffer_offset pv + pv_bytes pv \<le> length orig \<and>
          view_text f bufs pv = take (pv_bytes pv) (drop (pv_buffer_offset pv) orig)
      | Added i \<Rightarrow> Option.bind (slice_get bufs i) stored_file_offset = None)"

lemma walk_deletions:
  assumes "list_all (plain_piece f orig bufs) pvs" "in_file_order c pvs" "c \<le> length orig"
    and "rebuild_walk bufs pvs c sb = (ds, is, e)"
  shows "c \<le> e \<and> e \<le> length orig \<and> sorted_wrt (\<lambda>a b. fst a < fst b) ds \<and>
    list_all (\<lambda>d. c \<le> fst d \<and> 0 < snd d \<and> fst d + snd d \<le> e) ds \<and>
    foldr cut ds (take e orig) = take c orig @ kept_text f bufs pvs"
  using assms
proof (induction pvs arbitrary: c sb ds "is" e)
  case (Cons pv pvs)
  show ?case
  proof (cases "pv_location pv")
    case (Stored i)
    let ?off = "pv_buffer_offset pv" and ?n = "pv_bytes pv"
    obtain ds' is' where w: "rebuild_walk bufs pvs (?off + ?n) (sb + ?n) = (ds', is', e)"
      and ds: "ds = (if ?off > c then (c, ?off - c) # ds' else ds')"
      using Cons.prems(4) Stored by (auto split: prod.splits)
    have p: "?off + ?n \<le> length orig" "view_text f bufs pv = take ?n (drop ?off orig)" "c \<le> ?off"
      "in_file_order (?off + ?n) pvs" "list_all (plain_piece f orig bufs) pvs"
      using Cons.prems(1,2) Stored plain_piece_def[of f orig bufs pv] by simp_all
    note ih = Cons.IH[OF p(5,4,1) w]
    have e: "c \<le> e" "e \<le> length orig" using ih p(3) by auto
    show ?thesis
    proof (cases "c < ?off")
      case True
      have "cut (c, ?off - c) (take (?off + ?n) orig @ kept_text f bufs pvs) =
          take c orig @ view_text f bufs pv @ kept_text f bufs pvs"
        using True p(1,2) by (simp add: cut_def drop_take min_def)
      moreover have "list_all (\<lambda>d. c < fst d \<and> 0 < snd d \<and> fst d + snd d \<le> e) ds'"
        using ih True unfolding list_all_iff by force
      ultimately show ?thesis
        using ih True e Stored ds unfolding list_all_iff by auto
    next
      case False
      then have "?off = c" using p(3) by simp
      moreover have "list_all (\<lambda>d. c \<le> fst d \<and> 0 < snd d \<and> fst d + snd d \<le> e) ds'"
        using ih p(3) unfolding list_all_iff by force
      ultimately show ?thesis using ih e Stored ds p(2) by (simp add: take_add)
    qed
  next
    case (Added i)
    then obtain is' where "rebuild_walk bufs pvs c sb = (ds, is', e)"
      using Cons.prems(1,4) by (auto simp: plain_piece_def split: prod.splits)
    with Cons.IH[of c sb ds is' e] Cons.prems Added show ?thesis by simp
  qed
qed simp

lemma walk_all_deletions:
  assumes "list_all (plain_piece f orig bufs) pvs" "in_file_order 0 pvs"
    and "edits_of_pieces bufs pvs (length orig) = (ds, is)"
  shows "sorted_wrt (\<lambda>a b. fst a < fst b) ds" "foldr cut ds orig = kept_text f bufs pvs"
proof -
  obtain ds' e where w: "rebuild_walk bufs pvs 0 0 = (ds', is, e)"
    and ds: "ds = (if e < length orig then ds' @ [(e, length orig - e)] else ds')"
    using assms(3) by (auto simp: edits_of_pieces_def split: prod.splits if_splits)
  have walk: "e \<le> length orig" "sorted_wrt (\<lambda>a b. fst a < fst b) ds'"
    "list_all (\<lambda>d. 0 < snd d \<and> fst d + snd d \<le> e) ds'" "foldr cut ds' (take e orig) = kept_text f bufs pvs"
    using walk_deletions[OF assms(1,2) _ w] by simp_all
  show "sorted_wrt (\<lambda>a b. fst a < fst b) ds"
    using walk(2,3) ds by (auto simp: sorted_wrt_append list_all_iff)
  show "foldr cut ds orig = kept_text f bufs pvs"
    using walk(1,4) ds by (auto simp: cut_def)
qed

lemma insort_at_end: "(\<And>y. y \<in> set ys \<Longrightarrow> \<not> k x \<le> k y) \<Longrightarrow> insort_key k x ys = ys @ [x]"
  by (induction ys) auto

lemma sort_descending:
  assumes "sorted_wrt (\<lambda>a b. fst a < fst b) ds"
  shows "sort_key (\<lambda>(off, _). - int off) ds = rev (ds :: (nat \<times> nat) list)"
  using assms by (induction ds) (force intro!: insort_at_end)+

subsection \<open>Replaying\<close>

abbreviation origin_leaves :: "(string \<Rightarrow> byte list) \<Rightarrow> StringBuffer list \<Rightarrow> PieceTree \<Rightarrow> bool" where
  "origin_leaves f bufs t \<equiv>
     list_all (\<lambda>ld. origin_ok f bufs (ld_location ld) (ld_offset ld) (ld_bytes ld)) (node_leaves (root t))"

lemma replay_deletions_correct:
  assumes "bufs \<noteq> []" "pt_ok f bufs t" "origin_leaves f bufs t"
  shows "\<exists>t'. replay_deletions t ds bufs = Some t' \<and> pt_ok f bufs t' \<and> origin_leaves f bufs t' \<and>
    pt_text f bufs t' = fold cut ds (pt_text f bufs t)"
  using assms(2,3)
proof (induction ds arbitrary: t)
  case (Cons d ds)
  obtain off n where d: "d = (off, n)" by (cases d)
  obtain t1 where t1: "pt_delete t off n bufs = Some t1" "pt_ok f bufs t1"
    "pt_text f bufs t1 = cut d (pt_text f bufs t)"
    using pt_delete_correct[OF Cons.prems(1), of off n] by (auto simp: cut_def d)
  then obtain t' where "replay_deletions t1 ds bufs = Some t'" "pt_ok f bufs t'" "origin_leaves f bufs t'"
    "pt_text f bufs t' = fold cut ds (pt_text f bufs t1)"
    using Cons.IH[of t1] origin_leaves_delete[OF assms(1) Cons.prems(2)] by blast
  with t1 show ?case by (simp add: d)
qed simp

lemma replay_insertions_correct:
  assumes "bufs \<noteq> []" "pt_ok f bufs t" "origin_leaves f bufs t"
    and "rebuild_walk bufs pvs c sb = (ds, is, e)" "list_all (plain_piece f orig bufs) pvs"
    and "\<And>pv. pv \<in> set pvs \<Longrightarrow> piece_ok f bufs (pv_location pv) (pv_buffer_offset pv) (pv_bytes pv) (pv_line_feed_cnt pv) \<and>
      origin_ok f bufs (pv_location pv) (pv_buffer_offset pv) (pv_bytes pv)"
    and "pt_text f bufs t = prefix @ kept_text f bufs pvs" "length prefix = sb + delta"
  shows "\<exists>t'. replay_insertions t is delta bufs = Some t' \<and> pt_ok f bufs t' \<and> origin_leaves f bufs t' \<and>
    pt_text f bufs t' = prefix @ concat (map (view_text f bufs) pvs)"
  using assms(2-8)
proof (induction pvs arbitrary: t prefix c sb delta ds "is" e)
  case (Cons pv pvs)
  have here: "piece_ok f bufs (pv_location pv) (pv_buffer_offset pv) (pv_bytes pv) (pv_line_feed_cnt pv)"
    "origin_ok f bufs (pv_location pv) (pv_buffer_offset pv) (pv_bytes pv)"
    using Cons.prems(5)[of pv] by simp_all
  have len: "length (view_text f bufs pv) = pv_bytes pv"
    using here(1) by (simp add: piece_ok_def view_text_def)
  have rest: "list_all (plain_piece f orig bufs) pvs" using Cons.prems(4) by simp
  note pvs_ok = Cons.prems(5)[OF list.set_intros(2)]
  show ?case
  proof (cases "pv_location pv")
    case (Stored i)
    let ?c = "pv_buffer_offset pv + pv_bytes pv"
    obtain ds' where w: "rebuild_walk bufs pvs ?c (sb + pv_bytes pv) = (ds', is, e)"
      using Cons.prems(3) Stored by (auto split: prod.splits)
    show ?thesis
      using Cons.IH[OF Cons.prems(1,2) w rest pvs_ok, of "prefix @ view_text f bufs pv" delta]
        Cons.prems(6,7) Stored len by simp
  next
    case (Added i)
    then obtain is' where w: "rebuild_walk bufs pvs c sb = (ds, is', e)"
      and ins: "is = (sb, pv_location pv, pv_buffer_offset pv, pv_bytes pv, pv_line_feed_cnt pv) # is'"
      using Cons.prems(3,4) by (auto simp: plain_piece_def split: prod.splits)
    obtain t1 cur where t1: "pt_insert t (sb + delta) (pv_location pv) (pv_buffer_offset pv) (pv_bytes pv)
        (pv_line_feed_cnt pv) bufs = Some (t1, cur)" "pt_ok f bufs t1"
      "pt_text f bufs t1 = prefix @ view_text f bufs pv @ kept_text f bufs pvs"
      using pt_insert_correct[OF Cons.prems(1) here(1), of "sb + delta"] Cons.prems(6,7) Added
      by (auto simp: view_text_def)
    have "origin_leaves f bufs t1" by (rule origin_leaves_insert[OF assms(1) here(2) Cons.prems(2) t1(1)])
    from Cons.IH[OF t1(2) this w rest pvs_ok, of "prefix @ view_text f bufs pv" "delta + pv_bytes pv"]
    show ?thesis using t1 Cons.prems(7) len ins by simp
  qed
qed auto

subsection \<open>The tree of the whole file\<close>

context slice_property begin

lemma split_leaf_loop_good:
  assumes "0 < m" "good_leaf leaf" "off \<le> ld_bytes leaf"
  shows "\<exists>lds. split_leaf_loop m leaf off = Some lds \<and> list_all good_leaf lds"
  using assms(3)
proof (induction "ld_bytes leaf - off" arbitrary: off rule: less_induct)
  case less
  let ?n = "min m (ld_bytes leaf - off)"
  show ?case
  proof (cases "off < ld_bytes leaf")
    case False
    then show ?thesis by (subst split_leaf_loop.simps) simp
  next
    case True
    have "ld_bytes leaf - (off + ?n) < ld_bytes leaf - off" "off + ?n \<le> ld_bytes leaf"
      using True assms(1) by auto
    then obtain lds where "split_leaf_loop m leaf (off + ?n) = Some lds" "list_all good_leaf lds"
      using less.hyps by blast
    moreover have "good (ld_location leaf) (ld_offset leaf + off) ?n"
      using assms(2) True by (intro part_good[where n = "ld_bytes leaf"]) (simp_all add: good_leaf_def)
    ultimately show ?thesis
      using True by (subst split_leaf_loop.simps) (simp add: Let_def good_leaf_def)
  qed
qed

lemma split_leaves_loop_good:
  "0 < m \<Longrightarrow> list_all good_leaf lds \<Longrightarrow> split_leaves_loop m lds = Some lds' \<Longrightarrow> list_all good_leaf lds'"
proof (induction lds arbitrary: lds')
  case (Cons ld lds)
  obtain here rest where h: "(if ld_bytes ld \<le> m then Some [ld] else split_leaf_loop m ld 0) = Some here"
    "split_leaves_loop m lds = Some rest" "lds' = here @ rest"
    using Cons.prems(3) by (auto simp: bind_eq_Some_conv)
  have "list_all good_leaf here"
    using h(1) Cons.prems(1,2) split_leaf_loop_good[of m ld 0] by (auto split: if_splits)
  with Cons h show ?case by simp
qed simp

lemma split_to_chunk_size_good:
  assumes "0 < m" "list_all good_leaf (node_leaves (root t))" "split_leaves_to_chunk_size t m = Some t'"
  shows "list_all good_leaf (node_leaves (root t'))"
proof -
  obtain lds where lds: "split_leaves_loop m (node_leaves (root t)) = Some lds"
    "t' = (if list_ex (\<lambda>leaf. ld_bytes leaf > m) (node_leaves (root t)) then t\<lparr>root := build_balanced lds\<rparr> else t)"
    using assms(3) by (auto simp: split_leaves_to_chunk_size_def get_leaves_def bind_eq_Some_conv Let_def split: if_splits)
  have "list_all good_leaf lds" by (rule split_leaves_loop_good[OF assms(1,2) lds(1)])
  then show ?thesis
    using lds(2) assms(2) empty_good
    by (cases "lds = []") (auto simp: build_balanced_leaves empty_leaf_def good_leaf_def)
qed

end

lemma whole_file_ok:
  assumes "bufs_unshared f orig bufs"
  shows "pt_ok f bufs (whole_file (length orig))" "pt_text f bufs (whole_file (length orig)) = orig"
    "origin_leaves f bufs (whole_file (length orig))"
proof -
  obtain b bs where b: "bufs = b # bs" "buffer_bytes f b = orig"
    using assms by (cases bufs) (auto simp: bufs_unshared_def)
  then show "pt_ok f bufs (whole_file (length orig))" "pt_text f bufs (whole_file (length orig)) = orig"
    "origin_leaves f bufs (whole_file (length orig))"
    by (auto simp: whole_file_def pt_ok_def piece_ok_def piece_text_def slice_get_def pt_text_def pt_new_def pt_empty_def
        empty_leaf_def origin_ok_def in_buffer_def)
qed

definition scan_fits :: "(string \<Rightarrow> byte list) \<Rightarrow> StringBuffer list \<Rightarrow> LeafData list \<Rightarrow> (nat \<times> nat) list \<Rightarrow> bool" where
  "scan_fits f bufs lds updates \<longleftrightarrow>
     (\<forall>(j, k)\<in>set updates. j < length lds \<longrightarrow> k = count_nl (ld_text f bufs (lds ! j)))"

lemma update_leaf_line_feeds_ok:
  assumes "pt_ok f bufs t" "scan_fits f bufs (node_leaves (root t)) us"
  shows "pt_ok f bufs (update_leaf_line_feeds t us)" "pt_text f bufs (update_leaf_line_feeds t us) = pt_text f bufs t"
    "origin_leaves f bufs t \<Longrightarrow> origin_leaves f bufs (update_leaf_line_feeds t us)"
proof -
  have ok: "list_all (ld_ok f bufs) (node_leaves (root t))" "caches_ok (root t)"
    "pt_total_bytes t = node_total_bytes (root t)"
    using assms(1) by (simp_all add: pt_ok_def node_ok_def)
  note upd = update_leaf_line_feeds_leaves[where t = t and us = us]
  have lds: "list_all (ld_ok f bufs) (apply_lf_updates (node_leaves (root t)) us)"
    using apply_lf_updates_ok[OF ok(1)] assms(2) by (simp add: scan_fits_def)
  have ranges: "map ld_range (node_leaves (root (update_leaf_line_feeds t us))) = map ld_range (node_leaves (root t))"
    using upd(1) apply_lf_updates_frame by simp
  have bytes: "map ld_bytes lds = map (\<lambda>(_, _, n). n) (map ld_range lds)" for lds
    by (simp add: ld_range_def)
  have "map ld_bytes (node_leaves (root (update_leaf_line_feeds t us))) = map ld_bytes (node_leaves (root t))"
    by (simp only: bytes ranges)
  then show "pt_ok f bufs (update_leaf_line_feeds t us)"
    using lds ok upd by (simp add: pt_ok_def node_ok_def leaves_total_bytes)
  show "pt_text f bufs (update_leaf_line_feeds t us) = pt_text f bufs t"
    by (simp add: pt_text_def node_text_def upd apply_lf_updates_text)
  have "origin_leaves f bufs t' \<longleftrightarrow> list_all (\<lambda>(l, off, n). origin_ok f bufs l off n) (map ld_range (node_leaves (root t')))" for t'
    by (simp add: list_all_iff ld_range_def)
  then show "origin_leaves f bufs t \<Longrightarrow> origin_leaves f bufs (update_leaf_line_feeds t us)"
    by (simp only: ranges)
qed

lemma split_whole_file:
  assumes "bufs_unshared f orig bufs"
  obtains t where "split_leaves_to_chunk_size (whole_file (length orig)) LOAD_CHUNK_SIZE = Some t"
    "pt_ok f bufs t" "pt_text f bufs t = orig" "origin_leaves f bufs t"
proof -
  have pos: "0 < LOAD_CHUNK_SIZE" by (simp add: LOAD_CHUNK_SIZE_def)
  obtain b bs where b: "bufs = b # bs" using assms by (cases bufs) (auto simp: bufs_unshared_def)
  obtain t where t: "split_leaves_to_chunk_size (whole_file (length orig)) LOAD_CHUNK_SIZE = Some t"
    "pt_ok f bufs t" "pt_text f bufs t = orig"
    using split_to_chunk_size_correct[OF pos whole_file_ok(1)[OF assms]] whole_file_ok(2)[OF assms] by auto
  have "origin_leaves f bufs t"
    using origin.split_to_chunk_size_good[OF pos _ t(1), of f b bs] whole_file_ok(3)[OF assms]
    unfolding origin.good_leaf_def[abs_def] b by simp
  with t show thesis by (rule that)
qed

subsection \<open>Counting the leaves that are left\<close>

lemma scan_leaf_in_buffer:
  assumes "fs_contract f fs" "in_buffer f (buffers tb) (ld_location ld) (ld_offset ld) (ld_bytes ld)"
  shows "\<exists>r. scan_leaf fs tb ld = Some r \<and> (\<forall>k. r = Inr k \<longrightarrow> k = count_nl (ld_text f (buffers tb) ld))"
proof -
  obtain b where b: "slice_get (buffers tb) (buffer_id (ld_location ld)) = Some b"
    "ld_offset ld + ld_bytes ld \<le> length (buffer_bytes f b)"
    "ld_text f (buffers tb) ld = take (ld_bytes ld) (drop (ld_offset ld) (buffer_bytes f b))"
    using in_bufferE[OF assms(2)] by (metis ld_text_def)
  show ?thesis
  proof (cases "sb_data b")
    case (Loaded data ls)
    then show ?thesis using b
      by (simp add: scan_leaf_def index_range_def buffer_bytes_def Let_def min_absorb1 drop_take)
  next
    case (Unloaded p fo n)
    then have "ld_text f (buffers tb) ld = take (ld_bytes ld) (drop (fo + ld_offset ld) (f p))"
      using b(2,3) unloaded_slice(1)[of "ld_offset ld" "ld_bytes ld" n fo "f p"] by (simp add: buffer_bytes_def)
    then show ?thesis using b(1) Unloaded assms(1)
      by (auto simp: scan_leaf_def fs_contract_def Let_def split: sum.splits)
  qed
qed

lemma collect_fixups_fit:
  assumes "fs_contract f fs"
    and "list_all (\<lambda>ld. in_buffer f (buffers tb) (ld_location ld) (ld_offset ld) (ld_bytes ld)) lds"
  shows "\<exists>us. collect_fixups fs tb i lds = Some us \<and>
    (\<forall>(j, k)\<in>set us. i \<le> j \<and> j < i + length lds \<and> k = count_nl (ld_text f (buffers tb) (lds ! (j - i))))"
  using scan_leaf_in_buffer[OF assms(1)] assms(2) by (intro collect_fixups_scanned) (simp add: list_all_iff)

subsection \<open>Without edits\<close>

lemma no_insertions_kept:
  assumes "rebuild_walk bufs pvs c sb = (ds, [], e)" "list_all (plain_piece f orig bufs) pvs"
  shows "kept_text f bufs pvs = concat (map (view_text f bufs) pvs)"
  using assms
proof (induction pvs arbitrary: c sb ds e)
  case (Cons pv pvs)
  show ?case
  proof (cases "pv_location pv")
    case (Stored i)
    let ?c = "pv_buffer_offset pv + pv_bytes pv"
    obtain ds' where "rebuild_walk bufs pvs ?c (sb + pv_bytes pv) = (ds', [], e)"
      using Cons.prems(1) Stored by (auto split: prod.splits)
    with Cons Stored show ?thesis by simp
  next
    case (Added i)
    then have "Option.bind (slice_get bufs i) stored_file_offset = None"
      using Cons.prems(2) by (simp add: plain_piece_def)
    with Cons.prems(1) Added show ?thesis by (auto split: prod.splits)
  qed
qed simp

lemma pristine_leaves_ok:
  assumes "bufs_unshared f orig bufs" "list_all (ld_ok f bufs) lds" "leaves_text f bufs lds = drop doc orig"
    and "doc \<le> length orig"
  shows "list_all (ld_ok f bufs) (pristine_leaves lds doc) \<and> leaves_text f bufs (pristine_leaves lds doc) = drop doc orig"
  using assms(2-4)
proof (induction lds arbitrary: doc)
  case (Cons ld lds)
  have len: "length (ld_text f bufs ld) = ld_bytes ld" using Cons.prems(1) by (simp add: ld_ok_alt)
  have tx: "ld_text f bufs ld = take (ld_bytes ld) (drop doc orig)" "leaves_text f bufs lds = drop (doc + ld_bytes ld) orig"
    using Cons.prems(2) len by (auto simp: append_eq_conv_conj add.commute)
  have "piece_text f bufs (Stored 0) doc (ld_bytes ld) = take (ld_bytes ld) (drop doc orig)"
    using assms(1) by (cases bufs) (auto simp: bufs_unshared_def piece_text_def slice_get_def)
  then have here: "ld_ok f bufs (LeafData_new (Stored 0) doc (ld_bytes ld) (ld_line_feed_cnt ld))"
    "ld_text f bufs (LeafData_new (Stored 0) doc (ld_bytes ld) (ld_line_feed_cnt ld)) = ld_text f bufs ld"
    using Cons.prems(1) len tx(1) by (simp_all add: ld_ok_alt piece_ok_def ld_text_def split: option.splits)
  have "doc + ld_bytes ld \<le> length orig" using len tx(1) Cons.prems(3) by auto
  then show ?case
    using Cons.IH[OF _ tx(2)] Cons.prems here tx by simp
qed simp

subsection \<open>Rebuilding keeps the text\<close>

text \<open>The leaves the counts of the scan are recorded on.\<close>

definition recorded_leaves :: "TextBuffer \<Rightarrow> nat \<Rightarrow> LeafData list" where
  "recorded_leaves tb file_size =
     (if edits_of_pieces (buffers tb)
           (iter_pieces_in_range (piece_tree tb) 0 (pt_total_bytes (piece_tree tb))) file_size = ([], [])
      then get_leaves (piece_tree tb)
      else (case split_leaves_to_chunk_size (whole_file file_size) LOAD_CHUNK_SIZE of
              Some t \<Rightarrow> get_leaves t | None \<Rightarrow> []))"

lemma recoverable_pieces:
  assumes "recoverable f orig tb" "pv \<in> set (iter_pieces_in_range (piece_tree tb) 0 (pt_total_bytes (piece_tree tb)))"
  shows "plain_piece f orig (buffers tb) pv"
    "piece_ok f (buffers tb) (pv_location pv) (pv_buffer_offset pv) (pv_bytes pv) (pv_line_feed_cnt pv)"
    "origin_ok f (buffers tb) (pv_location pv) (pv_buffer_offset pv) (pv_bytes pv)"
proof -
  have un: "bufs_unshared f orig (buffers tb)" and
    leaves: "list_all (\<lambda>ld. origin_ok f (buffers tb) (ld_location ld) (ld_offset ld) (ld_bytes ld) \<and>
      ld_ok f (buffers tb) ld) (node_leaves (root (piece_tree tb)))"
    using assms(1) by (auto simp: recoverable_def tb_ok_def pt_ok_def node_ok_def list_all_iff)
  note pv = collect_pieces_view[OF leaves assms(2)[unfolded iter_pieces_in_range_def]]
  then show "piece_ok f (buffers tb) (pv_location pv) (pv_buffer_offset pv) (pv_bytes pv) (pv_line_feed_cnt pv)"
    and o: "origin_ok f (buffers tb) (pv_location pv) (pv_buffer_offset pv) (pv_bytes pv)" by simp_all
  have "originals_ok f orig (buffers tb) pv"
    using recoverable_views(3)[OF assms(1)] assms(2) by (simp add: originals_kept_def list_all_iff)
  then show "plain_piece f orig (buffers tb) pv"
    using bufs_unshared_nth(1)[OF un]
    by (cases "pv_location pv") (auto simp: plain_piece_def originals_ok_def original_offset_def
        bind_eq_None_conv split: option.splits)
qed

lemma set_pristine_ok:
  assumes "tb_ok f tb" "pt_ok f (buffers tb) t" "pt_ok f (buffers tb) p"
  shows "tb_ok f (tb\<lparr>persistence := set_saved_root (persistence tb) (root p), piece_tree := t, file_kind := k\<rparr>)"
    "tb_text f (tb\<lparr>persistence := set_saved_root (persistence tb) (root p), piece_tree := t, file_kind := k\<rparr>) =
       pt_text f (buffers tb) t"
    "saved_text f (tb\<lparr>persistence := set_saved_root (persistence tb) (root p), piece_tree := t, file_kind := k\<rparr>) =
       pt_text f (buffers tb) p"
  using assms
  by (simp_all add: tb_ok_def tb_text_def saved_text_def pt_text_def pt_ok_def set_saved_root_def bump_save_state_def)

abbreviation doc_pieces :: "TextBuffer \<Rightarrow> PieceView list" where
  "doc_pieces tb \<equiv> iter_pieces_in_range (piece_tree tb) 0 (pt_total_bytes (piece_tree tb))"

lemma recoverable_facts:
  assumes "recoverable f orig tb"
  shows "tb_ok f tb" "bufs_unshared f orig (buffers tb)" "buffers tb \<noteq> []"
    "p_saved_file_size (persistence tb) = Some (length orig)" "pt_ok f (buffers tb) (piece_tree tb)"
    "list_all (plain_piece f orig (buffers tb)) (doc_pieces tb)"
    "concat (map (view_text f (buffers tb)) (doc_pieces tb)) = tb_text f tb"
  using assms recoverable_pieces(1)[OF assms] document_pieces_text[of f tb]
  by (auto simp: recoverable_def bufs_unshared_def original_file_size_def tb_ok_def list_all_iff)

lemma rebuild_unedited:
  assumes "recoverable f orig tb" "in_file_order 0 (doc_pieces tb)"
    and "edits_of_pieces (buffers tb) (doc_pieces tb) (length orig) = ([], [])"
    and "scan_fits f (buffers tb) (node_leaves (root (piece_tree tb))) updates"
  shows "\<exists>tb'. rebuild_with_pristine_saved_root fs tb updates = Some tb' \<and> tb_ok f tb' \<and>
    tb_text f tb' = tb_text f tb \<and> saved_text f tb' = orig \<and> fk_line_feeds_scanned (file_kind tb')"
proof -
  let ?b = "buffers tb" and ?scanned = "update_leaf_line_feeds (piece_tree tb) updates"
  let ?p = "if length orig > 0 then from_leaves (pristine_leaves (get_leaves ?scanned) 0) else pt_empty"
  note ok = recoverable_facts[OF assms(1)]
  obtain ds e where w: "rebuild_walk ?b (doc_pieces tb) 0 0 = (ds, [], e)"
    using assms(3) by (auto simp: edits_of_pieces_def split: prod.splits)
  have whole: "pt_text f ?b (piece_tree tb) = orig"
    using no_insertions_kept[OF w ok(6)] walk_all_deletions(2)[OF ok(6) assms(2,3)] ok(7) by (simp add: tb_text_def)
  note upd = update_leaf_line_feeds_ok[OF ok(5) assms(4)]
  have "list_all (ld_ok f ?b) (get_leaves ?scanned)" "leaves_text f ?b (get_leaves ?scanned) = orig"
    using upd(1,2) whole by (simp_all add: pt_ok_def node_ok_def get_leaves_def pt_text_def node_text_def)
  then have p: "pt_ok f ?b ?p" "pt_text f ?b ?p = orig"
    using pristine_leaves_ok[OF ok(2), of "get_leaves ?scanned" 0] from_leaves_ok by auto
  note res = set_pristine_ok[OF ok(1) p(1) p(1), of "mark_line_feed_scan_complete (file_kind tb)"]
  have "rebuild_with_pristine_saved_root fs tb updates =
      Some (tb\<lparr>persistence := set_saved_root (persistence tb) (root ?p), piece_tree := ?p,
               file_kind := mark_line_feed_scan_complete (file_kind tb)\<rparr>)"
    using ok(4) assms(3) by (simp add: rebuild_with_pristine_saved_root_def Let_def)
  then show ?thesis
    using res p(2) whole by (simp add: tb_text_def mark_line_feed_scan_complete_def)
qed

lemma replay_edits:
  assumes "recoverable f orig tb" "in_file_order 0 (doc_pieces tb)"
    and "edits_of_pieces (buffers tb) (doc_pieces tb) (length orig) = (ds, ins)"
    and "pt_ok f (buffers tb) p" "origin_leaves f (buffers tb) p" "pt_text f (buffers tb) p = orig"
  obtains t1 t2 where
    "replay_deletions p (sort_key (\<lambda>(off, _). - int off) ds) (buffers tb) = Some t1"
    "replay_insertions t1 ins 0 (buffers tb) = Some t2" "pt_ok f (buffers tb) t2" "origin_leaves f (buffers tb) t2"
    "pt_text f (buffers tb) t2 = tb_text f tb"
proof -
  note ok = recoverable_facts[OF assms(1)]
  obtain ds' e where w: "rebuild_walk (buffers tb) (doc_pieces tb) 0 0 = (ds', ins, e)"
    using assms(3) by (auto simp: edits_of_pieces_def split: prod.splits)
  note del = walk_all_deletions[OF ok(6) assms(2,3)]
  obtain t1 where t1: "replay_deletions p (sort_key (\<lambda>(off, _). - int off) ds) (buffers tb) = Some t1"
    "pt_ok f (buffers tb) t1" "origin_leaves f (buffers tb) t1"
    "pt_text f (buffers tb) t1 = kept_text f (buffers tb) (doc_pieces tb)"
    using replay_deletions_correct[OF ok(3) assms(4,5), of "rev ds"] del assms(6)
    by (auto simp: sort_descending foldr_conv_fold)
  show thesis
    using replay_insertions_correct[OF ok(3) t1(2,3) w ok(6), of "[]" 0] recoverable_pieces(2,3)[OF assms(1)]
      t1(4) ok(7) that[OF t1(1)] by auto
qed

lemma rebuild_edited:
  assumes "fs_contract f fs" "recoverable f orig tb" "in_file_order 0 (doc_pieces tb)"
    and "edits_of_pieces (buffers tb) (doc_pieces tb) (length orig) = (ds, ins)" "\<not> (ds = [] \<and> ins = [])"
    and "split_leaves_to_chunk_size (whole_file (length orig)) LOAD_CHUNK_SIZE = Some split"
    and "scan_fits f (buffers tb) (node_leaves (root split)) updates"
  shows "\<exists>tb'. rebuild_with_pristine_saved_root fs tb updates = Some tb' \<and> tb_ok f tb' \<and>
    tb_text f tb' = tb_text f tb \<and> saved_text f tb' = orig \<and> fk_line_feeds_scanned (file_kind tb')"
proof -
  let ?b = "buffers tb" and ?p = "update_leaf_line_feeds split updates"
  note ok = recoverable_facts[OF assms(2)]
  have sp: "pt_ok f ?b split" "pt_text f ?b split = orig" "origin_leaves f ?b split"
    using split_whole_file[OF ok(2)] assms(6) by (metis option.inject)+
  note upd = update_leaf_line_feeds_ok[OF sp(1) assms(7)]
  have p: "pt_text f ?b ?p = orig" using upd(2) sp(2) by simp
  obtain t1 t2 where t: "replay_deletions ?p (sort_key (\<lambda>(off, _). - int off) ds) ?b = Some t1"
    "replay_insertions t1 ins 0 ?b = Some t2" "pt_ok f ?b t2" "origin_leaves f ?b t2" "pt_text f ?b t2 = tb_text f tb"
    by (rule replay_edits[OF assms(2-4) upd(1) upd(3)[OF sp(3)] p])
  have "list_all (\<lambda>ld. in_buffer f ?b (ld_location ld) (ld_offset ld) (ld_bytes ld)) (node_leaves (root t2))"
    using t(4) by (auto simp: list_all_iff origin_ok_def)
  from collect_fixups_fit[OF assms(1) this, of 0] obtain us where us:
    "collect_fixups fs tb 0 (node_leaves (root t2)) = Some us"
    "\<forall>(j, k)\<in>set us. j < length (node_leaves (root t2)) \<longrightarrow> k = count_nl (ld_text f ?b (node_leaves (root t2) ! j))"
    by auto
  let ?t = "if us \<noteq> [] then update_leaf_line_feeds_path_copy t2 us else t2"
  have t3: "pt_ok f ?b ?t" "pt_text f ?b ?t = tb_text f tb"
    using update_path_copy_ok[OF t(3) us(2)] t(3,5) by auto
  note res = set_pristine_ok[OF ok(1) t3(1) upd(1), of "mark_line_feed_scan_complete (file_kind tb)"]
  have "rebuild_with_pristine_saved_root fs tb updates =
      Some (tb\<lparr>persistence := set_saved_root (persistence tb) (root ?p), piece_tree := ?t,
               file_kind := mark_line_feed_scan_complete (file_kind tb)\<rparr>)"
    using ok(4) assms(4,6) t(1,2) us(1)
    by (simp add: rebuild_with_pristine_saved_root_def Let_def get_leaves_def if_not_P[OF assms(5)])
  then show ?thesis
    using res t3(2) p by (simp add: mark_line_feed_scan_complete_def)
qed

subsection \<open>Samples\<close>

lemma sample_recoverable: "recoverable (\<lambda>_. sample_bytes) sample_bytes sample_open"
  unfolding sample_open_def by (rule lazy_file_recoverable) simp

lemma sample_contract: "fs_contract (\<lambda>_. sample_bytes) sample_fs"
  unfolding sample_fs_def by (rule memory_fs_contract)

abbreviation typed_inside_tree :: PieceTree where
  "typed_inside_tree \<equiv> \<lparr>root = Internal 3 (Some 0)
       (Internal 1 (Some 0) (Leaf (Added 1) 0 1 (Some 0)) (Internal 1 (Some 0) (Leaf (Added 2) 0 1 (Some 0)) (Leaf (Added 1) 1 1 (Some 0)))) (Leaf (Stored 0) 4 2 None),
     pt_total_bytes = 5\<rparr>"

abbreviation inserted_tree :: PieceTree where
  "inserted_tree \<equiv> \<lparr>root = Internal 2 None (Leaf (Stored 0) 0 2 None)
       (Internal 1 (Some 0) (Leaf (Added 1) 0 1 (Some 0)) (Leaf (Stored 0) 2 4 None)),
     pt_total_bytes = 7\<rparr>"

abbreviation long_tree :: PieceTree where
  "long_tree \<equiv> \<lparr>root = Internal 1 (Some 0) (Leaf (Added 1) 0 1 (Some 0)) (Leaf (Stored 0) 0 (Suc LOAD_CHUNK_SIZE) None),
     pt_total_bytes = Suc (Suc LOAD_CHUNK_SIZE)\<rparr>"

abbreviation long_scan_tree :: PieceTree where
  "long_scan_tree \<equiv> \<lparr>root = Internal 1 (Some 0) (Leaf (Added 1) 0 1 (Some 0))
       (Internal LOAD_CHUNK_SIZE None (Leaf (Stored 0) 0 LOAD_CHUNK_SIZE None) (Leaf (Stored 0) LOAD_CHUNK_SIZE 1 None)),
     pt_total_bytes = Suc (Suc LOAD_CHUNK_SIZE)\<rparr>"

lemma sample_insert:
  "\<exists>tb c. insert_bytes sample_fs sample_open 2 [88] = Some (tb, c) \<and>
     piece_tree tb = inserted_tree \<and>
     buffers tb = [sample_file_buffer, sb_new 1 [88]]"
  by (simp add: sample_open_def sample_bytes_def insert_bytes_def try_append_to_existing_buffer_def sample_eval
      pt_find_by_offset_def push_buffer_def pt_insert_def sample_depths newline_def sample_file_buffer_def new_unloaded_def)

lemma sample_depth4: "ceil_log2 (Suc (Suc (Suc (Suc 0)))) = 2"
  by (simp add: ceil_log2.simps)

lemma sample_type_inside:
  assumes "piece_tree tb = loaded_tree"
    "buffers tb = [sample_file_buffer, sample_chunk []]" "next_buffer_id tb = 2"
    "original_file_size tb = Some 6" "\<not> fk_line_feeds_scanned (file_kind tb)"
  shows "\<exists>tb' c. insert_bytes sample_fs tb 1 [88] = Some (tb', c) \<and>
     piece_tree tb' = typed_inside_tree \<and>
     buffers tb' = [sample_file_buffer, sample_chunk [], sb_new 2 [88]] \<and> original_file_size tb' = Some 6"
  using assms
  by (simp add: insert_bytes_def try_append_to_existing_buffer_def pt_find_by_offset_def sample_eval push_buffer_def
      sample_chunk_def pt_insert_def sample_depths sample_depth4 newline_def index_range_def numeral_3_eq_3)

lemma sample_rebuild:
  assumes "piece_tree tb = typed_inside_tree"
    "buffers tb = [sample_file_buffer, sample_chunk [], sb_new 2 [88]]" "original_file_size tb = Some 6"
  shows "\<exists>tb'. rebuild_with_pristine_saved_root sample_fs tb [(3, 0)] = Some tb' \<and>
    tb_text (\<lambda>_. sample_bytes) tb' = [97, 88, 101, 102]"
  using assms
  by (simp add: rebuild_with_pristine_saved_root_def iter_pieces_in_range_def edits_of_pieces_def original_file_size_def
      sample_chunk_def sb_new_def whole_file_def split_leaves_to_chunk_size_def LOAD_CHUNK_SIZE_def get_leaves_def
      update_leaf_line_feeds_def pt_insert_def sample_eval sample_depths sample_file_buffer_def new_unloaded_def
      scan_leaf_def sample_fs_def memory_fs_def sample_bytes_def tb_text_def pt_text_def piece_text_def buffer_bytes_def)

text \<open>A file of one chunk and a byte more: the byte is its only line feed.\<close>

definition long_bytes :: "byte list" where
  "long_bytes = replicate LOAD_CHUNK_SIZE 97 @ [newline]"

definition long_fs :: "unit FileSystem" where
  "long_fs = memory_fs (\<lambda>_. long_bytes)"

definition long_open :: TextBuffer where
  "long_open = lazy_file ''f'' (Suc LOAD_CHUNK_SIZE) [] Utf8 False"

lemma chunk_size_pos: "0 < LOAD_CHUNK_SIZE" "Suc 0 < LOAD_CHUNK_SIZE" "\<not> LOAD_CHUNK_SIZE \<le> Suc 0"
  by (simp_all add: LOAD_CHUNK_SIZE_def)

lemma long_split:
  "split_leaf_loop LOAD_CHUNK_SIZE (LeafData_new (Stored 0) 0 (Suc LOAD_CHUNK_SIZE) lf) 0 =
     Some [LeafData_new (Stored 0) 0 LOAD_CHUNK_SIZE None, LeafData_new (Stored 0) LOAD_CHUNK_SIZE 1 None]"
  by (subst split_leaf_loop.simps, subst split_leaf_loop.simps, subst split_leaf_loop.simps)
    (simp add: chunk_size_pos Let_def min_def)

lemma long_type:
  "\<exists>tb c. insert_bytes long_fs long_open 0 [120] = Some (tb, c) \<and>
     piece_tree tb = long_tree \<and>
     buffers tb = [new_unloaded 0 ''f'' 0 (Suc LOAD_CHUNK_SIZE), sb_new 1 [120]] \<and>
     original_file_size tb = Some (Suc LOAD_CHUNK_SIZE)"
  by (simp add: long_open_def insert_bytes_def try_append_to_existing_buffer_def sample_eval push_buffer_def
      pt_insert_def sample_depths newline_def lazy_file_size)

lemma long_prepare:
  assumes "piece_tree tb = long_tree"
  shows "prepare_line_scan tb = Some (tb\<lparr>piece_tree :=
      long_scan_tree\<rparr>,
     [\<lparr>lsc_leaf_index = 0, lsc_byte_len = 1, lsc_already_known = True\<rparr>,
      \<lparr>lsc_leaf_index = 1, lsc_byte_len = LOAD_CHUNK_SIZE, lsc_already_known = False\<rparr>,
      \<lparr>lsc_leaf_index = 2, lsc_byte_len = 1, lsc_already_known = False\<rparr>], Suc (Suc LOAD_CHUNK_SIZE))"
  using assms chunk_size_pos
  by (simp add: prepare_line_scan_def split_leaves_to_chunk_size_def get_leaves_def long_split sample_eval)

lemma long_scan_counts:
  "count_nl (take LOAD_CHUNK_SIZE long_bytes) = 0" "count_nl (take 1 (drop LOAD_CHUNK_SIZE long_bytes)) = 1"
  "length long_bytes = Suc LOAD_CHUNK_SIZE" "count_nl long_bytes = 1"
  by (simp_all add: long_bytes_def newline_def count_nl_def)

lemma long_rebuild:
  assumes "piece_tree tb = long_scan_tree"
    "buffers tb = [new_unloaded 0 ''f'' 0 (Suc LOAD_CHUNK_SIZE), sb_new 1 [120]]"
    "original_file_size tb = Some (Suc LOAD_CHUNK_SIZE)"
  shows "\<exists>tb'. rebuild_with_pristine_saved_root long_fs tb [(1, 0), (2, 1)] = Some tb' \<and>
    line_count (piece_tree tb') = Some 1 \<and> tb_text (\<lambda>_. long_bytes) tb' = 120 # long_bytes"
  using assms chunk_size_pos
  by (simp add: rebuild_with_pristine_saved_root_def iter_pieces_in_range_def edits_of_pieces_def original_file_size_def
      sb_new_def whole_file_def split_leaves_to_chunk_size_def get_leaves_def long_split
      update_leaf_line_feeds_def pt_insert_def sample_eval sample_depths new_unloaded_def
      scan_leaf_def long_fs_def memory_fs_def long_scan_counts tb_text_def pt_text_def piece_text_def buffer_bytes_def line_count_def)

lemma long_scan:
  assumes "piece_tree tb = long_scan_tree"
    "buffers tb = [new_unloaded 0 ''f'' 0 (Suc LOAD_CHUNK_SIZE), sb_new 1 [120]]"
  shows "map (scan_leaf long_fs tb) (drop 1 (get_leaves (piece_tree tb))) = [Some (Inr 0), Some (Inr 1)]"
  using assms long_scan_counts
  by (simp add: get_leaves_def scan_leaf_def slice_get_def new_unloaded_def long_fs_def memory_fs_def Let_def)

subsection \<open>The properties\<close>

text \<open>
  C9: the rebuild after a line feed scan keeps the document. For a large file that was only edited, with
  its pieces in the order of the file and the counts of the scan belonging to the leaves they are recorded on,
  rebuilding never panics; the text is unchanged, the saved root becomes the content of the file, the
  invariant holds, and the buffer is marked as scanned.
\<close>

theorem rebuild_keeps_text:
  assumes "fs_contract f fs" and "recoverable f orig tb" and "in_file_order 0 (doc_pieces tb)"
    and "scan_fits f (buffers tb) (recorded_leaves tb (length orig)) updates"
  shows "\<exists>tb'. rebuild_with_pristine_saved_root fs tb updates = Some tb' \<and> tb_ok f tb' \<and>
    tb_text f tb' = tb_text f tb \<and> saved_text f tb' = orig \<and> fk_line_feeds_scanned (file_kind tb')"
proof -
  obtain ds ins where ed: "edits_of_pieces (buffers tb) (doc_pieces tb) (length orig) = (ds, ins)" by fastforce
  show ?thesis
  proof (cases "ds = [] \<and> ins = []")
    case True
    then show ?thesis
      using rebuild_unedited[OF assms(2,3)] ed assms(4) by (simp add: recorded_leaves_def get_leaves_def)
  next
    case False
    obtain split where sp: "split_leaves_to_chunk_size (whole_file (length orig)) LOAD_CHUNK_SIZE = Some split"
      by (rule split_whole_file[OF recoverable_facts(2)[OF assms(2)]])
    have "scan_fits f (buffers tb) (node_leaves (root split)) updates"
      using assms(4) ed False sp by (auto simp: recorded_leaves_def get_leaves_def)
    then show ?thesis by (rule rebuild_edited[OF assms(1-3) ed False sp])
  qed
qed

theorem rebuild_keeps_text_witness:
  "\<exists>tb c tb'. insert_bytes sample_fs sample_open 2 [88] = Some (tb, c) \<and>
     rebuild_with_pristine_saved_root sample_fs tb [(0, 0)] = Some tb' \<and>
     tb_text (\<lambda>_. sample_bytes) tb' = tb_text (\<lambda>_. sample_bytes) tb \<and>
     saved_text (\<lambda>_. sample_bytes) tb' = sample_bytes"
proof -
  obtain tb c where tb: "insert_bytes sample_fs sample_open 2 [88] = Some (tb, c)"
    "piece_tree tb = inserted_tree"
    "buffers tb = [sample_file_buffer, sb_new 1 [88]]"
    using sample_insert by blast
  have r: "recoverable (\<lambda>_. sample_bytes) sample_bytes tb"
    by (rule insert_recoverable[OF sample_contract sample_recoverable tb(1)])
  have o: "in_file_order 0 (doc_pieces tb)" using tb(2) by (simp add: iter_pieces_in_range_def)
  have l: "recorded_leaves tb (length sample_bytes) = [LeafData_new (Stored 0) 0 6 None]"
    using tb(2,3) by (simp add: recorded_leaves_def iter_pieces_in_range_def edits_of_pieces_def sample_bytes_def
        slice_get_def sb_new_def whole_file_def pt_new_def split_leaves_to_chunk_size_def get_leaves_def LOAD_CHUNK_SIZE_def)
  have s: "scan_fits (\<lambda>_. sample_bytes) (buffers tb) (recorded_leaves tb (length sample_bytes)) [(0, 0)]"
    unfolding l using tb(3) by (simp add: scan_fits_def ld_text_def piece_text_def slice_get_def sample_file_buffer_def new_unloaded_def
        buffer_bytes_def sample_bytes_def count_nl_def newline_def)
  show ?thesis using rebuild_keeps_text[OF sample_contract r o s] tb(1) by blast
qed

text \<open>
  C10: after an edit inside a chunk loaded for display the rebuild loses text. Of a file holding \<open>abcdef\<close>, \<open>cd\<close>
  is deleted, the piece before it is loaded for display and \<open>X\<close> is typed between its two bytes. The second
  half of the chunk is taken to start where the chunk starts in the file, so the byte \<open>b\<close> is taken to be
  deleted: the document held \<open>aXbef\<close> before the rebuild and holds \<open>aXef\<close> after it.
\<close>

theorem rebuild_loses_text:
  "\<exists>tb1 tb2 tb3 c tb4.
     delete_bytes sample_fs sample_open 2 2 = Some tb1 \<and>
     chunk_split_and_load sample_fs tb1 sample_view 0 = Some (tb2, Inr True) \<and>
     insert_bytes sample_fs tb2 1 [88] = Some (tb3, c) \<and>
     rebuild_with_pristine_saved_root sample_fs tb3 [(3, 0)] = Some tb4 \<and>
     tb_text (\<lambda>_. sample_bytes) tb3 = [97, 88, 98, 101, 102] \<and>
     tb_text (\<lambda>_. sample_bytes) tb4 = [97, 88, 101, 102]"
proof -
  obtain tb1 where tb1: "delete_bytes sample_fs sample_open 2 2 = Some tb1"
    "piece_tree tb1 = cut_tree"
    "buffers tb1 = [sample_file_buffer]" "next_buffer_id tb1 = 1" "original_file_size tb1 = Some 6"
    "\<not> fk_line_feeds_scanned (file_kind tb1)"
    using sample_delete by blast
  obtain tb2 where tb2: "chunk_split_and_load sample_fs tb1 sample_view 0 = Some (tb2, Inr True)"
    "piece_tree tb2 = loaded_tree"
    "buffers tb2 = [sample_file_buffer, sample_chunk []]" "next_buffer_id tb2 = 2"
    "original_file_size tb2 = Some 6" "\<not> fk_line_feeds_scanned (file_kind tb2)"
    using sample_load[OF tb1(2-6)] by blast
  obtain tb3 c where tb3: "insert_bytes sample_fs tb2 1 [88] = Some (tb3, c)"
    "piece_tree tb3 = typed_inside_tree"
    "buffers tb3 = [sample_file_buffer, sample_chunk [], sb_new 2 [88]]" "original_file_size tb3 = Some 6"
    using sample_type_inside[OF tb2(2-6)] by blast
  have "tb_text (\<lambda>_. sample_bytes) tb3 = [97, 88, 98, 101, 102]"
    using tb3(2,3) by (simp add: tb_text_def pt_text_def piece_text_def slice_get_def buffer_bytes_def sb_new_def
        sample_chunk_def sample_file_buffer_def new_unloaded_def sample_bytes_def)
  then show ?thesis using tb1(1) tb2(1) tb3(1) sample_rebuild[OF tb3(2-4)] by blast
qed

text \<open>
  C11: counts of a scan made after an edit are recorded on the wrong leaves. A file of one chunk and one byte
  more, its only line feed the last byte, has a byte typed at its start. The scan counts the leaves behind
  the typed one, and the rebuild records the counts by index on a tree that does not have that leaf: the
  document keeps its text with its one line feed, and is said to have one line.
\<close>

theorem scan_after_edit_miscounts:
  "\<exists>tb1 c tb2 chunks total tb3.
     insert_bytes long_fs long_open 0 [120] = Some (tb1, c) \<and>
     prepare_line_scan tb1 = Some (tb2, chunks, total) \<and>
     map lsc_already_known chunks = [True, False, False] \<and>
     map (scan_leaf long_fs tb2) (drop 1 (get_leaves (piece_tree tb2))) = [Some (Inr 0), Some (Inr 1)] \<and>
     rebuild_with_pristine_saved_root long_fs tb2 [(1, 0), (2, 1)] = Some tb3 \<and>
     tb_text (\<lambda>_. long_bytes) tb3 = 120 # long_bytes \<and> count_nl (120 # long_bytes) = 1 \<and>
     line_count (piece_tree tb3) = Some 1"
proof -
  obtain tb1 c where tb1: "insert_bytes long_fs long_open 0 [120] = Some (tb1, c)"
    "piece_tree tb1 = long_tree"
    "buffers tb1 = [new_unloaded 0 ''f'' 0 (Suc LOAD_CHUNK_SIZE), sb_new 1 [120]]"
    "original_file_size tb1 = Some (Suc LOAD_CHUNK_SIZE)"
    using long_type by blast
  define tb2 where "tb2 = tb1\<lparr>piece_tree :=
      long_scan_tree\<rparr>"
  have tb2: "piece_tree tb2 = long_scan_tree"
    "buffers tb2 = [new_unloaded 0 ''f'' 0 (Suc LOAD_CHUNK_SIZE), sb_new 1 [120]]"
    "original_file_size tb2 = Some (Suc LOAD_CHUNK_SIZE)"
    using tb1(3,4) by (simp_all add: tb2_def)
  have "count_nl (120 # long_bytes) = 1" using long_scan_counts(4) by (simp add: count_nl_def newline_def)
  then show ?thesis
    using tb1(1) long_prepare[OF tb1(2), folded tb2_def] long_scan[OF tb2(1,2)] long_rebuild[OF tb2] by auto
qed

end
