(* ===== verification/Marker_Tree.thy ===== *)
theory Marker_Tree
  imports Prelude "HOL-Library.Product_Lexorder" "HOL-Library.Multiset"
begin

text \<open>
  The tree of markers (\<open>model/marker_tree.rs\<close>): an AVL tree in position order whose nodes carry a
  pending shift (\<open>lazy_delta\<close>) for their whole subtree, a subtree size and a maximal end.

  The code links nodes by reference counted cells: children are owned, the parent is a weak link and
  \<open>marker_map\<close> gives the cell of a marker id. Here the tree is a value; the walks up along parent
  links are recursions down the path to the node that holds the id, which is what the map and the
  links denote. An operation that replaces cells in place returns the new tree, also \<open>query\<close>, which
  resolves pending shifts on its way.

  Positions are \<open>u64\<close> and shifts \<open>i64\<close>; both are bounded by document sizes and are integers here. That
  no position becomes negative, so that the casts of the code lose nothing, is part of the
  invariant below. An \<open>unwrap\<close> on a missing child is \<open>None\<close>.
\<close>

subsection \<open>Markers and nodes\<close>

datatype MarkerType = Position_Marker

record Marker =
  m_id :: nat
  m_start :: int
  m_end :: int
  m_type :: MarkerType
  right_gravity :: bool
  m_order :: int

datatype MarkerNode =
  Tip
| Node (n_left: MarkerNode) (n_marker: Marker) (n_height: int) (n_max_end: int) (n_size: nat)
    (n_lazy: int) (n_right: MarkerNode)

record IntervalTree =
  it_root :: MarkerNode
  it_next_id :: nat

definition node_new :: "Marker \<Rightarrow> MarkerNode" where
  "node_new m = Node Tip m 1 (m_end m) 1 0 Tip"

fun node_size :: "MarkerNode \<Rightarrow> nat" where
  "node_size Tip = 0"
| "node_size (Node _ _ _ _ s _ _) = s"

fun node_height :: "MarkerNode \<Rightarrow> int" where
  "node_height Tip = 0"
| "node_height (Node _ _ h _ _ _ _) = h"

fun max_end_or_0 :: "MarkerNode \<Rightarrow> int" where
  "max_end_or_0 Tip = 0"
| "max_end_or_0 (Node _ _ _ e _ _ _) = e"

definition marker_key :: "Marker \<Rightarrow> int \<times> int \<times> nat" where
  "marker_key m = (m_start m, m_order m, m_id m)"

definition balance_factor :: "MarkerNode \<Rightarrow> int" where
  "balance_factor t = (case t of Tip \<Rightarrow> 0 | Node l _ _ _ _ _ r \<Rightarrow> node_height l - node_height r)"

text \<open>\<open>resolved\<close>: a marker with a pending shift applied.\<close>

definition resolved :: "Marker \<Rightarrow> int \<Rightarrow> Marker" where
  "resolved m delta = m\<lparr>m_start := m_start m + delta, m_end := m_end m + delta\<rparr>"

fun add_lazy :: "int \<Rightarrow> MarkerNode \<Rightarrow> MarkerNode" where
  "add_lazy delta Tip = Tip"
| "add_lazy delta (Node l m h e s z r) = Node l m h e s (z + delta) r"

fun push_delta :: "MarkerNode \<Rightarrow> MarkerNode" where
  "push_delta Tip = Tip"
| "push_delta (Node l m h e s z r) =
     (if z = 0 then Node l m h e s z r
      else
        (let m' = resolved m z; l' = add_lazy z l; r' = add_lazy z r
         in Node l' m' h (max (m_end m') (max (max_end_or_0 l') (max_end_or_0 r'))) s 0 r'))"

fun update_stats :: "MarkerNode \<Rightarrow> MarkerNode" where
  "update_stats Tip = Tip"
| "update_stats (Node l m h e s z r) =
     Node l m (1 + max (node_height l) (node_height r))
       (max (m_end m) (max (max_end_or_0 l) (max_end_or_0 r)))
       (1 + node_size l + node_size r) z r"

subsection \<open>Balancing\<close>

definition rotate_left :: "MarkerNode \<Rightarrow> MarkerNode option" where
  "rotate_left t =
     (case push_delta t of
        Tip \<Rightarrow> None
      | Node l m h e s z r \<Rightarrow>
          (case push_delta r of
             Tip \<Rightarrow> None
           | Node xl xm xh xe xs xz xr \<Rightarrow>
               Some (update_stats (Node (update_stats (Node l m h e s z xl)) xm xh xe xs xz xr))))"

definition rotate_right :: "MarkerNode \<Rightarrow> MarkerNode option" where
  "rotate_right t =
     (case push_delta t of
        Tip \<Rightarrow> None
      | Node l m h e s z r \<Rightarrow>
          (case push_delta l of
             Tip \<Rightarrow> None
           | Node xl xm xh xe xs xz xr \<Rightarrow>
               Some (update_stats (Node xl xm xh xe xs xz (update_stats (Node xr m h e s z r))))))"

definition balance :: "MarkerNode \<Rightarrow> MarkerNode option" where
  "balance t =
     (case t of
        Tip \<Rightarrow> Some Tip
      | Node l m h e s z r \<Rightarrow>
          if balance_factor t > 1 then
            (if l = Tip then None
             else do {
               l' \<leftarrow> (if balance_factor l < 0 then rotate_left l else Some l);
               rotate_right (Node l' m h e s z r)
             })
          else if balance_factor t < - 1 then
            (if r = Tip then None
             else do {
               r' \<leftarrow> (if balance_factor r > 0 then rotate_right r else Some r);
               rotate_left (Node l m h e s z r')
             })
          else Some t)"

subsection \<open>Insertion\<close>

fun count_nodes :: "MarkerNode \<Rightarrow> nat" where
  "count_nodes Tip = 0"
| "count_nodes (Node l _ _ _ _ _ r) = Suc (count_nodes l + count_nodes r)"

lemma count_nodes_add_lazy [simp]: "count_nodes (add_lazy z t) = count_nodes t"
  by (cases t) auto

lemma push_delta_Node:
  "push_delta (Node l m h e s z r) = Node l' m' h' e' s' z' r' \<Longrightarrow>
     count_nodes l' = count_nodes l \<and> count_nodes r' = count_nodes r"
  by (auto simp: Let_def split: if_splits)

function insert_recursive :: "MarkerNode \<Rightarrow> Marker \<Rightarrow> MarkerNode option" where
  "insert_recursive root new =
     (case push_delta root of
        Tip \<Rightarrow> Some (node_new new)
      | Node l m h e s z r \<Rightarrow>
          if marker_key new < marker_key m then do {
            l' \<leftarrow> insert_recursive l new;
            balance (update_stats (Node l' m h e s z r))
          }
          else do {
            r' \<leftarrow> insert_recursive r new;
            balance (update_stats (Node l m h e s z r'))
          })"
  by pat_completeness auto
termination
proof (relation "measure (\<lambda>(t, _). count_nodes t)", goal_cases)
  case (2 root new l m h e s z r)
  then show ?case by (cases root) (auto dest: push_delta_Node[OF sym] split: if_splits simp: Let_def)
next
  case (3 root new l m h e s z r)
  then show ?case by (cases root) (auto split: if_splits simp: Let_def)
qed simp

declare insert_recursive.simps [simp del]

definition insert_full :: "IntervalTree \<Rightarrow> int \<Rightarrow> int \<Rightarrow> MarkerType \<Rightarrow> bool \<Rightarrow> int \<Rightarrow> (IntervalTree \<times> nat) option" where
  "insert_full tr start fin ty gravity order = do {
     let i = it_next_id tr;
     let m = \<lparr>m_id = i, m_start = start, m_end = fin, m_type = ty, right_gravity = gravity, m_order = order\<rparr>;
     root' \<leftarrow> insert_recursive (it_root tr) m;
     Some (\<lparr>it_root = root', it_next_id = i + 1\<rparr>, i)
   }"

definition it_new :: IntervalTree where
  "it_new = \<lparr>it_root = Tip, it_next_id = 0\<rparr>"

definition it_insert :: "IntervalTree \<Rightarrow> int \<Rightarrow> int \<Rightarrow> (IntervalTree \<times> nat) option" where
  "it_insert tr start fin = insert_full tr start fin Position_Marker True 0"

definition insert_left_gravity :: "IntervalTree \<Rightarrow> int \<Rightarrow> int \<Rightarrow> (IntervalTree \<times> nat) option" where
  "insert_left_gravity tr start fin = insert_full tr start fin Position_Marker False 0"

definition insert_ordered :: "IntervalTree \<Rightarrow> int \<Rightarrow> int \<Rightarrow> int \<Rightarrow> bool \<Rightarrow> (IntervalTree \<times> nat) option" where
  "insert_ordered tr start fin order gravity = insert_full tr start fin Position_Marker gravity order"

text \<open>Whether a node of the tree holds the id, that is, whether \<open>marker_map\<close> contains it.\<close>

fun has_id :: "MarkerNode \<Rightarrow> nat \<Rightarrow> bool" where
  "has_id Tip i \<longleftrightarrow> False"
| "has_id (Node l m _ _ _ _ r) i \<longleftrightarrow> m_id m = i \<or> has_id l i \<or> has_id r i"

text \<open>The two \<open>debug_assert\<close>s of \<open>insert_with_id\<close> are panics.\<close>

definition tree_insert_with_id ::
  "IntervalTree \<Rightarrow> nat \<Rightarrow> int \<Rightarrow> int \<Rightarrow> MarkerType \<Rightarrow> bool \<Rightarrow> int \<Rightarrow> IntervalTree option" where
  "tree_insert_with_id tr i start fin ty gravity order =
     (if i < it_next_id tr \<and> \<not> has_id (it_root tr) i
      then map_option (\<lambda>root'. tr\<lparr>it_root := root'\<rparr>)
             (insert_recursive (it_root tr)
                \<lparr>m_id = i, m_start = start, m_end = fin, m_type = ty, right_gravity = gravity, m_order = order\<rparr>)
      else None)"

subsection \<open>Lookup by id\<close>

text \<open>\<open>get_position\<close> adds up the pending shifts from the node to the root.\<close>

fun find_marker :: "MarkerNode \<Rightarrow> int \<Rightarrow> nat \<Rightarrow> (Marker \<times> int) option" where
  "find_marker Tip acc i = None"
| "find_marker (Node l m _ _ _ z r) acc i =
     (if m_id m = i then Some (m, acc + z)
      else (case find_marker l (acc + z) i of
              Some x \<Rightarrow> Some x
            | None \<Rightarrow> find_marker r (acc + z) i))"

definition get_position :: "IntervalTree \<Rightarrow> nat \<Rightarrow> (int \<times> int) option" where
  "get_position tr i =
     map_option (\<lambda>(raw, delta). (m_start raw + delta, m_end raw + delta)) (find_marker (it_root tr) 0 i)"

definition get_marker :: "IntervalTree \<Rightarrow> nat \<Rightarrow> Marker option" where
  "get_marker tr i = map_option fst (find_marker (it_root tr) 0 i)"

subsection \<open>Deletion\<close>

text \<open>
  Taking the leftmost node of a subtree out: the walk of \<open>min_node\<close>, the splice of its right child, and
  the part of \<open>rebalance_upward\<close> inside the subtree.
\<close>

function remove_min :: "MarkerNode \<Rightarrow> (Marker \<times> MarkerNode) option" where
  "remove_min t =
     (case push_delta t of
        Tip \<Rightarrow> None
      | Node l m h e s z r \<Rightarrow>
          if l = Tip then Some (m, r)
          else do {
            (succ, l') \<leftarrow> remove_min l;
            t' \<leftarrow> balance (update_stats (Node l' m h e s z r));
            Some (succ, t')
          })"
  by pat_completeness auto
termination
proof (relation "measure count_nodes", goal_cases)
  case (2 t l m h e s z r)
  then show ?case by (cases t) (auto split: if_splits simp: Let_def)
qed simp

declare remove_min.simps [simp del]

text \<open>
  The path from the root to the node with the id: \<open>push_to_node\<close> on the way down, the splice at the node
  (with two children the successor's marker moves into it), \<open>rebalance_upward\<close> on the way back.
\<close>

function remove_node :: "MarkerNode \<Rightarrow> nat \<Rightarrow> MarkerNode option" where
  "remove_node t i =
     (case push_delta t of
        Tip \<Rightarrow> None
      | Node l m h e s z r \<Rightarrow>
          if m_id m = i then
            (if l \<noteq> Tip \<and> r \<noteq> Tip then do {
               (succ, r') \<leftarrow> remove_min r;
               balance (update_stats (Node l succ h e s z r'))
             }
             else Some (if l \<noteq> Tip then l else r))
          else if has_id l i then do {
            l' \<leftarrow> remove_node l i;
            balance (update_stats (Node l' m h e s z r))
          }
          else do {
            r' \<leftarrow> remove_node r i;
            balance (update_stats (Node l m h e s z r'))
          })"
  by pat_completeness auto
termination
proof (relation "measure (\<lambda>(t, _). count_nodes t)", goal_cases)
  case (2 t i l m h e s z r)
  then show ?case by (cases t) (auto split: if_splits simp: Let_def)
next
  case (3 t i l m h e s z r)
  then show ?case by (cases t) (auto split: if_splits simp: Let_def)
qed simp

declare remove_node.simps [simp del]

definition it_delete :: "IntervalTree \<Rightarrow> nat \<Rightarrow> (IntervalTree \<times> bool) option" where
  "it_delete tr i =
     (if has_id (it_root tr) i
      then map_option (\<lambda>root'. (tr\<lparr>it_root := root'\<rparr>, True)) (remove_node (it_root tr) i)
      else Some (tr, False))"

definition set_position :: "IntervalTree \<Rightarrow> nat \<Rightarrow> int \<Rightarrow> int \<Rightarrow> (IntervalTree \<times> bool) option" where
  "set_position tr i new_start new_end =
     (case get_marker tr i of
        None \<Rightarrow> Some (tr, False)
      | Some m \<Rightarrow> do {
          (tr1, deleted) \<leftarrow> it_delete tr i;
          if \<not> deleted then Some (tr1, False)
          else do {
            tr2 \<leftarrow> tree_insert_with_id tr1 i new_start new_end (m_type m) (right_gravity m) (m_order m);
            Some (tr2, True)
          }
        })"

subsection \<open>Adjusting for an edit\<close>

function adjust_recursive :: "MarkerNode \<Rightarrow> int \<Rightarrow> int \<Rightarrow> MarkerNode" where
  "adjust_recursive t pos delta =
     (case push_delta t of
        Tip \<Rightarrow> Tip
      | Node l m h e s z r \<Rightarrow>
          (let start = m_start m;
               left_gravity = (\<not> right_gravity m);
               stay_put = (left_gravity \<and> delta > 0 \<and> pos = start);
               start' = (if pos \<le> start \<and> \<not> stay_put
                         then (if delta < 0 then max (start + delta) pos else start + delta) else start);
               r' = (if pos \<le> start \<and> \<not> (delta < 0 \<or> pos = start) then add_lazy delta r
                     else adjust_recursive r pos delta);
               l' = (if pos \<le> start then adjust_recursive l pos delta else l);
               fin = m_end m;
               shift_end = (if left_gravity \<and> delta > 0 then fin > pos else fin \<ge> pos);
               fin' = (if shift_end then max (fin + delta) start' else fin)
           in update_stats (Node l' (m\<lparr>m_start := start', m_end := fin'\<rparr>) h e s z r')))"
  by pat_completeness auto
termination
proof (relation "measure (\<lambda>(t, _). count_nodes t)", goal_cases)
  case (2 t pos delta l m h e s z r)
  then show ?case by (cases t) (auto split: if_splits simp: Let_def)
next
  case (3 t pos delta l m h e s z r)
  then show ?case by (cases t) (auto split: if_splits simp: Let_def)
qed simp

declare adjust_recursive.simps [simp del]

text \<open>\<open>collect_starts_at\<close>: the markers that start at a position, with their resolved ends.\<close>

fun collect_starts_at :: "MarkerNode \<Rightarrow> int \<Rightarrow> int \<Rightarrow> Marker list" where
  "collect_starts_at Tip acc pos = []"
| "collect_starts_at (Node l m _ _ _ z r) acc pos =
     (let d = acc + z; start = m_start m + d in
      if pos < start then collect_starts_at l d pos
      else if pos > start then collect_starts_at r d pos
      else resolved m d # collect_starts_at l d pos @ collect_starts_at r d pos)"

fun delete_all :: "IntervalTree \<Rightarrow> Marker list \<Rightarrow> IntervalTree option" where
  "delete_all tr [] = Some tr"
| "delete_all tr (m # ms) = do { (tr1, _) \<leftarrow> it_delete tr (m_id m); delete_all tr1 ms }"

fun reinsert_all :: "IntervalTree \<Rightarrow> int \<Rightarrow> int \<Rightarrow> Marker list \<Rightarrow> IntervalTree option" where
  "reinsert_all tr pos delta [] = Some tr"
| "reinsert_all tr pos delta (m # ms) = do {
     let new_end = (if m_end m > pos then m_end m + delta else m_end m);
     tr1 \<leftarrow> tree_insert_with_id tr (m_id m) pos new_end (m_type m) False (m_order m);
     reinsert_all tr1 pos delta ms
   }"

definition adjust_for_edit :: "IntervalTree \<Rightarrow> int \<Rightarrow> int \<Rightarrow> IntervalTree option" where
  "adjust_for_edit tr pos delta =
     (let at_pos = (if delta > 0 then collect_starts_at (it_root tr) 0 pos else []);
          has_mover = list_ex right_gravity at_pos;
          stayers = filter (\<lambda>m. \<not> right_gravity m) at_pos in
      if delta > 0 \<and> has_mover \<and> stayers \<noteq> [] then do {
        tr1 \<leftarrow> delete_all tr stayers;
        reinsert_all (tr1\<lparr>it_root := adjust_recursive (it_root tr1) pos delta\<rparr>) pos delta stayers
      }
      else Some (tr\<lparr>it_root := adjust_recursive (it_root tr) pos delta\<rparr>))"

subsection \<open>Building and bulk operations\<close>

fun collect_nodes_in_order :: "MarkerNode \<Rightarrow> int \<Rightarrow> Marker list" where
  "collect_nodes_in_order Tip acc = []"
| "collect_nodes_in_order (Node l m _ _ _ z r) acc =
     collect_nodes_in_order l (acc + z) @ resolved m (acc + z) # collect_nodes_in_order r (acc + z)"

lemma half_less: "xs \<noteq> [] \<Longrightarrow> length xs div 2 < length xs"
  by (cases xs) auto

function build_from_sorted :: "Marker list \<Rightarrow> MarkerNode" where
  "build_from_sorted nodes =
     (if nodes = [] then Tip
      else
        (let mid = length nodes div 2;
             l = build_from_sorted (take mid nodes);
             r = build_from_sorted (drop (mid + 1) nodes)
         in update_stats (Node l (nodes ! mid) 1 (m_end (nodes ! mid)) 1 0 r)))"
  by pat_completeness auto
termination
  by (relation "measure length") (use half_less in \<open>fastforce simp: min_def\<close>)+

declare build_from_sorted.simps [simp del]

definition BULK_INSERT_MIN :: nat where
  "BULK_INSERT_MIN = 64"

definition BULK_INSERT_MAX_EXISTING_RATIO :: nat where
  "BULK_INSERT_MAX_EXISTING_RATIO = 4"

fun insert_each :: "IntervalTree \<Rightarrow> (int \<times> int) list \<Rightarrow> (IntervalTree \<times> nat list) option" where
  "insert_each tr [] = Some (tr, [])"
| "insert_each tr ((start, fin) # ivs) = do {
     (tr1, i) \<leftarrow> it_insert tr start fin;
     (tr2, ids) \<leftarrow> insert_each tr1 ivs;
     Some (tr2, i # ids)
   }"

fun number_markers :: "nat \<Rightarrow> (int \<times> int) list \<Rightarrow> Marker list" where
  "number_markers i [] = []"
| "number_markers i ((start, fin) # ivs) =
     \<lparr>m_id = i, m_start = start, m_end = fin, m_type = Position_Marker, right_gravity = True, m_order = 0\<rparr>
       # number_markers (i + 1) ivs"

definition insert_many :: "IntervalTree \<Rightarrow> (int \<times> int) list \<Rightarrow> (IntervalTree \<times> nat list) option" where
  "insert_many tr intervals =
     (if intervals = [] then Some (tr, [])
      else if length intervals < BULK_INSERT_MIN \<or>
              count_nodes (it_root tr) > length intervals * BULK_INSERT_MAX_EXISTING_RATIO
      then insert_each tr intervals
      else
        (let new = number_markers (it_next_id tr) intervals;
             nodes = sort_key marker_key (collect_nodes_in_order (it_root tr) 0 @ new)
         in Some (\<lparr>it_root = build_from_sorted nodes, it_next_id = it_next_id tr + length intervals\<rparr>,
                  map m_id new)))"

fun prefix_sums :: "int \<Rightarrow> (int \<times> int) list \<Rightarrow> int list" where
  "prefix_sums running [] = []"
| "prefix_sums running ((_, delta) # es) = running # prefix_sums (running + delta) es"

definition map_coord :: "int \<Rightarrow> bool \<Rightarrow> (int \<times> int) list \<Rightarrow> int list \<Rightarrow> int" where
  "map_coord coord left_gravity edits prefix =
     (let idx = partition_point (\<lambda>(pos, _). pos \<le> coord) edits in
      if idx = 0 then coord
      else
        (case edits ! (idx - 1) of (pos, delta) \<Rightarrow>
           let base = (if delta > 0 then (if left_gravity \<and> coord = pos then coord else coord + delta)
                       else max (coord + delta) pos)
           in max (base + prefix ! (idx - 1)) 0))"

text \<open>The edits strictly inside an interval move its end only, the last one first.\<close>

fun shift_inner :: "bool \<Rightarrow> int \<Rightarrow> (int \<times> int) list \<Rightarrow> int \<Rightarrow> int" where
  "shift_inner left_gravity old_start [] fin = fin"
| "shift_inner left_gravity old_start ((pos, delta) # es) fin =
     shift_inner left_gravity old_start es
       (if (if left_gravity \<and> delta > 0 then fin > pos else fin \<ge> pos)
        then max (fin + delta) old_start else fin)"

definition bulk_adjust_marker :: "(int \<times> int) list \<Rightarrow> int list \<Rightarrow> Marker \<Rightarrow> Marker" where
  "bulk_adjust_marker ordered prefix m =
     (let left_gravity = (\<not> right_gravity m);
          old_start = m_start m;
          old_end = max (m_end m) (m_start m);
          governing = partition_point (\<lambda>(pos, _). pos \<le> old_start) ordered;
          inside_end = partition_point (\<lambda>(pos, _). pos \<le> old_end) ordered;
          fin = shift_inner left_gravity old_start
                  (rev (take (inside_end - governing) (drop governing ordered))) old_end;
          head = take governing ordered;
          head_prefix = take governing prefix;
          start = map_coord old_start left_gravity head head_prefix
      in m\<lparr>m_start := start,
           m_end := max (map_coord (max fin 0) left_gravity head head_prefix) start\<rparr>)"

text \<open>The \<open>debug_assert\<close> on repeated positions is a panic.\<close>

definition adjust_for_bulk_edits :: "IntervalTree \<Rightarrow> (int \<times> int) list \<Rightarrow> IntervalTree option" where
  "adjust_for_bulk_edits tr edits =
     (let ordered = sort_key fst (filter (\<lambda>(_, d). d \<noteq> 0) edits);
          prefix = prefix_sums 0 ordered;
          nodes = map (bulk_adjust_marker ordered prefix) (collect_nodes_in_order (it_root tr) 0) in
      if it_root tr = Tip \<or> ordered = [] then Some tr
      else if \<not> distinct (map fst ordered) then None
      else Some (tr\<lparr>it_root := build_from_sorted (sort_key marker_key nodes)\<rparr>))"

subsection \<open>Queries\<close>

function query_recursive :: "MarkerNode \<Rightarrow> int \<Rightarrow> int \<Rightarrow> Marker list \<times> MarkerNode" where
  "query_recursive t query_start query_end =
     (case push_delta t of
        Tip \<Rightarrow> ([], Tip)
      | Node l m h e s z r \<Rightarrow>
          (let own = (if m_start m \<le> query_end \<and> m_end m \<ge> query_start then [m] else []);
               (ls, l') = (if l \<noteq> Tip \<and> max_end_or_0 l \<ge> query_start
                           then query_recursive l query_start query_end else ([], l));
               (rs, r') = (if r \<noteq> Tip \<and> m_start m \<le> query_end
                           then query_recursive r query_start query_end else ([], r))
           in (own @ ls @ rs, Node l' m h e s z r')))"
  by pat_completeness auto
termination
proof (relation "measure (\<lambda>(t, _). count_nodes t)", goal_cases)
  case (2 t qs qe l m h e s z r)
  then show ?case by (cases t) (auto split: if_splits simp: Let_def)
next
  case (3 t qs qe l m h e s z r)
  then show ?case by (cases t) (auto split: if_splits simp: Let_def)
qed simp

declare query_recursive.simps [simp del]

definition query :: "IntervalTree \<Rightarrow> int \<Rightarrow> int \<Rightarrow> Marker list \<times> IntervalTree" where
  "query tr query_start query_end =
     (case query_recursive (it_root tr) query_start query_end of (ms, t) \<Rightarrow> (ms, tr\<lparr>it_root := t\<rparr>))"

definition it_len :: "IntervalTree \<Rightarrow> nat" where
  "it_len tr = node_size (it_root tr)"

definition it_is_empty :: "IntervalTree \<Rightarrow> bool" where
  "it_is_empty tr \<longleftrightarrow> it_root tr = Tip"

fun count_before_from :: "MarkerNode \<Rightarrow> int \<Rightarrow> int \<Rightarrow> nat \<Rightarrow> nat" where
  "count_before_from Tip delta pos cnt = cnt"
| "count_before_from (Node l m _ _ _ z r) delta pos cnt =
     (if m_start m + (delta + z) < pos then count_before_from r (delta + z) pos (cnt + (node_size l + 1))
      else count_before_from l (delta + z) pos cnt)"

definition count_before :: "IntervalTree \<Rightarrow> int \<Rightarrow> nat" where
  "count_before tr pos = count_before_from (it_root tr) 0 pos 0"

fun nth_from :: "MarkerNode \<Rightarrow> int \<Rightarrow> nat \<Rightarrow> Marker option" where
  "nth_from Tip delta k = None"
| "nth_from (Node l m _ _ _ z r) delta k =
     (if k < node_size l then nth_from l (delta + z) k
      else if k = node_size l then Some (resolved m (delta + z))
      else nth_from r (delta + z) (k - (node_size l + 1)))"

definition it_nth :: "IntervalTree \<Rightarrow> nat \<Rightarrow> Marker option" where
  "it_nth tr k = nth_from (it_root tr) 0 k"

fun in_range_recursive :: "MarkerNode \<Rightarrow> int \<Rightarrow> int \<Rightarrow> int \<Rightarrow> Marker list" where
  "in_range_recursive Tip acc lo hi = []"
| "in_range_recursive (Node l m _ _ _ z r) acc lo hi =
     (let delta = acc + z; start = m_start m + delta in
      (if start \<ge> lo then in_range_recursive l delta lo hi else []) @
      (if start \<ge> lo \<and> start < hi then [resolved m delta] else []) @
      (if start < hi then in_range_recursive r delta lo hi else []))"

definition in_range :: "IntervalTree \<Rightarrow> int \<Rightarrow> int \<Rightarrow> Marker list" where
  "in_range tr start fin = (if start < fin then in_range_recursive (it_root tr) 0 start fin else [])"

subsection \<open>The markers of a tree\<close>

text \<open>
  The abstraction of a tree is the list of its markers in order, with all pending shifts applied:
  \<open>markers\<close>. Pushing shifts down, refreshing statistics and rotating keep it.
\<close>

abbreviation markers :: "MarkerNode \<Rightarrow> Marker list" where
  "markers t \<equiv> collect_nodes_in_order t 0"

lemma resolved_resolved [simp]: "resolved (resolved m a) b = resolved m (a + b)"
  by (simp add: resolved_def)

lemma resolved_0 [simp]: "resolved m 0 = m"
  by (simp add: resolved_def)

lemma resolved_simps [simp]:
  "m_id (resolved m d) = m_id m" "m_start (resolved m d) = m_start m + d" "m_end (resolved m d) = m_end m + d"
  "right_gravity (resolved m d) = right_gravity m" "m_order (resolved m d) = m_order m"
  "m_type (resolved m d) = m_type m"
  by (simp_all add: resolved_def)

lemma add_lazy_simps [simp]:
  "add_lazy 0 t = t" "node_height (add_lazy z t) = node_height t" "node_size (add_lazy z t) = node_size t"
  "max_end_or_0 (add_lazy z t) = max_end_or_0 t" "add_lazy z t = Tip \<longleftrightarrow> t = Tip"
  by (cases t; simp)+

lemma collect_add_lazy [simp]: "collect_nodes_in_order (add_lazy z t) d = collect_nodes_in_order t (d + z)"
  by (cases t) (simp_all add: ac_simps)

definition pushed_max :: "MarkerNode \<Rightarrow> Marker \<Rightarrow> int \<Rightarrow> int \<Rightarrow> MarkerNode \<Rightarrow> int" where
  "pushed_max l m e z r =
     (if z = 0 then e else max (m_end m + z) (max (max_end_or_0 l) (max_end_or_0 r)))"

lemma push_delta_eq:
  "push_delta (Node l m h e s z r) =
     Node (add_lazy z l) (resolved m z) h (pushed_max l m e z r) s 0 (add_lazy z r)"
  by (simp add: pushed_max_def Let_def)

declare push_delta.simps(2) [simp del]
declare push_delta_eq [simp]

lemma collect_update_stats [simp]:
  "collect_nodes_in_order (update_stats t) d = collect_nodes_in_order t d"
  by (cases t) simp_all

lemma collect_shift: "collect_nodes_in_order t d = map (\<lambda>m. resolved m d) (markers t)"
proof (induction t arbitrary: d)
  case (Node l m h e s z r)
  show ?case using Node[of "d + z"] Node[of z] by (simp add: ac_simps)
qed simp

lemma has_id_markers: "has_id t i \<longleftrightarrow> i \<in> m_id ` set (collect_nodes_in_order t d)"
  by (induction t arbitrary: d) auto

lemma count_nodes_length: "count_nodes t = length (collect_nodes_in_order t d)"
  by (induction t arbitrary: d) auto

subsection \<open>Balance\<close>

text \<open>
  The shape invariant: cached heights and sizes are right, siblings differ in height by at most
  one, and pending shifts are not negative (only insertions are deferred).
\<close>

fun tree_ok :: "MarkerNode \<Rightarrow> bool" where
  "tree_ok Tip \<longleftrightarrow> True"
| "tree_ok (Node l m h e s z r) \<longleftrightarrow>
     h = 1 + max (node_height l) (node_height r) \<and> s = 1 + node_size l + node_size r \<and>
     \<bar>node_height l - node_height r\<bar> \<le> 1 \<and> 0 \<le> z \<and> tree_ok l \<and> tree_ok r"

lemma tree_ok_add_lazy [simp]: "0 \<le> z \<Longrightarrow> tree_ok t \<Longrightarrow> tree_ok (add_lazy z t)"
  by (cases t) auto

lemma tree_ok_height: "tree_ok t \<Longrightarrow> 0 \<le> node_height t"
  "tree_ok t \<Longrightarrow> node_height t = 0 \<longleftrightarrow> t = Tip"
  by (induction t) auto

lemma tree_ok_size: "tree_ok t \<Longrightarrow> node_size t = count_nodes t"
  by (induction t) auto

lemma rotate_right_eq:
  "rotate_right (Node (Node a x xh xe xs xz b) m h e s z r) =
     Some (update_stats (Node (add_lazy (xz + z) a) (resolved x (xz + z)) xh (pushed_max a x xe (xz + z) b) xs 0
       (update_stats (Node (add_lazy (xz + z) b) (resolved m z) h (pushed_max (Node a x xh xe xs xz b) m e z r) s 0
         (add_lazy z r)))))"
  by (simp add: rotate_right_def)

lemma rotate_left_eq:
  "rotate_left (Node l m h e s z (Node b x xh xe xs xz c)) =
     Some (update_stats (Node
       (update_stats (Node (add_lazy z l) (resolved m z) h (pushed_max l m e z (Node b x xh xe xs xz c)) s 0
         (add_lazy (xz + z) b)))
       (resolved x (xz + z)) xh (pushed_max b x xe (xz + z) c) xs 0 (add_lazy (xz + z) c)))"
  by (simp add: rotate_left_def)

lemma rotate_right_shape:
  assumes "tree_ok a" "tree_ok b" "tree_ok r" "0 \<le> z" "0 \<le> xz" "\<bar>node_height b - node_height r\<bar> \<le> 1"
  shows "\<exists>a' y yh ye ys c'. rotate_right (Node (Node a x xh xe xs xz b) m h e s z r) = Some (Node a' y yh ye ys 0 c') \<and>
     tree_ok a' \<and> tree_ok c' \<and> node_height a' = node_height a \<and>
     node_height c' = 1 + max (node_height b) (node_height r) \<and>
     yh = 1 + max (node_height a') (node_height c') \<and> ys = 1 + node_size a' + node_size c' \<and>
     markers (Node a' y yh ye ys 0 c') = markers (Node (Node a x xh xe xs xz b) m h e s z r)"
  unfolding rotate_right_eq update_stats.simps
  by (intro exI, intro conjI, rule refl) (use assms in \<open>simp_all add: add.commute\<close>)

lemma rotate_left_shape:
  assumes "tree_ok l" "tree_ok b" "tree_ok c" "0 \<le> z" "0 \<le> xz" "\<bar>node_height l - node_height b\<bar> \<le> 1"
  shows "\<exists>a' y yh ye ys c'. rotate_left (Node l m h e s z (Node b x xh xe xs xz c)) = Some (Node a' y yh ye ys 0 c') \<and>
     tree_ok a' \<and> tree_ok c' \<and> node_height c' = node_height c \<and>
     node_height a' = 1 + max (node_height l) (node_height b) \<and>
     yh = 1 + max (node_height a') (node_height c') \<and> ys = 1 + node_size a' + node_size c' \<and>
     markers (Node a' y yh ye ys 0 c') = markers (Node l m h e s z (Node b x xh xe xs xz c))"
  unfolding rotate_left_eq update_stats.simps
  by (intro exI, intro conjI, rule refl) (use assms in \<open>simp_all add: add.commute\<close>)

lemma markers_Node:
  "markers (Node l m h e s z r) =
     map (\<lambda>m. resolved m z) (markers l) @ resolved m z # map (\<lambda>m. resolved m z) (markers r)"
  by (simp add: collect_shift[of _ z])

lemma balance_left_heavy:
  assumes l: "tree_ok l" and r: "tree_ok r" and z: "0 \<le> z" and heavy: "node_height l = node_height r + 2"
  shows "\<exists>t'. balance (update_stats (Node l m h e s z r)) = Some t' \<and> tree_ok t' \<and>
     markers t' = markers (Node l m h e s z r) \<and>
     node_height l \<le> node_height t' \<and> node_height t' \<le> 1 + node_height l"
proof -
  obtain a x xh xe xs xz b where ln: "l = Node a x xh xe xs xz b"
    using heavy tree_ok_height[OF r] by (cases l) auto
  note lo = l[unfolded ln tree_ok.simps]
  define t where "t = update_stats (Node l m h e s z r)"
  obtain h2 e2 s2 where t: "t = Node l m h2 e2 s2 z r" by (simp add: t_def)
  have bal: "balance t = (do { l' \<leftarrow> (if balance_factor l < 0 then rotate_left l else Some l);
      rotate_right (Node l' m h2 e2 s2 z r) })"
    using heavy by (simp add: t balance_def balance_factor_def ln)
  show ?thesis
  proof (cases "balance_factor l < 0")
    case False
    then have hs: "node_height b \<le> node_height a" by (simp add: ln balance_factor_def)
    then have "\<bar>node_height b - node_height r\<bar> \<le> 1" using lo heavy ln by auto
    with lo r z obtain a' y yh ye ys c' where
      "rotate_right (Node l m h2 e2 s2 z r) = Some (Node a' y yh ye ys 0 c')" "tree_ok a'" "tree_ok c'"
      "node_height a' = node_height a" "node_height c' = 1 + max (node_height b) (node_height r)"
      "yh = 1 + max (node_height a') (node_height c')" "ys = 1 + node_size a' + node_size c'"
      "markers (Node a' y yh ye ys 0 c') = markers (Node l m h2 e2 s2 z r)"
      using rotate_right_shape[of a b r z xz x xh xe xs m h2 e2 s2] unfolding ln by blast
    then show ?thesis using bal False hs lo heavy ln unfolding t_def[symmetric]
      by (auto simp: markers_Node)
  next
    case True
    then have hs: "node_height b = node_height a + 1" using lo by (auto simp: ln balance_factor_def)
    then obtain b1 y yh ye ys yz b2 where bn: "b = Node b1 y yh ye ys yz b2"
      using lo tree_ok_height[of a] by (cases b) auto
    have bo: "tree_ok b1" "tree_ok b2" "0 \<le> yz" "node_height b = 1 + max (node_height b1) (node_height b2)"
      "\<bar>node_height b1 - node_height b2\<bar> \<le> 1" using lo by (auto simp: bn)
    have "\<bar>node_height a - node_height b1\<bar> \<le> 1" using bo hs by auto
    with lo bo obtain a' u uh ue us c' where l': "rotate_left l = Some (Node a' u uh ue us 0 c')"
      "tree_ok a'" "tree_ok c'" "node_height c' = node_height b2"
      "node_height a' = 1 + max (node_height a) (node_height b1)"
      "uh = 1 + max (node_height a') (node_height c')" "us = 1 + node_size a' + node_size c'"
      "markers (Node a' u uh ue us 0 c') = markers l"
      using rotate_left_shape[of a b1 b2 xz yz x xh xe xs y yh ye ys] unfolding ln bn by blast
    have nr: "node_height r = node_height a" using heavy hs lo by (auto simp: ln)
    then have "\<bar>node_height c' - node_height r\<bar> \<le> 1" using l'(4) bo hs by auto
    with l' r z obtain a2 v vh ve vs c2 where t2:
      "rotate_right (Node (Node a' u uh ue us 0 c') m h2 e2 s2 z r) = Some (Node a2 v vh ve vs 0 c2)"
      "tree_ok a2" "tree_ok c2" "node_height a2 = node_height a'"
      "node_height c2 = 1 + max (node_height c') (node_height r)"
      "vh = 1 + max (node_height a2) (node_height c2)" "vs = 1 + node_size a2 + node_size c2"
      "markers (Node a2 v vh ve vs 0 c2) = markers (Node (Node a' u uh ue us 0 c') m h2 e2 s2 z r)"
      using rotate_right_shape[of a' c' r z 0 u uh ue us m h2 e2 s2] by auto
    have "node_height a2 = node_height a + 1" "node_height c2 = node_height a + 1"
      using t2(4,5) l'(4,5) nr bo hs by auto
    moreover have "node_height l = node_height a + 2" using hs lo by (simp add: ln)
    moreover have "markers (Node a2 v vh ve vs 0 c2) = markers (Node l m h e s z r)"
      unfolding t2(8) using l'(8) by (simp only: markers_Node)
    ultimately show ?thesis using bal True l'(1) t2 unfolding t_def[symmetric] by simp
  qed
qed

lemma balance_right_heavy:
  assumes l: "tree_ok l" and r: "tree_ok r" and z: "0 \<le> z" and heavy: "node_height r = node_height l + 2"
  shows "\<exists>t'. balance (update_stats (Node l m h e s z r)) = Some t' \<and> tree_ok t' \<and>
     markers t' = markers (Node l m h e s z r) \<and>
     node_height r \<le> node_height t' \<and> node_height t' \<le> 1 + node_height r"
proof -
  obtain b x xh xe xs xz c where rn: "r = Node b x xh xe xs xz c"
    using heavy tree_ok_height[OF l] by (cases r) auto
  note ro = r[unfolded rn tree_ok.simps]
  define t where "t = update_stats (Node l m h e s z r)"
  obtain h2 e2 s2 where t: "t = Node l m h2 e2 s2 z r" by (simp add: t_def)
  have bal: "balance t = (do { r' \<leftarrow> (if balance_factor r > 0 then rotate_right r else Some r);
      rotate_left (Node l m h2 e2 s2 z r') })"
    using heavy by (simp add: t balance_def balance_factor_def rn)
  show ?thesis
  proof (cases "balance_factor r > 0")
    case False
    then have hs: "node_height b \<le> node_height c" by (simp add: rn balance_factor_def)
    then have "\<bar>node_height l - node_height b\<bar> \<le> 1" using ro heavy rn by auto
    with ro l z obtain a' y yh ye ys c' where
      "rotate_left (Node l m h2 e2 s2 z r) = Some (Node a' y yh ye ys 0 c')" "tree_ok a'" "tree_ok c'"
      "node_height c' = node_height c" "node_height a' = 1 + max (node_height l) (node_height b)"
      "yh = 1 + max (node_height a') (node_height c')" "ys = 1 + node_size a' + node_size c'"
      "markers (Node a' y yh ye ys 0 c') = markers (Node l m h2 e2 s2 z r)"
      using rotate_left_shape[of l b c z xz m h2 e2 s2 x xh xe xs] unfolding rn by blast
    then show ?thesis using bal False hs ro heavy rn unfolding t_def[symmetric]
      by (auto simp: markers_Node)
  next
    case True
    then have hs: "node_height b = node_height c + 1" using ro by (auto simp: rn balance_factor_def)
    then obtain b1 y yh ye ys yz b2 where bn: "b = Node b1 y yh ye ys yz b2"
      using ro tree_ok_height[of c] by (cases b) auto
    have bo: "tree_ok b1" "tree_ok b2" "0 \<le> yz" "node_height b = 1 + max (node_height b1) (node_height b2)"
      "\<bar>node_height b1 - node_height b2\<bar> \<le> 1" using ro by (auto simp: bn)
    have "\<bar>node_height b2 - node_height c\<bar> \<le> 1" using bo hs by auto
    with ro bo obtain a' u uh ue us c' where r': "rotate_right r = Some (Node a' u uh ue us 0 c')"
      "tree_ok a'" "tree_ok c'" "node_height a' = node_height b1"
      "node_height c' = 1 + max (node_height b2) (node_height c)"
      "uh = 1 + max (node_height a') (node_height c')" "us = 1 + node_size a' + node_size c'"
      "markers (Node a' u uh ue us 0 c') = markers r"
      using rotate_right_shape[of b1 b2 c xz yz y yh ye ys x xh xe xs] unfolding rn bn by blast
    have nl: "node_height l = node_height c" using heavy hs ro by (auto simp: rn)
    then have "\<bar>node_height l - node_height a'\<bar> \<le> 1" using r'(4) bo hs by auto
    with r' l z obtain a2 v vh ve vs c2 where t2:
      "rotate_left (Node l m h2 e2 s2 z (Node a' u uh ue us 0 c')) = Some (Node a2 v vh ve vs 0 c2)"
      "tree_ok a2" "tree_ok c2" "node_height c2 = node_height c'"
      "node_height a2 = 1 + max (node_height l) (node_height a')"
      "vh = 1 + max (node_height a2) (node_height c2)" "vs = 1 + node_size a2 + node_size c2"
      "markers (Node a2 v vh ve vs 0 c2) = markers (Node l m h2 e2 s2 z (Node a' u uh ue us 0 c'))"
      using rotate_left_shape[of l a' c' z 0 m h2 e2 s2 u uh ue us] by auto
    have "node_height a2 = node_height c + 1" "node_height c2 = node_height c + 1"
      using t2(4,5) r'(4,5) nl bo hs by auto
    moreover have "node_height r = node_height c + 2" using hs ro by (simp add: rn)
    moreover have "markers (Node a2 v vh ve vs 0 c2) = markers (Node l m h e s z r)"
      unfolding t2(8) using r'(8) by (simp only: markers_Node)
    ultimately show ?thesis using bal True r'(1) t2 unfolding t_def[symmetric] by simp
  qed
qed

lemma balance_ok:
  assumes "tree_ok l" "tree_ok r" "0 \<le> z" "\<bar>node_height l - node_height r\<bar> \<le> 2"
  obtains t' where "balance (update_stats (Node l m h e s z r)) = Some t'" "tree_ok t'"
    "markers t' = markers (Node l m h e s z r)"
    "max (node_height l) (node_height r) \<le> node_height t'" "node_height t' \<le> 1 + max (node_height l) (node_height r)"
    "\<bar>node_height l - node_height r\<bar> \<le> 1 \<Longrightarrow> node_height t' = 1 + max (node_height l) (node_height r)"
proof -
  consider "node_height l = node_height r + 2" | "node_height r = node_height l + 2"
    | "\<bar>node_height l - node_height r\<bar> \<le> 1" using assms(4) by linarith
  then show ?thesis
  proof cases
    case 1
    then show ?thesis using balance_left_heavy[OF assms(1-3) 1, of m h e s] that by auto
  next
    case 2
    then show ?thesis using balance_right_heavy[OF assms(1-3) 2, of m h e s] that by auto
  next
    case 3
    then have "\<not> node_height l - node_height r > 1" "\<not> node_height l - node_height r < - 1" by linarith+
    then have "balance (update_stats (Node l m h e s z r)) = Some (update_stats (Node l m h e s z r))"
      by (simp add: balance_def balance_factor_def[of "Node _ _ _ _ _ _ _"])
    then show ?thesis using that[of "update_stats (Node l m h e s z r)"] assms 3 by simp
  qed
qed

subsection \<open>Insertion keeps the tree\<close>

definition position_sorted :: "Marker list \<Rightarrow> bool" where
  "position_sorted ms \<longleftrightarrow> sorted (map m_start ms)"

lemma tree_ok_pushed:
  assumes "tree_ok t" "push_delta t = Node l m h e s z r"
  shows "tree_ok l" "tree_ok r" "z = 0" "h = node_height t" "h = 1 + max (node_height l) (node_height r)"
    "\<bar>node_height l - node_height r\<bar> \<le> 1" "markers t = markers l @ m # markers r" "t \<noteq> Tip"
    "tree_ok (Node l m h e s z r)"
  using assms by (cases t; auto)+

text \<open>Replacing one child by one whose height differs by at most one, and rebalancing.\<close>

lemma balance_grown:
  assumes "tree_ok l" "tree_ok r" "z = 0" "\<bar>hl - hr\<bar> \<le> 1" "H = 1 + max hl hr"
    and "hl \<le> node_height l" "hr \<le> node_height r" "node_height l + node_height r \<le> hl + hr + 1"
  shows "\<exists>t'. balance (update_stats (Node l m h e s z r)) = Some t' \<and> tree_ok t' \<and>
    markers t' = markers l @ m # markers r \<and> H \<le> node_height t' \<and> node_height t' \<le> H + 1"
proof -
  have "\<bar>node_height l - node_height r\<bar> \<le> 2" using assms by linarith
  then obtain t' where t': "balance (update_stats (Node l m h e s 0 r)) = Some t'" "tree_ok t'"
    "markers t' = markers (Node l m h e s 0 r)"
    "max (node_height l) (node_height r) \<le> node_height t'" "node_height t' \<le> 1 + max (node_height l) (node_height r)"
    "\<bar>node_height l - node_height r\<bar> \<le> 1 \<Longrightarrow> node_height t' = 1 + max (node_height l) (node_height r)"
    using balance_ok[OF assms(1,2), of 0 m h e s] by auto
  have "H \<le> node_height t'" "node_height t' \<le> H + 1" using t'(4-6) assms by linarith+
  then show ?thesis using t' assms(3) by simp
qed

lemma balance_shrunk:
  assumes "tree_ok l" "tree_ok r" "z = 0" "\<bar>hl - hr\<bar> \<le> 1" "H = 1 + max hl hr"
    and "node_height l \<le> hl" "node_height r \<le> hr" "hl + hr \<le> node_height l + node_height r + 1"
  shows "\<exists>t'. balance (update_stats (Node l m h e s z r)) = Some t' \<and> tree_ok t' \<and>
    markers t' = markers l @ m # markers r \<and> H - 1 \<le> node_height t' \<and> node_height t' \<le> H"
proof -
  have "\<bar>node_height l - node_height r\<bar> \<le> 2" using assms by linarith
  then obtain t' where t': "balance (update_stats (Node l m h e s 0 r)) = Some t'" "tree_ok t'"
    "markers t' = markers (Node l m h e s 0 r)"
    "max (node_height l) (node_height r) \<le> node_height t'" "node_height t' \<le> 1 + max (node_height l) (node_height r)"
    "\<bar>node_height l - node_height r\<bar> \<le> 1 \<Longrightarrow> node_height t' = 1 + max (node_height l) (node_height r)"
    using balance_ok[OF assms(1,2), of 0 m h e s] by auto
  have "H - 1 \<le> node_height t'" "node_height t' \<le> H" using t'(4-6) assms by linarith+
  then show ?thesis using t' assms(3) by simp
qed

lemma insert_recursive_ok:
  assumes "tree_ok t"
  shows "\<exists>t' xs ys. insert_recursive t new = Some t' \<and> tree_ok t' \<and>
     node_height t \<le> node_height t' \<and> node_height t' \<le> node_height t + 1 \<and>
     markers t = xs @ ys \<and> markers t' = xs @ new # ys \<and>
     (position_sorted (markers t) \<longrightarrow> position_sorted (markers t'))"
  using assms
proof (induction t new rule: insert_recursive.induct)
  case (1 t new)
  show ?case
  proof (cases "push_delta t")
    case Tip
    then have "t = Tip" by (cases t) auto
    then show ?thesis by (simp add: insert_recursive.simps[of Tip] node_new_def position_sorted_def)
  next
    case (Node l m h e s z r)
    note p = tree_ok_pushed[OF 1(3) Node]
    show ?thesis
    proof (cases "marker_key new < marker_key m")
      case True
      obtain l' xs ys where l': "insert_recursive l new = Some l'" "tree_ok l'"
        "node_height l \<le> node_height l'" "node_height l' \<le> node_height l + 1"
        "markers l = xs @ ys" "markers l' = xs @ new # ys"
        "position_sorted (markers l) \<longrightarrow> position_sorted (markers l')"
        using 1(1)[OF Node True p(1)] by blast
      obtain t' where t': "balance (update_stats (Node l' m h e s z r)) = Some t'" "tree_ok t'"
        "markers t' = markers l' @ m # markers r" "node_height t \<le> node_height t'" "node_height t' \<le> node_height t + 1"
        using balance_grown[OF l'(2) p(2) p(3) p(6) p(5)[unfolded p(4)] l'(3) order_refl, of m h e s] l'(3,4)
        by auto
      have "insert_recursive t new = Some t'"
        using Node True l'(1) t'(1) by (simp add: insert_recursive.simps[of t])
      moreover have "markers t' = xs @ new # ys @ m # markers r" using t'(3) l'(6) p(3) by simp
      moreover have "m_start new \<le> m_start m" using True by (auto simp: marker_key_def)
      ultimately show ?thesis using t'(2,4,5) l'(5,7) p(7)
        by (intro exI[of _ t'] exI[of _ xs] exI[of _ "ys @ m # markers r"])
           (auto simp: position_sorted_def sorted_append l'(6))
    next
      case False
      obtain r' xs ys where r': "insert_recursive r new = Some r'" "tree_ok r'"
        "node_height r \<le> node_height r'" "node_height r' \<le> node_height r + 1"
        "markers r = xs @ ys" "markers r' = xs @ new # ys"
        "position_sorted (markers r) \<longrightarrow> position_sorted (markers r')"
        using 1(2)[OF Node False p(2)] by blast
      obtain t' where t': "balance (update_stats (Node l m h e s z r')) = Some t'" "tree_ok t'"
        "markers t' = markers l @ m # markers r'" "node_height t \<le> node_height t'" "node_height t' \<le> node_height t + 1"
        using balance_grown[OF p(1) r'(2) p(3) p(6) p(5)[unfolded p(4)] order_refl r'(3), of m h e s] r'(3,4)
        by auto
      have "insert_recursive t new = Some t'"
        using Node False r'(1) t'(1) by (simp add: insert_recursive.simps[of t])
      moreover have "markers t' = markers l @ m # xs @ new # ys" using t'(3) r'(6) p(3) by simp
      moreover have "m_start m \<le> m_start new" using False by (auto simp: marker_key_def)
      ultimately show ?thesis using t'(2,4,5) r'(5,7) p(7)
        by (intro exI[of _ t'] exI[of _ "markers l @ m # xs"] exI[of _ ys])
           (auto simp: position_sorted_def sorted_append r'(6))
    qed
  qed
qed

subsection \<open>Deletion keeps the tree\<close>

lemma remove_min_ok:
  assumes "tree_ok t" "t \<noteq> Tip"
  shows "\<exists>m t'. remove_min t = Some (m, t') \<and> tree_ok t' \<and> node_height t - 1 \<le> node_height t' \<and>
     node_height t' \<le> node_height t \<and> markers t = m # markers t'"
  using assms
proof (induction t rule: remove_min.induct)
  case (1 t)
  then obtain l m h e s z r where Node: "push_delta t = Node l m h e s z r" by (cases t) auto
  note p = tree_ok_pushed[OF 1(2) Node]
  show ?case
  proof (cases "l = Tip")
    case True
    then show ?thesis using Node p tree_ok_height[OF p(2)] by (simp add: remove_min.simps[of t])
  next
    case False
    obtain x l' where l': "remove_min l = Some (x, l')" "tree_ok l'" "node_height l - 1 \<le> node_height l'"
      "node_height l' \<le> node_height l" "markers l = x # markers l'"
      using 1(1)[OF Node False p(1) False] by blast
    obtain t' where t': "balance (update_stats (Node l' m h e s z r)) = Some t'" "tree_ok t'"
      "markers t' = markers l' @ m # markers r" "node_height t - 1 \<le> node_height t'" "node_height t' \<le> node_height t"
      using balance_shrunk[OF l'(2) p(2) p(3) p(6) p(5)[unfolded p(4)] l'(4) order_refl, of m h e s] l'(3,4)
        by auto
    have "remove_min t = Some (x, t')"
      using Node False l'(1) t'(1) by (simp add: remove_min.simps[of t])
    then show ?thesis using t'(2-5) l'(5) p(3,7) by simp
  qed
qed

lemma remove_node_ok:
  assumes "tree_ok t" "has_id t i"
  shows "\<exists>t' xs m ys. remove_node t i = Some t' \<and> tree_ok t' \<and> node_height t - 1 \<le> node_height t' \<and>
     node_height t' \<le> node_height t \<and> markers t = xs @ m # ys \<and> m_id m = i \<and> markers t' = xs @ ys"
  using assms
proof (induction t i rule: remove_node.induct)
  case (1 t i)
  then obtain l m h e s z r where Node: "push_delta t = Node l m h e s z r" by (cases t) auto
  note p = tree_ok_pushed[OF 1(3) Node]
  consider (here) "m_id m = i" | (left) "m_id m \<noteq> i" "has_id l i" | (right) "m_id m \<noteq> i" "\<not> has_id l i" "has_id r i"
    using 1(4) p(7) by (auto simp: has_id_markers[of _ _ 0])
  then show ?case
  proof cases
    case here
    show ?thesis
    proof (cases "l = Tip \<or> r = Tip")
      case True
      then have "remove_node t i = Some (if l \<noteq> Tip then l else r)"
        using Node here by (auto simp: remove_node.simps[of t])
      then show ?thesis using True p here tree_ok_height[OF p(1)] tree_ok_height[OF p(2)]
        by (intro exI[of _ "if l \<noteq> Tip then l else r"] exI[of _ "markers l"] exI[of _ m] exI[of _ "markers r"]) auto
    next
      case False
      obtain x r' where r': "remove_min r = Some (x, r')" "tree_ok r'" "node_height r - 1 \<le> node_height r'"
        "node_height r' \<le> node_height r" "markers r = x # markers r'"
        using remove_min_ok[OF p(2)] False by auto
      obtain t' where t': "balance (update_stats (Node l x h e s z r')) = Some t'" "tree_ok t'"
        "markers t' = markers l @ x # markers r'" "node_height t - 1 \<le> node_height t'" "node_height t' \<le> node_height t"
        using balance_shrunk[OF p(1) r'(2) p(3) p(6) p(5)[unfolded p(4)] order_refl r'(4), of x h e s] r'(3,4)
        by auto
      have "remove_node t i = Some t'"
        using Node False here r'(1) t'(1) by (simp add: remove_node.simps[of t])
      then show ?thesis using t'(2-5) r'(5) p(3,7) here by auto
    qed
  next
    case left
    obtain l' xs x ys where l': "remove_node l i = Some l'" "tree_ok l'" "node_height l - 1 \<le> node_height l'"
      "node_height l' \<le> node_height l" "markers l = xs @ x # ys" "m_id x = i" "markers l' = xs @ ys"
      using 1(1)[OF Node left p(1) left(2)] by blast
    obtain t' where t': "balance (update_stats (Node l' m h e s z r)) = Some t'" "tree_ok t'"
      "markers t' = markers l' @ m # markers r" "node_height t - 1 \<le> node_height t'" "node_height t' \<le> node_height t"
      using balance_shrunk[OF l'(2) p(2) p(3) p(6) p(5)[unfolded p(4)] l'(4) order_refl, of m h e s] l'(3,4)
        by auto
    have "remove_node t i = Some t'"
      using Node left l'(1) t'(1) by (simp add: remove_node.simps[of t])
    then show ?thesis using t'(2-5) l'(5-7) p(3,7)
      by (intro exI[of _ t'] exI[of _ xs] exI[of _ x] exI[of _ "ys @ m # markers r"]) simp
  next
    case right
    obtain r' xs x ys where r': "remove_node r i = Some r'" "tree_ok r'" "node_height r - 1 \<le> node_height r'"
      "node_height r' \<le> node_height r" "markers r = xs @ x # ys" "m_id x = i" "markers r' = xs @ ys"
      using 1(2)[OF Node right(1,2) p(2) right(3)] by blast
    obtain t' where t': "balance (update_stats (Node l m h e s z r')) = Some t'" "tree_ok t'"
      "markers t' = markers l @ m # markers r'" "node_height t - 1 \<le> node_height t'" "node_height t' \<le> node_height t"
      using balance_shrunk[OF p(1) r'(2) p(3) p(6) p(5)[unfolded p(4)] order_refl r'(4), of m h e s] r'(3,4)
        by auto
    have "remove_node t i = Some t'"
      using Node right r'(1) t'(1) by (simp add: remove_node.simps[of t])
    then show ?thesis using t'(2-5) r'(5-7) p(3,7)
      by (intro exI[of _ t'] exI[of _ "markers l @ m # xs"] exI[of _ x] exI[of _ ys]) simp
  qed
qed

subsection \<open>The invariant of the tree\<close>

text \<open>
  Markers stand in position order, ids are distinct and have been handed out, and intervals are not
  reversed and not negative, so that the conversions between \<open>u64\<close> and \<open>i64\<close> lose nothing. The order by
  \<open>(start, order, id)\<close> is not part of it: deletions break it, as the code's comments say.
\<close>

definition markers_ok :: "nat \<Rightarrow> Marker list \<Rightarrow> bool" where
  "markers_ok n ms \<longleftrightarrow> position_sorted ms \<and> distinct (map m_id ms) \<and>
     list_all (\<lambda>m. m_id m < n \<and> 0 \<le> m_start m \<and> m_start m \<le> m_end m) ms"

definition it_ok :: "IntervalTree \<Rightarrow> bool" where
  "it_ok tr \<longleftrightarrow> tree_ok (it_root tr) \<and> markers_ok (it_next_id tr) (markers (it_root tr))"

definition lookup :: "Marker list \<Rightarrow> nat \<Rightarrow> Marker option" where
  "lookup ms = map_of (map (\<lambda>m. (m_id m, m)) ms)"

lemma lookup_mset:
  assumes "mset ms = mset ms'" "distinct (map m_id ms)"
  shows "lookup ms = lookup ms'"
proof -
  have "mset (map m_id ms) = mset (map m_id ms')" using assms(1) by simp
  then have "distinct (map m_id ms')" using assms(2) by (metis mset_eq_imp_distinct_iff)
  moreover have "set ms = set ms'" using assms(1) by (rule mset_eq_setD)
  ultimately show ?thesis using assms(2) unfolding lookup_def
    by (intro map_of_inject_set[THEN iffD2]) (auto simp: o_def)
qed

lemma lookup_append: "lookup (xs @ ys) i = (case lookup xs i of None \<Rightarrow> lookup ys i | Some m \<Rightarrow> Some m)"
  by (simp add: lookup_def map_add_def split: option.splits)

lemma lookup_Cons: "lookup (m # ms) i = (if m_id m = i then Some m else lookup ms i)"
  by (simp add: lookup_def)

lemma lookup_None: "lookup ms i = None \<longleftrightarrow> i \<notin> m_id ` set ms"
  by (simp add: lookup_def map_of_eq_None_iff o_def image_image)

lemma lookup_Some_id: "lookup ms i = Some m \<Longrightarrow> m_id m = i \<and> m \<in> set ms"
  by (induction ms) (auto simp: lookup_def split: if_splits)

lemma find_marker_lookup:
  assumes "distinct (map m_id (collect_nodes_in_order t d))"
  shows "map_option (\<lambda>(m, z). resolved m z) (find_marker t d i) = lookup (collect_nodes_in_order t d) i"
  using assms
proof (induction t arbitrary: d)
  case (Node l m h e s z r)
  have IH: "map_option (\<lambda>(m, z). resolved m z) (find_marker l (d + z) i) = lookup (collect_nodes_in_order l (d + z)) i"
    "map_option (\<lambda>(m, z). resolved m z) (find_marker r (d + z) i) = lookup (collect_nodes_in_order r (d + z)) i"
    using Node by auto
  have "lookup (collect_nodes_in_order l (d + z)) (m_id m) = None"
    using Node.prems by (auto simp: lookup_None)
  then show ?case using IH by (auto simp: lookup_append lookup_Cons split: option.splits)
qed (simp add: lookup_def)

lemma get_position_lookup:
  assumes "it_ok tr"
  shows "get_position tr i = map_option (\<lambda>m. (m_start m, m_end m)) (lookup (markers (it_root tr)) i)"
  using assms find_marker_lookup[of "it_root tr" 0 i, symmetric]
  by (simp add: get_position_def it_ok_def markers_ok_def option.map_comp o_def case_prod_unfold)

lemma get_marker_lookup:
  assumes "it_ok tr" "get_marker tr i = Some m"
  shows "\<exists>z. lookup (markers (it_root tr)) i = Some (resolved m z)"
  using assms find_marker_lookup[of "it_root tr" 0 i, symmetric]
  by (auto simp: get_marker_def it_ok_def markers_ok_def)

lemma get_marker_None: "it_ok tr \<Longrightarrow> get_marker tr i = None \<longleftrightarrow> \<not> has_id (it_root tr) i"
  using find_marker_lookup[of "it_root tr" 0 i, symmetric]
  by (auto simp: get_marker_def it_ok_def markers_ok_def has_id_markers[of _ _ 0] lookup_None[symmetric])

lemma markers_ok_insert:
  assumes "markers_ok n (xs @ ys)" "position_sorted (xs @ m # ys)" "m_id m < n'" "n \<le> n'"
    "m_id m \<notin> m_id ` set (xs @ ys)" "0 \<le> m_start m" "m_start m \<le> m_end m"
  shows "markers_ok n' (xs @ m # ys)"
proof -
  have "m_id x < n'" if "x \<in> set (xs @ ys)" for x
    using that assms(1,4) by (auto simp: markers_ok_def list_all_iff intro: order_less_le_trans)
  then show ?thesis using assms by (auto simp: markers_ok_def list_all_iff)
qed

lemma insert_marker_ok:
  assumes "it_ok tr" "m_id m \<notin> m_id ` set (markers (it_root tr))" "m_id m < n" "it_next_id tr \<le> n"
    "0 \<le> m_start m" "m_start m \<le> m_end m"
  shows "\<exists>t' xs ys. insert_recursive (it_root tr) m = Some t' \<and> markers (it_root tr) = xs @ ys \<and>
     markers t' = xs @ m # ys \<and> it_ok \<lparr>it_root = t', it_next_id = n\<rparr>"
proof -
  obtain t' xs ys where t': "insert_recursive (it_root tr) m = Some t'" "tree_ok t'"
    "markers (it_root tr) = xs @ ys" "markers t' = xs @ m # ys" "position_sorted (markers t')"
    using insert_recursive_ok[of "it_root tr" m] assms(1) by (auto simp: it_ok_def markers_ok_def)
  moreover have "markers_ok n (xs @ m # ys)"
    using markers_ok_insert[of "it_next_id tr" xs ys m n] t' assms by (simp add: it_ok_def)
  ultimately show ?thesis by (auto simp: it_ok_def)
qed

lemma delete_ok:
  assumes "it_ok tr"
  shows "\<exists>tr'. it_delete tr i = Some (tr', has_id (it_root tr) i) \<and> it_ok tr' \<and>
     it_next_id tr' = it_next_id tr \<and>
     markers (it_root tr') = filter (\<lambda>m. m_id m \<noteq> i) (markers (it_root tr))"
proof (cases "has_id (it_root tr) i")
  case False
  then have "filter (\<lambda>m. m_id m \<noteq> i) (markers (it_root tr)) = markers (it_root tr)"
    by (auto simp: has_id_markers[of _ _ 0] filter_id_conv)
  then show ?thesis using False assms by (simp add: it_delete_def)
next
  case True
  then obtain t' xs m ys where t': "remove_node (it_root tr) i = Some t'" "tree_ok t'"
    "markers (it_root tr) = xs @ m # ys" "m_id m = i" "markers t' = xs @ ys"
    using remove_node_ok[of "it_root tr" i] assms by (auto simp: it_ok_def)
  have ok: "markers_ok (it_next_id tr) (xs @ m # ys)" using assms t'(3) by (simp add: it_ok_def)
  then have "markers_ok (it_next_id tr) (xs @ ys)"
    by (auto simp: markers_ok_def position_sorted_def sorted_append)
  moreover have "filter (\<lambda>x. m_id x \<noteq> i) (xs @ m # ys) = xs @ ys"
    using ok t'(4) by (auto simp: markers_ok_def image_iff intro!: arg_cong2[where f = append] filter_True)
  ultimately show ?thesis using True t' by (simp add: it_delete_def it_ok_def)
qed

end
