(* ===== verification/Marker_Adjust.thy ===== *)
theory Marker_Adjust
  imports Marker_Tree
begin

text \<open>
  Marker movement. A single edit moves every marker of the tree as it moves a marker by itself, except for
  the ends of markers that span the edit, which the walk does not reach; a batch of edits
  moves every marker as the edits one by one would.
\<close>

subsection \<open>One marker and one edit\<close>

definition adjusted_start :: "int \<Rightarrow> int \<Rightarrow> bool \<Rightarrow> int \<Rightarrow> int" where
  "adjusted_start pos delta gravity start =
     (if pos \<le> start \<and> (gravity \<or> delta \<le> 0 \<or> pos \<noteq> start)
      then (if delta < 0 then max (start + delta) pos else start + delta) else start)"

definition adjusted_end :: "int \<Rightarrow> int \<Rightarrow> bool \<Rightarrow> int \<Rightarrow> int \<Rightarrow> int" where
  "adjusted_end pos delta gravity start' fin =
     (if (if \<not> gravity \<and> delta > 0 then fin > pos else fin \<ge> pos) then max (fin + delta) start' else fin)"

definition adjust_marker :: "int \<Rightarrow> int \<Rightarrow> Marker \<Rightarrow> Marker" where
  "adjust_marker pos delta m =
     (let start' = adjusted_start pos delta (right_gravity m) (m_start m)
      in m\<lparr>m_start := start', m_end := adjusted_end pos delta (right_gravity m) start' (m_end m)\<rparr>)"

text \<open>What the tree guarantees of a moved marker: all but the end, and the end of a point.\<close>

definition moved :: "int \<Rightarrow> int \<Rightarrow> Marker \<Rightarrow> Marker \<Rightarrow> bool" where
  "moved pos delta m m' \<longleftrightarrow>
     m_id m' = m_id m \<and> m_type m' = m_type m \<and> right_gravity m' = right_gravity m \<and> m_order m' = m_order m \<and>
     m_start m' = adjusted_start pos delta (right_gravity m) (m_start m) \<and>
     (m_start m \<le> m_end m \<longrightarrow> m_start m' \<le> m_end m') \<and>
     (m_start m = m_end m \<longrightarrow> m_start m' = m_end m')"

lemma moved_simps:
  assumes "moved pos delta m m'"
  shows "m_id m' = m_id m" "right_gravity m' = right_gravity m" "m_order m' = m_order m" "m_type m' = m_type m"
    "m_start m' = adjusted_start pos delta (right_gravity m) (m_start m)"
  using assms by (simp_all add: moved_def)

lemma moved_adjust_marker: "m_start m \<le> m_end m \<Longrightarrow> moved pos delta m (adjust_marker pos delta m)"
  unfolding moved_def adjust_marker_def adjusted_start_def adjusted_end_def Let_def
  by (cases "right_gravity m"; cases "delta < 0"; cases "pos \<le> m_start m"; cases "pos = m_start m") (simp_all add: max_def)

lemma moved_before: "m_start m < pos \<Longrightarrow> moved pos delta m m"
  by (simp add: moved_def adjusted_start_def)

lemma moved_after:
  "pos < m_start m \<Longrightarrow> 0 \<le> delta \<Longrightarrow> moved pos delta m (resolved m delta)"
  by (simp add: moved_def adjusted_start_def resolved_def)

lemma moved_all_before: "\<forall>m\<in>set ms. m_start m < pos \<Longrightarrow> list_all2 (moved pos delta) ms ms"
  by (simp add: list_all2_same moved_before)

lemma moved_all_after:
  "\<forall>m\<in>set ms. pos < m_start m \<Longrightarrow> 0 \<le> delta \<Longrightarrow> list_all2 (moved pos delta) ms (map (\<lambda>m. resolved m delta) ms)"
  by (induction ms) (auto simp: moved_after)

subsection \<open>The walk over the tree\<close>

lemma adjust_recursive_Node:
  assumes "push_delta t = Node l m h e s z r"
  shows "adjust_recursive t pos delta =
     update_stats (Node (if pos \<le> m_start m then adjust_recursive l pos delta else l) (adjust_marker pos delta m)
       h e s z (if pos < m_start m \<and> 0 \<le> delta then add_lazy delta r else adjust_recursive r pos delta))"
proof -
  have "(pos \<le> m_start m \<and> \<not> (delta < 0 \<or> pos = m_start m)) = (pos < m_start m \<and> 0 \<le> delta)" by auto
  moreover have "(pos \<le> m_start m \<and> \<not> (\<not> right_gravity m \<and> delta > 0 \<and> pos = m_start m)) =
      (pos \<le> m_start m \<and> (right_gravity m \<or> delta \<le> 0 \<or> pos \<noteq> m_start m))" by auto
  ultimately show ?thesis
    unfolding adjust_recursive.simps[of t] assms Let_def MarkerNode.case adjust_marker_def adjusted_start_def
      adjusted_end_def by presburger
qed

lemma adjust_recursive_Tip [simp]: "adjust_recursive Tip pos delta = Tip"
  by (simp add: adjust_recursive.simps[of Tip])

lemma adjust_recursive_shape:
  assumes "tree_ok t"
  shows "tree_ok (adjust_recursive t pos delta) \<and> node_height (adjust_recursive t pos delta) = node_height t \<and>
     node_size (adjust_recursive t pos delta) = node_size t"
  using assms
proof (induction "count_nodes t" arbitrary: t rule: less_induct)
  case less
  show ?case
  proof (cases t)
    case (Node l m h e s z r)
    note p = less.prems[unfolded Node tree_ok.simps]
    have eq: "push_delta t = Node (add_lazy z l) (resolved m z) h (pushed_max l m e z r) s 0 (add_lazy z r)"
      by (simp add: Node)
    have "tree_ok (adjust_recursive (add_lazy z l) pos delta) \<and>
        node_height (adjust_recursive (add_lazy z l) pos delta) = node_height l \<and>
        node_size (adjust_recursive (add_lazy z l) pos delta) = node_size l"
      using less.hyps[of "add_lazy z l"] p Node by simp
    moreover have "tree_ok (adjust_recursive (add_lazy z r) pos delta) \<and>
        node_height (adjust_recursive (add_lazy z r) pos delta) = node_height r \<and>
        node_size (adjust_recursive (add_lazy z r) pos delta) = node_size r"
      using less.hyps[of "add_lazy z r"] p Node by simp
    ultimately show ?thesis using p unfolding adjust_recursive_Node[OF eq]
      by (cases "pos \<le> m_start (resolved m z)"; cases "pos < m_start (resolved m z) \<and> 0 \<le> delta") (simp_all add: Node)
  qed simp
qed

lemma adjust_recursive_moved:
  assumes "tree_ok t" "position_sorted (markers t)" "list_all (\<lambda>m. m_start m \<le> m_end m) (markers t)"
  shows "list_all2 (moved pos delta) (markers t) (markers (adjust_recursive t pos delta))"
  using assms
proof (induction "count_nodes t" arbitrary: t rule: less_induct)
  case less
  show ?case
  proof (cases "push_delta t")
    case Tip
    then have "t = Tip" by (cases t) auto
    then show ?thesis by simp
  next
    case (Node l m h e s z r)
    note p = tree_ok_pushed[OF less.prems(1) Node]
    have smaller: "count_nodes l < count_nodes t" "count_nodes r < count_nodes t"
      using Node by (cases t; auto)+
    have srt: "position_sorted (markers l)" "position_sorted (markers r)"
      "\<forall>x\<in>set (markers l). m_start x \<le> m_start m" "\<forall>x\<in>set (markers r). m_start m \<le> m_start x"
      and iv: "list_all (\<lambda>m. m_start m \<le> m_end m) (markers l)" "list_all (\<lambda>m. m_start m \<le> m_end m) (markers r)"
        "m_start m \<le> m_end m"
      using less.prems(2,3) p(7) by (auto simp: position_sorted_def sorted_append)
    define l' where "l' = (if pos \<le> m_start m then adjust_recursive l pos delta else l)"
    define r' where "r' = (if pos < m_start m \<and> 0 \<le> delta then add_lazy delta r else adjust_recursive r pos delta)"
    have eq: "markers (adjust_recursive t pos delta) = markers l' @ adjust_marker pos delta m # markers r'"
      unfolding adjust_recursive_Node[OF Node] l'_def[symmetric] r'_def[symmetric] by (simp add: p(3))
    have "list_all2 (moved pos delta) (markers l) (markers l')"
    proof (cases "pos \<le> m_start m")
      case True
      then show ?thesis using less.hyps[OF smaller(1) p(1) srt(1) iv(1)] by (simp add: l'_def)
    next
      case False
      then show ?thesis using srt(3) by (auto simp: l'_def intro!: moved_all_before)
    qed
    moreover have "list_all2 (moved pos delta) (markers r) (markers r')"
    proof (cases "pos < m_start m \<and> 0 \<le> delta")
      case True
      then have "\<forall>x\<in>set (markers r). pos < m_start x" using srt(4) by auto
      then show ?thesis using True moved_all_after[of "markers r" pos delta]
        by (simp add: r'_def collect_shift[of r delta])
    next
      case False
      show ?thesis unfolding r'_def if_not_P[OF False] by (rule less.hyps[OF smaller(2) p(2) srt(2) iv(2)])
    qed
    ultimately show ?thesis unfolding eq p(7)
      by (simp add: list_all2_appendI moved_adjust_marker[OF iv(3)])
  qed
qed

subsection \<open>Position order after an edit\<close>

text \<open>Gravity splits a position: the markers at the edit either all move or all stay.\<close>

definition no_split :: "int \<Rightarrow> int \<Rightarrow> Marker list \<Rightarrow> bool" where
  "no_split pos delta ms \<longleftrightarrow>
     delta \<le> 0 \<or> (\<forall>m\<in>set ms. m_start m = pos \<longrightarrow> right_gravity m) \<or>
     (\<forall>m\<in>set ms. m_start m = pos \<longrightarrow> \<not> right_gravity m)"

lemma adjusted_start_mono:
  assumes "s1 \<le> s2" "s1 = s2 \<Longrightarrow> s1 = pos \<Longrightarrow> 0 < delta \<Longrightarrow> g1 = g2"
  shows "adjusted_start pos delta g1 s1 \<le> adjusted_start pos delta g2 s2"
  using assms by (cases "s1 = s2") (auto simp: adjusted_start_def)

lemma moved_sorted:
  assumes "list_all2 (moved pos delta) ms ms'" "position_sorted ms" "no_split pos delta ms"
  shows "position_sorted ms'"
  unfolding position_sorted_def sorted_iff_nth_mono
proof (intro allI impI)
  fix i j assume ij: "i \<le> j" "j < length (map m_start ms')"
  have len: "length ms' = length ms" using assms(1) by (simp add: list_all2_lengthD)
  have "m_start (ms ! i) \<le> m_start (ms ! j)"
    using assms(2) ij len by (simp add: position_sorted_def sorted_iff_nth_mono)
  moreover have "m_start (ms' ! i) = adjusted_start pos delta (right_gravity (ms ! i)) (m_start (ms ! i))"
    "m_start (ms' ! j) = adjusted_start pos delta (right_gravity (ms ! j)) (m_start (ms ! j))"
    using assms(1) ij len by (auto simp: list_all2_conv_all_nth moved_simps(5))
  moreover have "right_gravity (ms ! i) = right_gravity (ms ! j)"
    if "m_start (ms ! i) = m_start (ms ! j)" "m_start (ms ! i) = pos" "0 < delta"
    using assms(3) that ij len nth_mem[of i ms] nth_mem[of j ms] by (auto simp: no_split_def)
  ultimately show "map m_start ms' ! i \<le> map m_start ms' ! j"
    using ij len adjusted_start_mono by simp
qed

lemma moved_ids: "list_all2 (moved pos delta) ms ms' \<Longrightarrow> map m_id ms' = map m_id ms"
  by (induction rule: list_all2_induct) (auto simp: moved_simps)

lemma moved_markers_ok:
  assumes "list_all2 (moved pos delta) ms ms'" "markers_ok n ms" "no_split pos delta ms" "0 \<le> pos"
  shows "markers_ok n ms'"
proof -
  have "list_all (\<lambda>m. m_id m < n \<and> 0 \<le> m_start m \<and> m_start m \<le> m_end m) ms'"
    using assms(1) assms(2)[unfolded markers_ok_def, THEN conjunct2, THEN conjunct2] assms(4)
    by (induction rule: list_all2_induct) (auto simp: moved_def adjusted_start_def)
  then show ?thesis using assms(2) moved_sorted[OF assms(1) _ assms(3)] moved_ids[OF assms(1)]
    by (simp add: markers_ok_def)
qed

lemma adjust_recursive_it_ok:
  assumes "it_ok tr" "no_split pos delta (markers (it_root tr))" "0 \<le> pos"
  shows "it_ok (tr\<lparr>it_root := adjust_recursive (it_root tr) pos delta\<rparr>)"
    "list_all2 (moved pos delta) (markers (it_root tr)) (markers (adjust_recursive (it_root tr) pos delta))"
proof -
  have "tree_ok (it_root tr)" "position_sorted (markers (it_root tr))"
    "list_all (\<lambda>m. m_start m \<le> m_end m) (markers (it_root tr))"
    using assms(1) by (auto simp: it_ok_def markers_ok_def list_all_iff)
  note mv = adjust_recursive_moved[OF this, of pos delta]
  then show "list_all2 (moved pos delta) (markers (it_root tr)) (markers (adjust_recursive (it_root tr) pos delta))" .
  show "it_ok (tr\<lparr>it_root := adjust_recursive (it_root tr) pos delta\<rparr>)"
    using adjust_recursive_shape[of "it_root tr" pos delta] moved_markers_ok[OF mv _ assms(2,3)] assms(1)
    by (simp add: it_ok_def)
qed

subsection \<open>Markers at the position of an insertion\<close>

lemma collect_starts_at_eq:
  assumes "position_sorted (collect_nodes_in_order t d)"
  shows "mset (collect_starts_at t d pos) = mset (filter (\<lambda>m. m_start m = pos) (collect_nodes_in_order t d))"
  using assms
proof (induction t arbitrary: d)
  case (Node l m h e s z r)
  let ?l = "collect_nodes_in_order l (d + z)" and ?r = "collect_nodes_in_order r (d + z)"
  have srt: "position_sorted ?l" "position_sorted ?r"
    "\<forall>x\<in>set ?l. m_start x \<le> m_start m + (d + z)" "\<forall>x\<in>set ?r. m_start m + (d + z) \<le> m_start x"
    using Node.prems by (auto simp: position_sorted_def sorted_append)
  consider "pos < m_start m + (d + z)" | "pos > m_start m + (d + z)" | "pos = m_start m + (d + z)" by linarith
  then show ?case
  proof cases
    case 1
    then have "filter (\<lambda>m. m_start m = pos) ?r = []" using srt(4) by (auto simp: filter_empty_conv)
    then show ?thesis using 1 Node.IH(1)[OF srt(1)] by (simp add: Let_def)
  next
    case 2
    then have "filter (\<lambda>m. m_start m = pos) ?l = []" using srt(3) by (auto simp: filter_empty_conv)
    then show ?thesis using 2 Node.IH(2)[OF srt(2)] by (simp add: Let_def)
  next
    case 3
    then show ?thesis using Node.IH(1)[OF srt(1)] Node.IH(2)[OF srt(2)] by (simp add: Let_def)
  qed
qed simp

lemma delete_all_ok:
  assumes "it_ok tr"
  shows "\<exists>tr'. delete_all tr ms = Some tr' \<and> it_ok tr' \<and> it_next_id tr' = it_next_id tr \<and>
     markers (it_root tr') = filter (\<lambda>m. m_id m \<notin> m_id ` set ms) (markers (it_root tr))"
  using assms
proof (induction ms arbitrary: tr)
  case (Cons m ms)
  obtain tr1 b where "it_delete tr (m_id m) = Some (tr1, b)" "it_ok tr1" "it_next_id tr1 = it_next_id tr"
    "markers (it_root tr1) = filter (\<lambda>x. m_id x \<noteq> m_id m) (markers (it_root tr))"
    using delete_ok[OF Cons.prems] by blast
  then show ?case using Cons.IH[of tr1] by (auto simp: conj_commute intro!: filter_cong)
qed simp

definition stayed :: "int \<Rightarrow> int \<Rightarrow> Marker \<Rightarrow> Marker" where
  "stayed pos delta m =
     m\<lparr>m_start := pos, m_end := (if m_end m > pos then m_end m + delta else m_end m), right_gravity := False\<rparr>"

lemma stayed_moved:
  "\<not> right_gravity m \<Longrightarrow> m_start m = pos \<Longrightarrow> 0 < delta \<Longrightarrow> m_start m \<le> m_end m \<Longrightarrow> moved pos delta m (stayed pos delta m)"
  by (auto simp: moved_def stayed_def adjusted_start_def)

lemma reinsert_all_ok:
  assumes "it_ok tr" "distinct (map m_id ms)" "m_id ` set ms \<inter> m_id ` set (markers (it_root tr)) = {}"
    and "\<forall>m\<in>set ms. m_id m < it_next_id tr \<and> pos \<le> m_end m" "0 \<le> pos" "0 < delta"
  shows "\<exists>tr'. reinsert_all tr pos delta ms = Some tr' \<and> it_ok tr' \<and> it_next_id tr' = it_next_id tr \<and>
     mset (markers (it_root tr')) = mset (map (stayed pos delta) ms) + mset (markers (it_root tr))"
  using assms(1-4)
proof (induction ms arbitrary: tr)
  case (Cons m ms)
  let ?m = "\<lparr>m_id = m_id m, m_start = pos, m_end = (if m_end m > pos then m_end m + delta else m_end m),
    m_type = m_type m, right_gravity = False, m_order = m_order m\<rparr>"
  have eq: "?m = stayed pos delta m" by (simp add: stayed_def)
  have new: "m_id ?m \<notin> m_id ` set (markers (it_root tr))" "m_id ?m < it_next_id tr" "m_start ?m \<le> m_end ?m"
    using Cons.prems assms(6) by auto
  obtain t' xs ys where t': "insert_recursive (it_root tr) ?m = Some t'" "markers (it_root tr) = xs @ ys"
    "markers t' = xs @ ?m # ys" "it_ok \<lparr>it_root = t', it_next_id = it_next_id tr\<rparr>"
    using insert_marker_ok[OF Cons.prems(1) new(1,2) order_refl _ new(3)] assms(5) by auto
  let ?tr1 = "tr\<lparr>it_root := t'\<rparr>"
  have tr1: "it_ok ?tr1" using t'(4) by (simp add: it_ok_def)
  have ins: "tree_insert_with_id tr (m_id m) pos (if m_end m > pos then m_end m + delta else m_end m) (m_type m) False
      (m_order m) = Some ?tr1"
    using t'(1) new by (simp add: tree_insert_with_id_def has_id_markers[of _ _ 0])
  have "m_id ` set ms \<inter> m_id ` set (markers (it_root ?tr1)) = {}"
    using Cons.prems(2,3) t'(2,3) by auto
  then obtain tr' where "reinsert_all ?tr1 pos delta ms = Some tr'" "it_ok tr'" "it_next_id tr' = it_next_id tr"
    "mset (markers (it_root tr')) = mset (map (stayed pos delta) ms) + mset (markers (it_root ?tr1))"
    using Cons.IH[OF tr1] Cons.prems(2,4) by auto
  then show ?case using ins t'(2,3) eq by (simp add: Let_def)
qed simp

subsection \<open>Adjusting the tree for one edit\<close>

lemma moved_lookup: "list_all2 (moved pos delta) ms ms' \<Longrightarrow> rel_option (moved pos delta) (lookup ms i) (lookup ms' i)"
  by (induction rule: list_all2_induct) (auto simp: lookup_def moved_simps)

lemma split_stayers:
  assumes "it_ok tr" and ms_def: "ms = markers (it_root tr)"
    and stayers_def: "stayers = filter (\<lambda>m. \<not> right_gravity m) (collect_starts_at (it_root tr) 0 pos)"
  shows "mset stayers = mset (filter (\<lambda>m. m_start m = pos \<and> \<not> right_gravity m) ms)"
    "mset ms = mset stayers + mset (filter (\<lambda>m. m_id m \<notin> m_id ` set stayers) ms)"
    "filter (\<lambda>m. m_id m \<notin> m_id ` set stayers) ms = filter (\<lambda>m. \<not> (m_start m = pos \<and> \<not> right_gravity m)) ms"
proof -
  have dist: "distinct (map m_id ms)" and srt: "position_sorted ms"
    using assms(1) by (auto simp: it_ok_def markers_ok_def ms_def)
  show st: "mset stayers = mset (filter (\<lambda>m. m_start m = pos \<and> \<not> right_gravity m) ms)"
    using arg_cong[OF collect_starts_at_eq[of "it_root tr" 0 pos], of "filter_mset (\<lambda>m. \<not> right_gravity m)"] srt
    by (simp add: stayers_def ms_def filter_filter_mset)
  then have set: "set stayers = {m \<in> set ms. m_start m = pos \<and> \<not> right_gravity m}"
    by (metis mset_eq_setD set_filter)
  show eq: "filter (\<lambda>m. m_id m \<notin> m_id ` set stayers) ms = filter (\<lambda>m. \<not> (m_start m = pos \<and> \<not> right_gravity m)) ms"
    using dist by (intro filter_cong) (auto simp: set distinct_map inj_on_def)
  show "mset ms = mset stayers + mset (filter (\<lambda>m. m_id m \<notin> m_id ` set stayers) ms)"
    unfolding eq st by (simp only: mset_filter multiset_partition[symmetric])
qed

lemma adjust_for_edit_moves:
  assumes ok: "it_ok tr" and pos: "0 \<le> pos"
  shows "\<exists>tr' ms ms'. adjust_for_edit tr pos delta = Some tr' \<and> it_ok tr' \<and> it_next_id tr' = it_next_id tr \<and>
     mset ms = mset (markers (it_root tr)) \<and> mset ms' = mset (markers (it_root tr')) \<and>
     list_all2 (moved pos delta) ms ms'"
proof -
  define ms where "ms = markers (it_root tr)"
  define at_pos where "at_pos = collect_starts_at (it_root tr) 0 pos"
  define stayers where "stayers = filter (\<lambda>m. \<not> right_gravity m) at_pos"
  note sp = split_stayers[OF ok ms_def stayers_def[unfolded at_pos_def]]
  have at: "set at_pos = {m \<in> set ms. m_start m = pos}"
    using mset_eq_setD[OF collect_starts_at_eq[of "it_root tr" 0 pos]] ok
    by (simp add: at_pos_def ms_def it_ok_def markers_ok_def)
  show ?thesis
  proof (cases "delta > 0 \<and> list_ex right_gravity at_pos \<and> stayers \<noteq> []")
    case False
    then have "no_split pos delta ms"
      by (auto simp: no_split_def stayers_def filter_empty_conv list_ex_iff at)
    note a = adjust_recursive_it_ok[OF ok this[unfolded ms_def] pos]
    have "adjust_for_edit tr pos delta = Some (tr\<lparr>it_root := adjust_recursive (it_root tr) pos delta\<rparr>)"
      using False unfolding adjust_for_edit_def Let_def at_pos_def stayers_def by auto
    then show ?thesis using a
      by (intro exI[of _ "tr\<lparr>it_root := adjust_recursive (it_root tr) pos delta\<rparr>"] exI[of _ "markers (it_root tr)"]
          exI[of _ "markers (adjust_recursive (it_root tr) pos delta)"]) simp
  next
    case True
    obtain tr1 where tr1: "delete_all tr stayers = Some tr1" "it_ok tr1" "it_next_id tr1 = it_next_id tr"
      "markers (it_root tr1) = filter (\<lambda>m. m_id m \<notin> m_id ` set stayers) ms"
      using delete_all_ok[OF ok] unfolding ms_def by blast
    let ?tr2 = "tr1\<lparr>it_root := adjust_recursive (it_root tr1) pos delta\<rparr>"
    have "no_split pos delta (markers (it_root tr1))" unfolding tr1(4) sp(3) by (auto simp: no_split_def)
    note a = adjust_recursive_it_ok[OF tr1(2) this pos]
    have set: "set stayers = {m \<in> set ms. m_start m = pos \<and> \<not> right_gravity m}"
      using sp(1) by (metis mset_eq_setD set_filter)
    have old: "\<forall>m\<in>set stayers. m_id m < it_next_id tr \<and> pos \<le> m_end m"
      using ok unfolding set by (auto simp: it_ok_def markers_ok_def list_all_iff ms_def)
    have "mset (map m_id stayers) = mset (map m_id (filter (\<lambda>m. m_start m = pos \<and> \<not> right_gravity m) ms))"
      using sp(1) by (metis mset_map)
    moreover have "distinct (map m_id (filter (\<lambda>m. m_start m = pos \<and> \<not> right_gravity m) ms))"
      using ok by (simp add: it_ok_def markers_ok_def ms_def distinct_map_filter)
    ultimately have dist: "distinct (map m_id stayers)" by (metis mset_eq_imp_distinct_iff)
    have "m_id ` set (markers (it_root ?tr2)) = m_id ` set (markers (it_root tr1))"
      using arg_cong[OF moved_ids[OF a(2)], of set] by simp
    moreover have "A \<inter> f ` {x \<in> B. f x \<notin> A} = {}" for A B and f :: "Marker \<Rightarrow> nat" by auto
    ultimately have fresh: "m_id ` set stayers \<inter> m_id ` set (markers (it_root ?tr2)) = {}"
      by (simp only: tr1(4) set_filter)
    obtain tr' where tr': "reinsert_all ?tr2 pos delta stayers = Some tr'" "it_ok tr'"
      "it_next_id tr' = it_next_id tr"
      "mset (markers (it_root tr')) = mset (map (stayed pos delta) stayers) + mset (markers (it_root ?tr2))"
      using reinsert_all_ok[OF a(1) dist fresh, of pos delta] old pos True tr1(3) by auto
    have "adjust_for_edit tr pos delta = Some tr'"
      using True tr1(1) tr'(1) unfolding adjust_for_edit_def Let_def at_pos_def stayers_def by simp
    moreover have "list_all2 (moved pos delta) stayers (map (stayed pos delta) stayers)"
      using True ok by (auto simp: list_all2_map2 list_all2_same set it_ok_def markers_ok_def list_all_iff ms_def
          intro!: stayed_moved)
    ultimately show ?thesis using tr' a(2) sp(2) tr1(4)
      by (intro exI[of _ tr'] exI[of _ "stayers @ markers (it_root tr1)"]
          exI[of _ "map (stayed pos delta) stayers @ markers (it_root ?tr2)"]) (simp add: list_all2_appendI ms_def)
  qed
qed

end
