(* ===== verification/Marker_Bulk.thy ===== *)
theory Marker_Bulk
  imports Marker_Adjust
begin

text \<open>
  Batches: \<open>adjust_for_bulk_edits\<close> moves every marker as the edits one after the other, from the last
  position to the first, and \<open>insert_many\<close> gives the markers that single insertions give. Both rebuild the
  tree from a sorted list.
\<close>

subsection \<open>Building from a list\<close>

lemma build_from_sorted_markers [simp]: "markers (build_from_sorted ms) = ms"
proof (induction "length ms" arbitrary: ms rule: less_induct)
  case less
  show ?case
  proof (cases "ms = []")
    case False
    let ?k = "length ms div 2"
    have k: "?k < length ms" using False by (rule half_less)
    have "markers (build_from_sorted (take ?k ms)) = take ?k ms"
      "markers (build_from_sorted (drop (?k + 1) ms)) = drop (?k + 1) ms"
      using less.hyps[of "take ?k ms"] less.hyps[of "drop (?k + 1) ms"] k by auto
    then show ?thesis using False k
      by (subst build_from_sorted.simps) (simp add: Let_def id_take_nth_drop[symmetric])
  qed (simp add: build_from_sorted.simps)
qed

fun list_height :: "nat \<Rightarrow> nat" where
  "list_height n = (if n = 0 then 0 else Suc (max (list_height (n div 2)) (list_height (n - n div 2 - 1))))"

declare list_height.simps [simp del]

lemma list_height_0 [simp]: "list_height 0 = 0"
  by (subst list_height.simps) simp

lemma list_height_even: "0 < j \<Longrightarrow> list_height (2 * j) = Suc (max (list_height j) (list_height (j - 1)))"
  by (subst list_height.simps) simp

lemma list_height_odd: "list_height (2 * j + 1) = Suc (list_height j)"
  by (subst list_height.simps) simp

lemma list_height_step: "list_height n \<le> list_height (Suc n) \<and> list_height (Suc n) \<le> Suc (list_height n)"
proof (induction n rule: less_induct)
  case (less n)
  show ?case
  proof (cases "even n")
    case True
    then obtain j where j: "n = 2 * j" by (elim evenE)
    show ?thesis
    proof (cases j)
      case 0
      then show ?thesis using j list_height_odd[of 0] by simp
    next
      case (Suc i)
      then show ?thesis using less[of i] j list_height_odd[of j] list_height_even[of j] by simp
    qed
  next
    case False
    then obtain j where j: "n = 2 * j + 1" by (elim oddE)
    then have "Suc n = 2 * Suc j" by simp
    then show ?thesis using less[of j] j list_height_odd[of j] list_height_even[of "Suc j"]
      by (simp only: j) simp
  qed
qed

lemma build_from_sorted_ok:
  "tree_ok (build_from_sorted ms) \<and> node_height (build_from_sorted ms) = int (list_height (length ms)) \<and>
   node_size (build_from_sorted ms) = length ms"
proof (induction "length ms" arbitrary: ms rule: less_induct)
  case less
  show ?case
  proof (cases "ms = []")
    case True
    then show ?thesis by (simp add: build_from_sorted.simps list_height.simps)
  next
    case False
    define k j where "k = length ms div 2" and "j = length ms - k - 1"
    define L R where "L = build_from_sorted (take k ms)" and "R = build_from_sorted (drop (k + 1) ms)"
    have k: "k < length ms" using half_less[OF False] by (simp add: k_def)
    have L: "tree_ok L" "node_height L = int (list_height k)" "node_size L = k"
      using less.hyps[of "take k ms"] k by (simp_all add: L_def min_def)
    have R: "tree_ok R" "node_height R = int (list_height j)" "node_size R = j"
      using less.hyps[of "drop (k + 1) ms"] k by (simp_all add: R_def j_def)
    have "j = k \<or> k = Suc j" using k unfolding k_def j_def by linarith
    then have bal: "\<bar>int (list_height k) - int (list_height j)\<bar> \<le> 1" using list_height_step[of j] by auto
    have "build_from_sorted ms = update_stats (Node L (ms ! k) 1 (m_end (ms ! k)) 1 0 R)"
      using False by (subst build_from_sorted.simps) (simp add: Let_def L_def R_def k_def)
    moreover have "list_height (length ms) = Suc (max (list_height k) (list_height j))"
      using False by (subst list_height.simps) (simp add: k_def j_def)
    moreover have "Suc (k + j) = length ms" using k by (simp add: j_def)
    ultimately show ?thesis using L R bal by (simp add: of_nat_max)
  qed
qed

lemma build_it_ok:
  assumes "mset ms' = mset ms" "distinct (map m_id ms)"
    and "list_all (\<lambda>m. m_id m < n \<and> 0 \<le> m_start m \<and> m_start m \<le> m_end m) ms" "position_sorted ms'"
  shows "it_ok \<lparr>it_root = build_from_sorted ms', it_next_id = n\<rparr>"
proof -
  have "mset (map m_id ms') = mset (map m_id ms)" using assms(1) by simp
  then have "distinct (map m_id ms')" using assms(2) by (metis mset_eq_imp_distinct_iff)
  moreover have "set ms' = set ms" using assms(1) by (rule mset_eq_setD)
  ultimately show ?thesis using assms(3,4) build_from_sorted_ok[of ms']
    by (simp add: it_ok_def markers_ok_def list_all_iff)
qed

lemma sort_key_position: "position_sorted (sort_key marker_key ms)"
proof -
  have "sorted (map marker_key (sort_key marker_key ms))" by simp
  then show ?thesis unfolding position_sorted_def sorted_map
    by (rule sorted_wrt_mono_rel[rotated]) (auto simp: marker_key_def)
qed

subsection \<open>A batch of edits on one marker\<close>

text \<open>
  Edits with ascending positions whose deleted ranges end before the next edit, and the marker
  after all of them, the last edit first.
\<close>

definition edits_apart :: "(int \<times> int) list \<Rightarrow> bool" where
  "edits_apart es \<longleftrightarrow> sorted_wrt (\<lambda>(p, d) (p', _). p < p' \<and> p - d \<le> p') es \<and> list_all (\<lambda>(p, _). 0 \<le> p) es"

definition adjust_in_turn :: "(int \<times> int) list \<Rightarrow> Marker \<Rightarrow> Marker" where
  "adjust_in_turn es m = foldr (\<lambda>(pos, delta). adjust_marker pos delta) es m"

lemma adjust_in_turn_simps [simp]:
  "adjust_in_turn [] m = m"
  "adjust_in_turn ((p, d) # es) m = adjust_marker p d (adjust_in_turn es m)"
  "adjust_in_turn (es @ es') m = adjust_in_turn es (adjust_in_turn es' m)"
  by (simp_all add: adjust_in_turn_def)

lemma adjust_in_turn_Nil: "adjust_in_turn [] = (\<lambda>m. m)"
  by (simp add: fun_eq_iff)

lemma edits_apart_append:
  "edits_apart (xs @ ys) \<longleftrightarrow> edits_apart xs \<and> edits_apart ys \<and>
     (\<forall>(p, d)\<in>set xs. \<forall>(p', _)\<in>set ys. p < p' \<and> p - d \<le> p')"
  by (auto simp: edits_apart_def sorted_wrt_append)

text \<open>Edits behind the marker do nothing.\<close>

lemma adjust_behind:
  assumes "\<forall>(p, d)\<in>set es. m_start m < p \<and> m_end m < p"
  shows "adjust_in_turn es m = m"
  using assms by (induction es) (auto simp: adjust_marker_def adjusted_start_def adjusted_end_def)

text \<open>Edits inside the interval move its end only.\<close>

lemma adjust_inside:
  assumes "\<forall>(p, d)\<in>set es. m_start m < p" "m_start m \<le> m_end m"
  shows "adjust_in_turn es m =
     m\<lparr>m_end := shift_inner (\<not> right_gravity m) (m_start m) (rev es) (m_end m)\<rparr> \<and>
     m_start m \<le> shift_inner (\<not> right_gravity m) (m_start m) (rev es) (m_end m)"
  using assms
proof (induction es arbitrary: m rule: rev_induct)
  case (snoc e es)
  obtain p d where e: "e = (p, d)" by (cases e)
  have 1: "adjust_marker p d m = m\<lparr>m_end :=
      (if (if \<not> right_gravity m \<and> d > 0 then m_end m > p else m_end m \<ge> p) then max (m_end m + d) (m_start m) else m_end m)\<rparr>"
    using snoc.prems e by (simp add: adjust_marker_def adjusted_start_def adjusted_end_def Let_def)
  show ?case using snoc.IH[of "adjust_marker p d m"] snoc.prems by (simp add: e 1)
qed simp

text \<open>Edits wholly before the marker shift it by their sum.\<close>

lemma adjust_before:
  assumes "edits_apart es" "\<forall>(p, d)\<in>set es. p < m_start m \<and> p - d \<le> m_start m" "m_start m \<le> m_end m" "0 \<le> m_start m"
  shows "adjust_in_turn es m = resolved m (sum_list (map snd es)) \<and> 0 \<le> m_start m + sum_list (map snd es)"
  using assms
proof (induction es arbitrary: m rule: rev_induct)
  case (snoc e es)
  obtain p d where e: "e = (p, d)" by (cases e)
  have p: "p < m_start m" "p - d \<le> m_start m" "0 \<le> p" "edits_apart es"
    using snoc.prems(1,2) e by (auto simp: edits_apart_append) (auto simp: edits_apart_def)
  have 1: "adjust_marker p d m = resolved m d"
    using p snoc.prems(3) by (simp add: adjust_marker_def adjusted_start_def adjusted_end_def Let_def resolved_def max_def)
  have "\<forall>(q, c)\<in>set es. q < p \<and> q - c \<le> p" using snoc.prems(1) e by (auto simp: edits_apart_append)
  then have "\<forall>(q, c)\<in>set es. q < m_start (resolved m d) \<and> q - c \<le> m_start (resolved m d)"
    using p by (cases "d < 0") auto
  then show ?case using snoc.IH[of "resolved m d"] p snoc.prems(3) by (simp add: e 1 ac_simps)
qed simp

lemma prefix_sums_length [simp]: "length (prefix_sums r es) = length es"
  by (induction r es rule: prefix_sums.induct) auto

lemma prefix_sums_take: "take k (prefix_sums r es) = prefix_sums r (take k es)"
proof (induction r es arbitrary: k rule: prefix_sums.induct)
  case (2 r p d es)
  then show ?case by (cases k) auto
qed simp

lemma prefix_sums_append:
  "prefix_sums r (xs @ ys) = prefix_sums r xs @ prefix_sums (r + sum_list (map snd xs)) ys"
  by (induction r xs rule: prefix_sums.induct) (auto simp: ac_simps)

lemma map_coord_last:
  assumes "\<forall>(p, d)\<in>set hs. p \<le> c" "g \<le> c"
  shows "map_coord c lg (hs @ [(g, dg)]) (prefix_sums 0 (hs @ [(g, dg)])) =
     max ((if dg > 0 then (if lg \<and> c = g then c else c + dg) else max (c + dg) g) + sum_list (map snd hs)) 0"
proof -
  have "takeWhile (\<lambda>(p, d). p \<le> c) (hs @ [(g, dg)]) = hs @ [(g, dg)]"
    using assms by (intro takeWhile_eq_all_conv[THEN iffD2]) auto
  then show ?thesis
    by (simp add: map_coord_def partition_point_def prefix_sums_append nth_append Let_def)
qed

lemma bulk_adjust_head:
  assumes "edits_apart front" "\<forall>(p, d)\<in>set front. p \<le> m_start m" "m_start m \<le> m_end m" "0 \<le> m_start m"
  shows "adjust_in_turn front m =
     (let start = map_coord (m_start m) (\<not> right_gravity m) front (prefix_sums 0 front)
      in m\<lparr>m_start := start,
           m_end := max (map_coord (max (m_end m) 0) (\<not> right_gravity m) front (prefix_sums 0 front)) start\<rparr>)"
proof (cases front rule: rev_cases)
  case Nil
  then show ?thesis using assms by (simp add: map_coord_def partition_point_def)
next
  case (snoc hs e)
  obtain g dg where e: "e = (g, dg)" by (cases e)
  let ?lg = "\<not> right_gravity m" and ?sum = "sum_list (map snd hs)"
  let ?base = "\<lambda>c. if dg > 0 then (if ?lg \<and> c = g then c else c + dg) else max (c + dg) g"
  have g: "g \<le> m_start m" "\<forall>(p, d)\<in>set hs. p < g \<and> p - d \<le> g" "edits_apart hs"
    using assms(1,2) snoc e by (auto simp: edits_apart_append)
  have m1: "adjust_marker g dg m = m\<lparr>m_start := ?base (m_start m), m_end := ?base (m_end m)\<rparr>"
    using g(1) assms(3) by (auto simp: adjust_marker_def adjusted_start_def adjusted_end_def Let_def max_def)
  have ge: "g \<le> ?base (m_start m)" "?base (m_start m) \<le> ?base (m_end m)" "0 \<le> g"
    using g(1) assms(1,3) snoc e by (auto simp: edits_apart_def)
  let ?m1 = "adjust_marker g dg m"
  have "\<forall>(p, d)\<in>set hs. p < m_start ?m1 \<and> p - d \<le> m_start ?m1" using g(2) ge(1) by (auto simp: m1)
  then have 2: "adjust_in_turn hs ?m1 = resolved ?m1 ?sum" "0 \<le> m_start ?m1 + ?sum"
    using adjust_before[OF g(3), of ?m1] ge by (auto simp: m1)
  have "adjust_in_turn front m = m\<lparr>m_start := ?base (m_start m) + ?sum, m_end := ?base (m_end m) + ?sum\<rparr>"
    using 2 by (simp add: snoc e m1 resolved_def)
  moreover have "map_coord (m_start m) ?lg front (prefix_sums 0 front) = ?base (m_start m) + ?sum"
    unfolding snoc e using g 2(2) by (subst map_coord_last) (auto simp: m1)
  moreover have "map_coord (max (m_end m) 0) ?lg front (prefix_sums 0 front) = ?base (m_end m) + ?sum"
  proof -
    have "max (m_end m) 0 = m_end m" "0 \<le> ?base (m_end m) + ?sum" using assms(3,4) 2(2) ge(2) by (auto simp: m1)
    then show ?thesis unfolding snoc e using g(1,2) assms(3) by (subst map_coord_last) auto
  qed
  ultimately show ?thesis using ge(2) by (simp add: Let_def)
qed

lemma upto_filter:
  fixes es :: "(int \<times> int) list"
  assumes "sorted (map fst es)"
  shows "takeWhile (\<lambda>(p, d). p \<le> c) es = filter (\<lambda>(p, d). p \<le> c) es"
    "dropWhile (\<lambda>(p, d). p \<le> c) es = filter (\<lambda>(p, d). c < p) es"
  using assms by (induction es) (auto simp: filter_id_conv intro!: filter_False[symmetric] filter_True[symmetric])

lemma edits_apart_sorted: "edits_apart es \<Longrightarrow> sorted (map fst es)"
  unfolding edits_apart_def sorted_map by (auto elim!: sorted_wrt_mono_rel[rotated])

lemma bulk_adjust_marker_eq:
  assumes "edits_apart es" "m_start m \<le> m_end m" "0 \<le> m_start m"
  shows "bulk_adjust_marker es (prefix_sums 0 es) m = adjust_in_turn es m"
proof -
  define front where "front = takeWhile (\<lambda>(p, d). p \<le> m_start m) es"
  define rest where "rest = dropWhile (\<lambda>(p, d). p \<le> m_start m) es"
  define inner where "inner = takeWhile (\<lambda>(p, d). p \<le> m_end m) rest"
  define behind where "behind = dropWhile (\<lambda>(p, d). p \<le> m_end m) rest"
  have es: "es = front @ inner @ behind" by (simp add: front_def inner_def behind_def rest_def)
  note srt = edits_apart_sorted[OF assms(1)]
  have front: "\<forall>(p, d)\<in>set front. p \<le> m_start m" by (auto simp: front_def dest: set_takeWhileD)
  have rest: "rest = filter (\<lambda>(p, d). m_start m < p) es" using upto_filter(2)[OF srt] by (simp add: rest_def)
  have srt2: "sorted (map fst rest)" using srt by (simp add: rest sorted_filter)
  have inner: "\<forall>(p, d)\<in>set inner. m_start m < p"
    using rest by (auto simp: inner_def dest: set_takeWhileD)
  have behind: "\<forall>(p, d)\<in>set behind. m_start m < p \<and> m_end m < p"
    using upto_filter(2)[OF srt2] rest by (auto simp: behind_def)
  have gov: "partition_point (\<lambda>(p, d). p \<le> m_start m) es = length front"
    by (simp add: partition_point_def front_def)
  have "takeWhile (\<lambda>(p, d). p \<le> m_end m) (front @ rest) = front @ inner"
    using front assms(2) unfolding inner_def by (intro takeWhile_append2) force
  then have ins: "partition_point (\<lambda>(p, d). p \<le> m_end m) es = length front + length inner"
    by (simp add: partition_point_def front_def rest_def)
  let ?m1 = "m\<lparr>m_end := shift_inner (\<not> right_gravity m) (m_start m) (rev inner) (m_end m)\<rparr>"
  have turn: "adjust_in_turn es m = adjust_in_turn front ?m1"
    "m_start m \<le> shift_inner (\<not> right_gravity m) (m_start m) (rev inner) (m_end m)"
    using adjust_inside[OF inner assms(2)] adjust_behind[OF behind] by (simp_all add: es)
  have apart: "edits_apart front" using assms(1) by (simp add: es edits_apart_append)
  have "adjust_in_turn front ?m1 = bulk_adjust_marker es (prefix_sums 0 es) m"
    using bulk_adjust_head[OF apart, of ?m1] front turn(2) assms(2,3)
    unfolding bulk_adjust_marker_def Let_def
    by (simp add: gov ins max_def prefix_sums_take) (simp add: es)
  then show ?thesis using turn(1) by simp
qed

subsection \<open>A batch of edits on the tree\<close>

lemma adjust_marker_valid:
  assumes "m_start m \<le> m_end m" "0 \<le> m_start m" "0 \<le> pos"
  shows "m_start (adjust_marker pos delta m) \<le> m_end (adjust_marker pos delta m)"
    "0 \<le> m_start (adjust_marker pos delta m)" "m_id (adjust_marker pos delta m) = m_id m"
    "right_gravity (adjust_marker pos delta m) = right_gravity m"
  using moved_adjust_marker[OF assms(1), of pos delta] assms
  by (auto simp: moved_def adjusted_start_def)

lemma adjust_in_turn_valid:
  assumes "m_start m \<le> m_end m" "0 \<le> m_start m" "list_all (\<lambda>(p, _). 0 \<le> p) es"
  shows "m_start (adjust_in_turn es m) \<le> m_end (adjust_in_turn es m) \<and> 0 \<le> m_start (adjust_in_turn es m) \<and>
     m_id (adjust_in_turn es m) = m_id m \<and> right_gravity (adjust_in_turn es m) = right_gravity m"
  using assms(3) by (induction es) (auto simp: adjust_marker_valid assms)

lemma lookup_map:
  "(\<And>m. m \<in> set ms \<Longrightarrow> m_id (f m) = m_id m) \<Longrightarrow> lookup (map f ms) i = map_option f (lookup ms i)"
  by (induction ms) (auto simp: lookup_def)

lemma adjust_for_bulk_edits_ok:
  assumes "it_ok tr" "edits_apart (sort_key fst (filter (\<lambda>(_, d). d \<noteq> 0) edits))"
  shows "\<exists>tr'. adjust_for_bulk_edits tr edits = Some tr' \<and> it_ok tr' \<and> it_next_id tr' = it_next_id tr \<and>
     (\<forall>i. lookup (markers (it_root tr')) i =
        map_option (adjust_in_turn (sort_key fst (filter (\<lambda>(_, d). d \<noteq> 0) edits))) (lookup (markers (it_root tr)) i))"
proof -
  define es where "es = sort_key fst (filter (\<lambda>(_, d). d \<noteq> 0) edits)"
  define ms where "ms = markers (it_root tr)"
  have apart: "edits_apart es" using assms(2) by (simp add: es_def)
  have ms: "distinct (map m_id ms)"
    "list_all (\<lambda>m. m_id m < it_next_id tr \<and> 0 \<le> m_start m \<and> m_start m \<le> m_end m) ms"
    using assms(1) by (auto simp: it_ok_def markers_ok_def ms_def)
  have pos: "list_all (\<lambda>(p, _). 0 \<le> p) es" using apart by (simp add: edits_apart_def)
  have new: "map (bulk_adjust_marker es (prefix_sums 0 es)) ms = map (adjust_in_turn es) ms"
    using ms(2) bulk_adjust_marker_eq[OF apart] by (auto simp: list_all_iff)
  have "sorted_wrt (<) (map fst es)" using apart unfolding sorted_wrt_map edits_apart_def
    by (auto elim!: sorted_wrt_mono_rel[rotated])
  then have dist: "distinct (map fst es)" by (simp add: strict_sorted_iff)
  have valid: "m_start (adjust_in_turn es m) \<le> m_end (adjust_in_turn es m) \<and> 0 \<le> m_start (adjust_in_turn es m) \<and>
     m_id (adjust_in_turn es m) = m_id m" if "m \<in> set ms" for m
    using adjust_in_turn_valid[OF _ _ pos] that ms(2) by (auto simp: list_all_iff)
  consider "it_root tr = Tip" | "es = []" | "it_root tr \<noteq> Tip" "es \<noteq> []" by blast
  then show ?thesis
  proof cases
    case 1
    then show ?thesis using assms(1) by (auto simp: adjust_for_bulk_edits_def lookup_def)
  next
    case 2
    then show ?thesis using assms(1) unfolding es_def[symmetric]
      by (auto simp: adjust_for_bulk_edits_def es_def[symmetric] adjust_in_turn_Nil option.map_ident)
  next
    case 3
    let ?ms' = "map (adjust_in_turn es) ms"
    let ?tr' = "tr\<lparr>it_root := build_from_sorted (sort_key marker_key ?ms')\<rparr>"
    have "map m_id ?ms' = map m_id ms" using valid by simp
    then have dist': "distinct (map m_id ?ms')" using ms(1) by (simp only:)
    have "it_ok \<lparr>it_root = build_from_sorted (sort_key marker_key ?ms'), it_next_id = it_next_id tr\<rparr>"
      by (rule build_it_ok[OF _ dist' _ sort_key_position]) (use ms(2) valid in \<open>auto simp: list_all_iff\<close>)
    then have "it_ok ?tr'" by (simp add: it_ok_def)
    moreover have "lookup (markers (it_root ?tr')) i = map_option (adjust_in_turn es) (lookup ms i)" for i
      using lookup_mset[of ?ms' "sort_key marker_key ?ms'", OF _ dist'] lookup_map[of ms "adjust_in_turn es"] valid
      by simp
    moreover have "adjust_for_bulk_edits tr edits = Some ?tr'"
      using 3 dist unfolding adjust_for_bulk_edits_def Let_def es_def[symmetric] new[unfolded ms_def] ms_def by simp
    ultimately show ?thesis unfolding es_def ms_def by auto
  qed
qed

subsection \<open>The edits one by one\<close>

fun adjust_each :: "IntervalTree \<Rightarrow> (int \<times> int) list \<Rightarrow> IntervalTree option" where
  "adjust_each tr [] = Some tr"
| "adjust_each tr ((pos, delta) # es) = do { tr1 \<leftarrow> adjust_for_edit tr pos delta; adjust_each tr1 es }"

definition is_point :: "Marker \<Rightarrow> bool" where
  "is_point m \<longleftrightarrow> m_start m = m_end m"

lemma moved_point: "moved pos delta m m' \<Longrightarrow> is_point m \<Longrightarrow> m' = adjust_marker pos delta m \<and> is_point m'"
proof -
  assume a: "moved pos delta m m'" "is_point m"
  have "moved pos delta m (adjust_marker pos delta m)" using a(2) by (simp add: moved_adjust_marker is_point_def)
  then show ?thesis using a unfolding moved_def is_point_def by (auto intro!: Marker.equality)
qed

lemma adjust_for_edit_lookup:
  assumes "it_ok tr" "0 \<le> pos"
  shows "\<exists>tr'. adjust_for_edit tr pos delta = Some tr' \<and> it_ok tr' \<and> it_next_id tr' = it_next_id tr \<and>
     (\<forall>i. rel_option (moved pos delta) (lookup (markers (it_root tr)) i) (lookup (markers (it_root tr')) i))"
proof -
  obtain tr' ms ms' where tr': "adjust_for_edit tr pos delta = Some tr'" "it_ok tr'" "it_next_id tr' = it_next_id tr"
    "mset ms = mset (markers (it_root tr))" "mset ms' = mset (markers (it_root tr'))"
    "list_all2 (moved pos delta) ms ms'"
    using adjust_for_edit_moves[OF assms] by blast
  have "lookup (markers (it_root tr)) = lookup ms" "lookup (markers (it_root tr')) = lookup ms'"
    using assms(1) tr'(2) by (intro lookup_mset; simp add: tr'(4,5) it_ok_def markers_ok_def)+
  then show ?thesis using tr' moved_lookup[OF tr'(6)] by auto
qed

lemma adjust_each_ok:
  assumes "it_ok tr" "list_all (\<lambda>(p, _). 0 \<le> p) es"
  shows "\<exists>tr'. adjust_each tr es = Some tr' \<and> it_ok tr' \<and> it_next_id tr' = it_next_id tr \<and>
     (\<forall>i. (lookup (markers (it_root tr)) i = None \<longrightarrow> lookup (markers (it_root tr')) i = None) \<and>
        (\<forall>m. lookup (markers (it_root tr)) i = Some m \<longrightarrow> is_point m \<longrightarrow>
           lookup (markers (it_root tr')) i = Some (adjust_in_turn (rev es) m)))"
  using assms
proof (induction es arbitrary: tr)
  case (Cons e es)
  obtain pos delta where e: "e = (pos, delta)" by (cases e)
  obtain tr1 where tr1: "adjust_for_edit tr pos delta = Some tr1" "it_ok tr1" "it_next_id tr1 = it_next_id tr"
    "\<And>i. rel_option (moved pos delta) (lookup (markers (it_root tr)) i) (lookup (markers (it_root tr1)) i)"
    using adjust_for_edit_lookup[OF Cons.prems(1), of pos delta] Cons.prems(2) e by auto
  obtain tr' where tr': "adjust_each tr1 es = Some tr'" "it_ok tr'" "it_next_id tr' = it_next_id tr1"
    "\<And>i. (lookup (markers (it_root tr1)) i = None \<longrightarrow> lookup (markers (it_root tr')) i = None) \<and>
        (\<forall>m. lookup (markers (it_root tr1)) i = Some m \<longrightarrow> is_point m \<longrightarrow>
           lookup (markers (it_root tr')) i = Some (adjust_in_turn (rev es) m))"
    using Cons.IH[OF tr1(2)] Cons.prems(2) by auto
  have "(lookup (markers (it_root tr)) i = None \<longrightarrow> lookup (markers (it_root tr')) i = None) \<and>
        (\<forall>m. lookup (markers (it_root tr)) i = Some m \<longrightarrow> is_point m \<longrightarrow>
           lookup (markers (it_root tr')) i = Some (adjust_in_turn (rev (e # es)) m))" for i
    using tr1(4)[of i] tr'(4)[of i] moved_point by (auto simp: e option_rel_Some1)
  then show ?case using tr1(1,3) tr'(1-3) by (simp add: e)
qed simp

lemma adjust_in_turn_point:
  assumes "is_point m"
  shows "m_start (adjust_in_turn (rev es) m) =
     foldl (\<lambda>s (pos, delta). adjusted_start pos delta (right_gravity m) s) (m_start m) es \<and>
     is_point (adjust_in_turn (rev es) m)"
  using assms
proof (induction es arbitrary: m)
  case (Cons e es)
  obtain pos delta where e: "e = (pos, delta)" by (cases e)
  have mv: "moved pos delta m (adjust_marker pos delta m)"
    using Cons.prems by (simp add: moved_adjust_marker is_point_def)
  then have "is_point (adjust_marker pos delta m)" using moved_point Cons.prems by blast
  then show ?case using Cons.IH[of "adjust_marker pos delta m"] moved_simps[OF mv] by (simp add: e)
qed simp

text \<open>Any batch, overlapping or not, keeps the invariant as long as no position is repeated.\<close>

lemma map_coord_nonneg: "0 \<le> c \<Longrightarrow> 0 \<le> map_coord c lg es ps"
  by (simp add: map_coord_def Let_def case_prod_unfold)

lemma bulk_adjust_marker_valid:
  assumes "0 \<le> m_start m"
  shows "m_id (bulk_adjust_marker es ps m) = m_id m" "0 \<le> m_start (bulk_adjust_marker es ps m)"
    "m_start (bulk_adjust_marker es ps m) \<le> m_end (bulk_adjust_marker es ps m)"
  using assms by (simp_all add: bulk_adjust_marker_def Let_def map_coord_nonneg)

lemma adjust_for_bulk_edits_it_ok:
  assumes "it_ok tr" "distinct (map fst (filter (\<lambda>(_, d). d \<noteq> 0) edits))"
  shows "\<exists>tr'. adjust_for_bulk_edits tr edits = Some tr' \<and> it_ok tr' \<and> it_next_id tr' = it_next_id tr \<and>
     m_id ` set (markers (it_root tr')) = m_id ` set (markers (it_root tr))"
proof -
  define es where "es = sort_key fst (filter (\<lambda>(_, d). d \<noteq> 0) edits)"
  define ms where "ms = markers (it_root tr)"
  define ms' where "ms' = map (bulk_adjust_marker es (prefix_sums 0 es)) ms"
  have "mset (map fst es) = mset (map fst (filter (\<lambda>(_, d). d \<noteq> 0) edits))" by (simp add: es_def)
  then have dist: "distinct (map fst es)" using assms(2) by (metis mset_eq_imp_distinct_iff)
  have ms: "distinct (map m_id ms)"
    "\<forall>m\<in>set ms. m_id m < it_next_id tr \<and> 0 \<le> m_start m \<and> m_start m \<le> m_end m"
    using assms(1) by (auto simp: it_ok_def markers_ok_def ms_def list_all_iff)
  have ids: "map m_id ms' = map m_id ms" using ms(2) by (simp add: ms'_def bulk_adjust_marker_valid)
  have dist': "distinct (map m_id ms')" unfolding ids by (rule ms(1))
  have valid: "list_all (\<lambda>m. m_id m < it_next_id tr \<and> 0 \<le> m_start m \<and> m_start m \<le> m_end m) ms'"
    using ms(2) by (simp add: ms'_def list_all_iff bulk_adjust_marker_valid)
  let ?tr' = "tr\<lparr>it_root := build_from_sorted (sort_key marker_key ms')\<rparr>"
  have "it_ok \<lparr>it_root = build_from_sorted (sort_key marker_key ms'), it_next_id = it_next_id tr\<rparr>"
    by (rule build_it_ok[OF _ dist' valid sort_key_position]) simp
  then have "it_ok ?tr'" by (simp add: it_ok_def)
  moreover have "m_id ` set (markers (it_root ?tr')) = m_id ` set ms" using arg_cong[OF ids, of set] by simp
  moreover have "adjust_for_bulk_edits tr edits = Some (if it_root tr = Tip \<or> es = [] then tr else ?tr')"
    using dist unfolding adjust_for_bulk_edits_def Let_def es_def[symmetric] ms'_def ms_def by simp
  ultimately show ?thesis using assms(1) by (auto simp: ms_def)
qed

subsection \<open>Inserting many markers\<close>

lemma number_markers_ids: "map m_id (number_markers i ivs) = [i..<i + length ivs]"
proof (induction i ivs rule: number_markers.induct)
  case (2 i s f ivs)
  then show ?case by (simp add: upt_conv_Cons del: upt_Suc)
qed simp

definition intervals_ok :: "(int \<times> int) list \<Rightarrow> bool" where
  "intervals_ok ivs \<longleftrightarrow> list_all (\<lambda>(s, e). 0 \<le> s \<and> s \<le> e) ivs"

lemma number_markers_ok:
  "intervals_ok ivs \<Longrightarrow> m \<in> set (number_markers i ivs) \<Longrightarrow>
     i \<le> m_id m \<and> m_id m < i + length ivs \<and> 0 \<le> m_start m \<and> m_start m \<le> m_end m"
  by (induction i ivs rule: number_markers.induct) (auto simp: intervals_ok_def)

lemma it_insert_ok:
  assumes "it_ok tr" "0 \<le> s" "s \<le> e"
  shows "\<exists>tr'. insert_full tr s e ty g ord = Some (tr', it_next_id tr) \<and> it_ok tr' \<and>
     it_next_id tr' = it_next_id tr + 1 \<and>
     mset (markers (it_root tr')) = add_mset \<lparr>m_id = it_next_id tr, m_start = s, m_end = e, m_type = ty,
       right_gravity = g, m_order = ord\<rparr> (mset (markers (it_root tr)))"
proof -
  let ?m = "\<lparr>m_id = it_next_id tr, m_start = s, m_end = e, m_type = ty, right_gravity = g, m_order = ord\<rparr>"
  have "m_id ?m \<notin> m_id ` set (markers (it_root tr))"
    using assms(1) by (auto simp: it_ok_def markers_ok_def list_all_iff)
  then obtain t' xs ys where "insert_recursive (it_root tr) ?m = Some t'" "markers (it_root tr) = xs @ ys"
    "markers t' = xs @ ?m # ys" "it_ok \<lparr>it_root = t', it_next_id = it_next_id tr + 1\<rparr>"
    using insert_marker_ok[OF assms(1), of ?m "it_next_id tr + 1"] assms(2,3) by auto
  then show ?thesis by (simp add: insert_full_def Let_def)
qed

lemma insert_each_ok:
  assumes "it_ok tr" "intervals_ok ivs"
  shows "\<exists>tr'. insert_each tr ivs = Some (tr', [it_next_id tr..<it_next_id tr + length ivs]) \<and> it_ok tr' \<and>
     it_next_id tr' = it_next_id tr + length ivs \<and>
     mset (markers (it_root tr')) = mset (markers (it_root tr)) + mset (number_markers (it_next_id tr) ivs)"
  using assms
proof (induction ivs arbitrary: tr)
  case (Cons iv ivs)
  obtain s e where iv: "iv = (s, e)" by (cases iv)
  obtain tr1 where tr1: "it_insert tr s e = Some (tr1, it_next_id tr)" "it_ok tr1" "it_next_id tr1 = it_next_id tr + 1"
    "mset (markers (it_root tr1)) = add_mset \<lparr>m_id = it_next_id tr, m_start = s, m_end = e, m_type = Position_Marker,
       right_gravity = True, m_order = 0\<rparr> (mset (markers (it_root tr)))"
    using it_insert_ok[OF Cons.prems(1), of s e Position_Marker True 0] Cons.prems(2)
    by (auto simp: it_insert_def iv intervals_ok_def)
  then show ?case using Cons.IH[of tr1] Cons.prems(2)
    by (auto simp: iv intervals_ok_def upt_conv_Cons simp del: upt_Suc)
qed simp

lemma insert_many_ok:
  assumes "it_ok tr" "intervals_ok ivs"
  shows "\<exists>tr'. insert_many tr ivs = Some (tr', [it_next_id tr..<it_next_id tr + length ivs]) \<and> it_ok tr' \<and>
     it_next_id tr' = it_next_id tr + length ivs \<and>
     mset (markers (it_root tr')) = mset (markers (it_root tr)) + mset (number_markers (it_next_id tr) ivs)"
proof -
  define n where "n = it_next_id tr"
  let ?ms = "markers (it_root tr) @ number_markers n ivs"
  have old: "\<forall>m\<in>set (markers (it_root tr)). m_id m < n \<and> 0 \<le> m_start m \<and> m_start m \<le> m_end m"
    "distinct (map m_id (markers (it_root tr)))"
    using assms(1) by (auto simp: it_ok_def markers_ok_def list_all_iff n_def)
  have "distinct (map m_id ?ms)" using old number_markers_ids[of n ivs]
    by (auto simp: distinct_append dest: number_markers_ok[OF assms(2)])
  moreover have "list_all (\<lambda>m. m_id m < n + length ivs \<and> 0 \<le> m_start m \<and> m_start m \<le> m_end m) ?ms"
    using old(1) by (auto simp: list_all_iff dest: number_markers_ok[OF assms(2)])
  ultimately have "it_ok \<lparr>it_root = build_from_sorted (sort_key marker_key ?ms), it_next_id = n + length ivs\<rparr>"
    by (intro build_it_ok[of _ ?ms]) (simp_all add: sort_key_position)
  then show ?thesis using insert_each_ok[OF assms] assms(1)
    by (auto simp: insert_many_def Let_def n_def number_markers_ids)
qed

end
