(* ===== verification/Marker_Query.thy ===== *)
theory Marker_Query
  imports Marker_Bulk
begin

text \<open>
  What the queries of the marker tree answer (\<open>model/marker_tree.rs\<close>). The order statistics
  \<open>count_before\<close>, \<open>nth\<close> and \<open>in_range\<close> read the list of markers in order, whatever shifts are still
  pending. The overlap query is exact on a settled tree, one with no pending shift and right
  \<open>max_end\<close> fields, which creation, deletion, deletions of text and both rebuilds keep; the shift that an
  insertion of text leaves pending makes it miss markers. The height of the tree is logarithmic.
\<close>

subsection \<open>Order statistics\<close>

lemma position_sorted_append:
  "position_sorted (xs @ m # ys) \<longleftrightarrow> position_sorted xs \<and> position_sorted ys \<and>
     (\<forall>x\<in>set xs. m_start x \<le> m_start m) \<and> (\<forall>y\<in>set ys. m_start m \<le> m_start y)"
  unfolding position_sorted_def by (auto simp: sorted_wrt_append intro: order_trans)

lemma filter_none: "(\<And>x. x \<in> set xs \<Longrightarrow> \<not> P x) \<Longrightarrow> filter P xs = []"
  by (induction xs) auto

lemma filter_mset_none: "(\<And>x. x \<in> set xs \<Longrightarrow> \<not> P x) \<Longrightarrow> filter_mset P (mset xs) = {#}"
  by (simp add: filter_none flip: mset_filter)

lemma filter_all: "(\<And>x. x \<in> set xs \<Longrightarrow> P x) \<Longrightarrow> filter P xs = xs"
  by (induction xs) auto

lemma count_before_from_eq:
  assumes "tree_ok t" "position_sorted (collect_nodes_in_order t d)"
  shows "count_before_from t d pos n = n + length (filter (\<lambda>m. m_start m < pos) (collect_nodes_in_order t d))"
  using assms
proof (induction t arbitrary: d n)
  case (Node l m h e s z r)
  have len: "node_size l = length (collect_nodes_in_order l (d + z))"
    using Node.prems(1) tree_ok_size count_nodes_length by simp
  note srt = Node.prems(2)[simplified position_sorted_append collect_nodes_in_order.simps]
  show ?case
  proof (cases "m_start m + (d + z) < pos")
    case True
    then have "filter (\<lambda>m. m_start m < pos) (collect_nodes_in_order l (d + z)) = collect_nodes_in_order l (d + z)"
      using srt by (intro filter_all) force
    then show ?thesis using True Node srt len by simp
  next
    case False
    then have "filter (\<lambda>m. m_start m < pos) (collect_nodes_in_order r (d + z)) = []"
      using srt by (intro filter_none) force
    then show ?thesis using False Node srt by simp
  qed
qed simp

lemma count_before_eq:
  "it_ok tr \<Longrightarrow> count_before tr pos = length (filter (\<lambda>m. m_start m < pos) (markers (it_root tr)))"
  by (simp add: count_before_def count_before_from_eq it_ok_def markers_ok_def)

lemma nth_from_eq:
  assumes "tree_ok t"
  shows "nth_from t d k =
    (if k < length (collect_nodes_in_order t d) then Some (collect_nodes_in_order t d ! k) else None)"
  using assms
proof (induction t arbitrary: d k)
  case (Node l m h e s z r)
  have "node_size l = length (collect_nodes_in_order l (d + z))"
    using Node.prems(1) tree_ok_size count_nodes_length by simp
  then show ?case using Node by (auto simp: nth_append nth_Cons')
qed simp

lemma it_nth_eq:
  "it_ok tr \<Longrightarrow> it_nth tr k =
     (if k < length (markers (it_root tr)) then Some (markers (it_root tr) ! k) else None)"
  by (simp add: it_nth_def nth_from_eq it_ok_def)

lemma in_range_recursive_eq:
  assumes "position_sorted (collect_nodes_in_order t d)"
  shows "in_range_recursive t d lo hi =
    filter (\<lambda>m. lo \<le> m_start m \<and> m_start m < hi) (collect_nodes_in_order t d)"
  using assms
proof (induction t arbitrary: d)
  case (Node l m h e s z r)
  let ?P = "\<lambda>m. lo \<le> m_start m \<and> m_start m < hi"
  note srt = Node.prems(1)[simplified position_sorted_append collect_nodes_in_order.simps]
  have l: "(if lo \<le> m_start m + (d + z) then in_range_recursive l (d + z) lo hi else []) =
      filter ?P (collect_nodes_in_order l (d + z))"
  proof (cases "lo \<le> m_start m + (d + z)")
    case False
    then have "filter ?P (collect_nodes_in_order l (d + z)) = []" using srt by (intro filter_none) force
    then show ?thesis using False by simp
  qed (use srt Node.IH(1) in simp)
  have r: "(if m_start m + (d + z) < hi then in_range_recursive r (d + z) lo hi else []) =
      filter ?P (collect_nodes_in_order r (d + z))"
  proof (cases "m_start m + (d + z) < hi")
    case False
    then have "filter ?P (collect_nodes_in_order r (d + z)) = []" using srt by (intro filter_none) force
    then show ?thesis using False by simp
  qed (use srt Node.IH(2) in simp)
  show ?case unfolding in_range_recursive.simps Let_def l r by simp
qed simp

lemma in_range_eq:
  "it_ok tr \<Longrightarrow> in_range tr start fin =
     filter (\<lambda>m. start \<le> m_start m \<and> m_start m < fin) (markers (it_root tr))"
  by (cases "start < fin")
     (auto simp: in_range_def in_range_recursive_eq it_ok_def markers_ok_def intro!: filter_none[symmetric])

lemma it_len_eq: "it_ok tr \<Longrightarrow> it_len tr = length (markers (it_root tr))"
  using tree_ok_size count_nodes_length by (simp add: it_len_def it_ok_def)

subsection \<open>Height\<close>

lemma avl_height_bound:
  "tree_ok t \<Longrightarrow> 2 ^ (nat (node_height t) div 2) \<le> node_size t + 1"
proof (induction "nat (node_height t)" arbitrary: t rule: less_induct)
  case less
  show ?case
  proof (cases t)
    case (Node l m h e s z r)
    have ok: "tree_ok l" "tree_ok r" "h = 1 + max (node_height l) (node_height r)"
      "s = 1 + node_size l + node_size r" "\<bar>node_height l - node_height r\<bar> \<le> 1"
      using less.prems Node by auto
    have h0: "0 \<le> node_height l" "0 \<le> node_height r" using ok tree_ok_height by auto
    have ih: "2 ^ (nat (node_height l) div 2) \<le> node_size l + 1" "2 ^ (nat (node_height r) div 2) \<le> node_size r + 1"
      using less.hyps[of l] less.hyps[of r] ok(1-3) h0 Node by (simp_all add: max_def split: if_splits)
    show ?thesis
    proof (cases "h \<le> 1")
      case True
      then show ?thesis using h0 ok Node by simp
    next
      case False
      let ?k = "nat (h - 2) div 2"
      have "?k \<le> nat (node_height l) div 2" "?k \<le> nat (node_height r) div 2"
        using ok h0 by (auto intro!: div_le_mono)
      then have "2 ^ ?k \<le> node_size l + 1" "2 ^ ?k \<le> node_size r + 1"
        using ih power_increasing[of ?k _ "2::nat"] by (meson le_trans one_le_numeral)+
      moreover have "nat h div 2 = Suc ?k" using False by (simp add: nat_diff_distrib)
      ultimately show ?thesis using ok Node by simp
    qed
  qed simp
qed

subsection \<open>The overlap query\<close>

abbreviation overlaps :: "int \<Rightarrow> int \<Rightarrow> Marker \<Rightarrow> bool" where
  "overlaps qs qe m \<equiv> m_start m \<le> qe \<and> qs \<le> m_end m"

text \<open>The query pushes pending shifts on its way and changes nothing else; what it returns overlaps.\<close>

lemma query_recursive_Node:
  assumes "push_delta t = Node l m h e s z r"
  shows "query_recursive t qs qe =
    ((if overlaps qs qe m then [m] else []) @
       (if l \<noteq> Tip \<and> qs \<le> max_end_or_0 l then fst (query_recursive l qs qe) else []) @
       (if r \<noteq> Tip \<and> m_start m \<le> qe then fst (query_recursive r qs qe) else []),
     Node (if l \<noteq> Tip \<and> qs \<le> max_end_or_0 l then snd (query_recursive l qs qe) else l) m h e s z
       (if r \<noteq> Tip \<and> m_start m \<le> qe then snd (query_recursive r qs qe) else r))"
  by (subst query_recursive.simps) (simp add: assms case_prod_beta Let_def)

lemma query_recursive_tree:
  assumes "tree_ok t"
  shows "tree_ok (snd (query_recursive t qs qe)) \<and> markers (snd (query_recursive t qs qe)) = markers t \<and>
    node_height (snd (query_recursive t qs qe)) = node_height t \<and>
    node_size (snd (query_recursive t qs qe)) = node_size t"
  using assms
proof (induction "count_nodes t" arbitrary: t rule: less_induct)
  case less
  show ?case
  proof (cases "push_delta t")
    case Tip
    then have "t = Tip" by (cases t) (auto simp: Let_def split: if_splits)
    then show ?thesis by (simp add: query_recursive.simps)
  next
    case (Node l m h e s z r)
    note p = tree_ok_pushed[OF less.prems Node]
    have cnt: "count_nodes l < count_nodes t" "count_nodes r < count_nodes t"
      using p(7) count_nodes_length[of _ 0] by simp_all
    have s: "node_size t = s" using p(7,9) tree_ok_size[OF less.prems] tree_ok_size[OF p(9)] count_nodes_length[of _ 0]
      by (simp add: p(3))
    show ?thesis unfolding query_recursive_Node[OF Node]
      using less.hyps[OF cnt(1) p(1)] less.hyps[OF cnt(2) p(2)] p(1-8) p(9)[unfolded tree_ok.simps] s
      by (simp split del: if_split split: if_splits) (auto split: if_splits)
  qed
qed

lemma query_tree:
  assumes "it_ok tr"
  shows "it_ok (snd (query tr qs qe))" "markers (it_root (snd (query tr qs qe))) = markers (it_root tr)"
  using assms query_recursive_tree[of "it_root tr" qs qe]
  by (simp_all add: query_def it_ok_def case_prod_beta)

lemma query_recursive_sound:
  assumes "tree_ok t"
  shows "mset (fst (query_recursive t qs qe)) \<subseteq># filter_mset (overlaps qs qe) (mset (markers t))"
  using assms
proof (induction "count_nodes t" arbitrary: t rule: less_induct)
  case less
  show ?case
  proof (cases "push_delta t")
    case Tip
    then have "t = Tip" by (cases t) (auto simp: Let_def split: if_splits)
    then show ?thesis by (simp add: query_recursive.simps)
  next
    case (Node l m h e s z r)
    note p = tree_ok_pushed[OF less.prems Node]
    have cnt: "count_nodes l < count_nodes t" "count_nodes r < count_nodes t"
      using p(7) count_nodes_length[of _ 0] by simp_all
    have part: "mset (if b then xs else []) \<subseteq># M" if "mset xs \<subseteq># M" for b and xs :: "Marker list" and M
      using that by simp
    have own: "mset (if overlaps qs qe m then [m] else []) \<subseteq># filter_mset (overlaps qs qe) {#m#}" by simp
    note sub = subset_mset.add_mono[OF own subset_mset.add_mono
        [OF part[OF less.hyps[OF cnt(1) p(1)]] part[OF less.hyps[OF cnt(2) p(2)]]]]
    have eq: "filter_mset (overlaps qs qe) (mset (markers t)) = filter_mset (overlaps qs qe) {#m#} +
        (filter_mset (overlaps qs qe) (mset (markers l)) + filter_mset (overlaps qs qe) (mset (markers r)))"
      unfolding p(7) by simp
    show ?thesis unfolding query_recursive_Node[OF Node] fst_conv mset_append eq by (rule sub)
  qed
qed

subsection \<open>Settled trees\<close>

fun settled :: "MarkerNode \<Rightarrow> bool" where
  "settled Tip \<longleftrightarrow> True"
| "settled (Node l m h e s z r) \<longleftrightarrow>
     z = 0 \<and> m_end m \<le> e \<and> (l = Tip \<or> max_end_or_0 l \<le> e) \<and> (r = Tip \<or> max_end_or_0 r \<le> e) \<and>
     settled l \<and> settled r"

lemma settled_max_end: "settled t \<Longrightarrow> m \<in> set (markers t) \<Longrightarrow> m_end m \<le> max_end_or_0 t"
proof (induction t)
  case (Node l k h e s z r)
  then have z: "z = 0" by simp
  consider "m = k" | "m \<in> set (markers l)" | "m \<in> set (markers r)" using Node.prems(2) z by auto
  then show ?case
  proof cases
    case 2
    then have "l \<noteq> Tip" "m_end m \<le> max_end_or_0 l" using Node by auto
    then show ?thesis using Node.prems by simp
  next
    case 3
    then have "r \<noteq> Tip" "m_end m \<le> max_end_or_0 r" using Node by auto
    then show ?thesis using Node.prems by simp
  qed (use Node.prems in simp)
qed simp

lemma settled_push [simp]: "settled t \<Longrightarrow> push_delta t = t"
  by (cases t) (auto simp: push_delta.simps simp del: push_delta_eq)

lemma settled_update_stats: "settled l \<Longrightarrow> settled r \<Longrightarrow> settled (update_stats (Node l m h e s 0 r))"
  by (simp add: max_def)

lemma push_delta_0 [simp]: "push_delta (Node l m h e s 0 r) = Node l m h e s 0 r"
  by (simp add: push_delta.simps del: push_delta_eq)

lemma settled_rotate_left:
  assumes "settled l" "settled r" "rotate_left (Node l m h e s 0 r) = Some t'"
  shows "settled t'"
proof (cases r)
  case (Node a k h' e' s' z b)
  then have "z = 0" "settled a" "settled b" using assms by auto
  moreover have "t' = update_stats (Node (update_stats (Node l m h e s 0 a)) k h' e' s' 0 b)"
    using assms(3) Node calculation(1) by (simp add: rotate_left_def del: push_delta_eq update_stats.simps)
  ultimately show ?thesis using assms(1,2) by (auto intro!: settled_update_stats simp del: update_stats.simps)
qed (use assms in \<open>simp add: rotate_left_def del: push_delta_eq\<close>)

lemma settled_rotate_right:
  assumes "settled l" "settled r" "rotate_right (Node l m h e s 0 r) = Some t'"
  shows "settled t'"
proof (cases l)
  case (Node a k h' e' s' z b)
  then have "z = 0" "settled a" "settled b" using assms by auto
  moreover have "t' = update_stats (Node a k h' e' s' 0 (update_stats (Node b m h e s 0 r)))"
    using assms(3) Node calculation(1) by (simp add: rotate_right_def del: push_delta_eq update_stats.simps)
  ultimately show ?thesis using assms(1,2) by (auto intro!: settled_update_stats simp del: update_stats.simps)
qed (use assms in \<open>simp add: rotate_right_def del: push_delta_eq\<close>)

lemma query_recursive_settled:
  assumes "settled t" "position_sorted (markers t)"
  shows "mset (fst (query_recursive t qs qe)) = filter_mset (overlaps qs qe) (mset (markers t))"
  using assms
proof (induction t)
  case (Node l m h e s z r)
  have push: "push_delta (Node l m h e s z r) = Node l m h e s z r" by (rule settled_push[OF Node.prems(1)])
  have z: "z = 0" using Node.prems by simp
  have srt: "position_sorted (markers l)" "position_sorted (markers r)" "\<forall>y\<in>set (markers r). m_start m \<le> m_start y"
    using Node.prems z by (auto simp: position_sorted_append)
  have l: "filter_mset (overlaps qs qe) (mset (markers l)) = {#}" if "\<not> qs \<le> max_end_or_0 l"
    using settled_max_end[of l] Node.prems(1) that by (intro filter_mset_none) force
  have r: "filter_mset (overlaps qs qe) (mset (markers r)) = {#}" if "\<not> m_start m \<le> qe"
    using srt(3) that by (intro filter_mset_none) force
  show ?case unfolding query_recursive_Node[OF push] using Node z l r srt by (auto simp: query_recursive.simps)
qed (simp add: query_recursive.simps)

lemma settled_rotated_left:
  assumes "settled t" "rotate_left t = Some t'"
  shows "settled t'"
proof (cases t)
  case (Node l m h e s z r)
  then have "settled l" "settled r" "rotate_left (Node l m h e s 0 r) = Some t'" using assms by auto
  then show ?thesis by (rule settled_rotate_left)
qed (use assms in \<open>simp add: rotate_left_def\<close>)

lemma settled_rotated_right:
  assumes "settled t" "rotate_right t = Some t'"
  shows "settled t'"
proof (cases t)
  case (Node l m h e s z r)
  then have "settled l" "settled r" "rotate_right (Node l m h e s 0 r) = Some t'" using assms by auto
  then show ?thesis by (rule settled_rotate_right)
qed (use assms in \<open>simp add: rotate_right_def\<close>)

lemma settled_balance:
  assumes "settled t" "balance t = Some t'"
  shows "settled t'"
proof (cases t)
  case (Node l m h e s z r)
  then have s: "settled l" "settled r" "z = 0" using assms(1) by auto
  note bal = assms(2)[unfolded balance_def Node MarkerNode.case, folded Node]
  show ?thesis
  proof (cases "balance_factor t > 1")
    case True
    then obtain l' where l': "(if balance_factor l < 0 then rotate_left l else Some l) = Some l'"
        "rotate_right (Node l' m h e s z r) = Some t'"
      using bal by (simp only: if_True if_False option.distinct bind_eq_Some_conv split: if_split_asm) blast+
    have "settled l'" using l'(1) s(1) settled_rotated_left[of l l'] by (simp split: if_split_asm)
    then show ?thesis using settled_rotate_right[OF _ s(2)] l'(2) s(3) by blast
  next
    case left: False
    show ?thesis
    proof (cases "balance_factor t < - 1")
      case True
      then obtain r' where r': "(if balance_factor r > 0 then rotate_right r else Some r) = Some r'"
          "rotate_left (Node l m h e s z r') = Some t'"
        using bal left by (simp only: if_True if_False option.distinct bind_eq_Some_conv split: if_split_asm) blast+
      have "settled r'" using r'(1) s(2) settled_rotated_right[of r r'] by (simp split: if_split_asm)
      then show ?thesis using settled_rotate_left[OF s(1)] r'(2) s(3) by blast
    next
      case False
      then show ?thesis using bal left assms(1) by (simp only: if_False option.inject)
    qed
  qed
qed (use assms in \<open>simp add: balance_def\<close>)

lemma settled_rebalanced:
  assumes "settled l" "settled r" "balance (update_stats (Node l m h e s 0 r)) = Some t'"
  shows "settled t'"
  using settled_balance[OF settled_update_stats[OF assms(1,2)] assms(3)] .

lemma insert_recursive_0:
  "insert_recursive (Node l k h e s 0 r) m =
     (if marker_key m < marker_key k
      then Option.bind (insert_recursive l m) (\<lambda>l'. balance (update_stats (Node l' k h e s 0 r)))
      else Option.bind (insert_recursive r m) (\<lambda>r'. balance (update_stats (Node l k h e s 0 r'))))"
  by (subst insert_recursive.simps) (simp only: push_delta_0 MarkerNode.case)

lemma settled_insert_recursive: "settled t \<Longrightarrow> insert_recursive t m = Some t' \<Longrightarrow> settled t'"
proof (induction t arbitrary: t')
  case Tip
  then show ?case by (subst (asm) insert_recursive.simps) (auto simp: node_new_def)
next
  case (Node l k h e s z r)
  have z: "z = 0" "settled l" "settled r" using Node.prems(1) by auto
  note ins = Node.prems(2)[unfolded z(1) insert_recursive_0]
  show ?case
  proof (cases "marker_key m < marker_key k")
    case True
    then obtain l' where l': "insert_recursive l m = Some l'" "balance (update_stats (Node l' k h e s 0 r)) = Some t'"
      using ins by (simp only: if_True bind_eq_Some_conv) blast
    show ?thesis by (rule settled_rebalanced[OF Node.IH(1)[OF z(2) l'(1)] z(3) l'(2)])
  next
    case False
    then obtain r' where r': "insert_recursive r m = Some r'" "balance (update_stats (Node l k h e s 0 r')) = Some t'"
      using ins by (simp only: if_False bind_eq_Some_conv) blast
    show ?thesis by (rule settled_rebalanced[OF z(2) Node.IH(2)[OF z(3) r'(1)] r'(2)])
  qed
qed

lemma remove_min_0:
  "remove_min (Node l m h e s 0 r) =
     (if l = Tip then Some (m, r)
      else Option.bind (remove_min l) (\<lambda>(k, l').
             Option.bind (balance (update_stats (Node l' m h e s 0 r))) (\<lambda>t'. Some (k, t'))))"
  by (subst remove_min.simps) (simp only: push_delta_0 MarkerNode.case)

lemma settled_remove_min: "settled t \<Longrightarrow> remove_min t = Some (k, t') \<Longrightarrow> settled t'"
proof (induction t arbitrary: t')
  case Tip
  then show ?case by (subst (asm) remove_min.simps) simp
next
  case (Node l m h e s z r)
  have z: "z = 0" "settled l" "settled r" using Node.prems(1) by auto
  note rem = Node.prems(2)[unfolded z(1) remove_min_0]
  show ?case
  proof (cases "l = Tip")
    case True
    then show ?thesis using rem z(3) by simp
  next
    case False
    then obtain l' where l': "remove_min l = Some (k, l')" "balance (update_stats (Node l' m h e s 0 r)) = Some t'"
      using rem by (auto simp only: if_False bind_eq_Some_conv split: prod.split_asm)
    show ?thesis by (rule settled_rebalanced[OF Node.IH(1)[OF z(2) l'(1)] z(3) l'(2)])
  qed
qed

lemma remove_node_0:
  "remove_node (Node l m h e s 0 r) i =
     (if m_id m = i then
        (if l \<noteq> Tip \<and> r \<noteq> Tip
         then Option.bind (remove_min r) (\<lambda>(k, r'). balance (update_stats (Node l k h e s 0 r')))
         else Some (if l \<noteq> Tip then l else r))
      else if has_id l i then Option.bind (remove_node l i) (\<lambda>l'. balance (update_stats (Node l' m h e s 0 r)))
      else Option.bind (remove_node r i) (\<lambda>r'. balance (update_stats (Node l m h e s 0 r'))))"
  by (subst remove_node.simps) (simp only: push_delta_0 MarkerNode.case)

lemma settled_remove_node: "settled t \<Longrightarrow> remove_node t i = Some t' \<Longrightarrow> settled t'"
proof (induction t arbitrary: t')
  case Tip
  then show ?case by (subst (asm) remove_node.simps) simp
next
  case (Node l m h e s z r)
  have z: "z = 0" "settled l" "settled r" using Node.prems(1) by auto
  consider (both) k r' where "remove_min r = Some (k, r')" "balance (update_stats (Node l k h e s 0 r')) = Some t'"
    | (one) "t' = l \<or> t' = r"
    | (left) l' where "remove_node l i = Some l'" "balance (update_stats (Node l' m h e s 0 r)) = Some t'"
    | (right) r' where "remove_node r i = Some r'" "balance (update_stats (Node l m h e s 0 r')) = Some t'"
    using Node.prems(2)[unfolded z(1) remove_node_0]
    by (auto simp: bind_eq_Some_conv simp del: update_stats.simps split: if_split_asm)
  then show ?case
  proof cases
    case both
    show ?thesis by (rule settled_rebalanced[OF z(2) settled_remove_min[OF z(3) both(1)] both(2)])
  next
    case left
    show ?thesis by (rule settled_rebalanced[OF Node.IH(1)[OF z(2) left(1)] z(3) left(2)])
  next
    case right
    show ?thesis by (rule settled_rebalanced[OF z(2) Node.IH(2)[OF z(3) right(1)] right(2)])
  qed (use z in blast)
qed

lemma settled_delete: "settled (it_root tr) \<Longrightarrow> it_delete tr i = Some (tr', b) \<Longrightarrow> settled (it_root tr')"
  by (auto simp: it_delete_def split: if_splits intro: settled_remove_node)

lemma settled_insert: "settled (it_root tr) \<Longrightarrow> insert_full tr s e ty g ord = Some (tr', i) \<Longrightarrow> settled (it_root tr')"
  by (auto simp: insert_full_def Let_def bind_eq_Some_conv intro: settled_insert_recursive)

lemma settled_build: "settled (build_from_sorted ms)"
proof (induction "length ms" arbitrary: ms rule: less_induct)
  case less
  show ?case
  proof (cases "ms = []")
    case False
    have "settled (build_from_sorted (take (length ms div 2) ms))"
      "settled (build_from_sorted (drop (length ms div 2 + 1) ms))"
      using half_less[OF False] by (rule_tac [!] less) (linarith | simp)+
    then show ?thesis using False
      by (subst build_from_sorted.simps) (simp only: if_False Let_def settled_update_stats)
  qed (subst build_from_sorted.simps, simp)
qed

lemma settled_adjust_recursive: "settled t \<Longrightarrow> delta < 0 \<Longrightarrow> settled (adjust_recursive t pos delta)"
proof (induction t)
  case (Node l m h e s z r)
  have z: "z = 0" "settled l" "settled r" using Node.prems(1) by auto
  have "settled (if pos \<le> m_start m then adjust_recursive l pos delta else l)"
    "settled (if pos < m_start m \<and> 0 \<le> delta then add_lazy delta r else adjust_recursive r pos delta)"
    using Node z by auto
  then show ?case unfolding z(1) adjust_recursive_Node[OF push_delta_0] by (rule settled_update_stats)
qed simp

lemma settled_adjust_for_edit:
  assumes "settled (it_root tr)" "delta < 0" "adjust_for_edit tr pos delta = Some tr'"
  shows "settled (it_root tr')"
  using assms settled_adjust_recursive[OF assms(1,2), of pos] by (auto simp: adjust_for_edit_def)

lemma settled_insert_each:
  "settled (it_root tr) \<Longrightarrow> insert_each tr ivs = Some (tr', is) \<Longrightarrow> settled (it_root tr')"
proof (induction tr ivs arbitrary: "is" rule: insert_each.induct)
  case (2 tr s e ivs)
  obtain tr1 i is' where t: "it_insert tr s e = Some (tr1, i)" "insert_each tr1 ivs = Some (tr', is')"
    using 2(3) by (auto simp: bind_eq_Some_conv)
  have "settled (it_root tr1)" using settled_insert[OF 2(2)] t(1) by (simp add: it_insert_def)
  then show ?case using 2(1)[OF t(1) refl _ t(2)] by simp
qed simp

lemma settled_insert_many:
  assumes "settled (it_root tr)" "insert_many tr ivs = Some (tr', is)"
  shows "settled (it_root tr')"
  using assms settled_insert_each[OF assms(1)] settled_build
  by (auto simp: insert_many_def Let_def split: if_splits)

lemma settled_adjust_each:
  "settled (it_root tr) \<Longrightarrow> list_all (\<lambda>(_, d). d < 0) es \<Longrightarrow> adjust_each tr es = Some tr' \<Longrightarrow> settled (it_root tr')"
  by (induction tr es rule: adjust_each.induct) (auto simp: bind_eq_Some_conv intro: settled_adjust_for_edit)

lemma settled_bulk_edits:
  "settled (it_root tr) \<Longrightarrow> adjust_for_bulk_edits tr es = Some tr' \<Longrightarrow> settled (it_root tr')"
  by (auto simp: adjust_for_bulk_edits_def Let_def settled_build split: if_splits)

lemma query_recursive_id: "settled t \<Longrightarrow> snd (query_recursive t qs qe) = t"
proof (induction t)
  case (Node l m h e s z r)
  have z: "z = 0" "settled l" "settled r" using Node.prems(1) by auto
  show ?case unfolding z(1) query_recursive_Node[OF push_delta_0] using Node.IH z by simp
qed (simp add: query_recursive.simps)

end
