(* ===== verification/Marker_List.thy ===== *)
theory Marker_List
  imports Marker_Query "HOL-Library.AList"
begin

text \<open>
  The list of markers that the editor uses (\<open>model/marker.rs\<close>): a wrapper around the tree with a map of
  affinities. Positions are \<open>usize\<close> at this level and \<open>u64\<close> in the tree; both are unbounded here, and \<open>Marker_Width\<close>
  shows for which numbers that is the same. Whatever sequence of operations is applied, the tree keeps its
  invariant and finds every node it expects; a bulk edit moves every point marker as its edits in turn,
  whichever of its two ways it takes.
\<close>

record MarkerList =
  ml_tree :: IntervalTree
  ml_affinity :: "(nat \<times> bool) list"

definition BULK_ADJUST_MIN_EDITS :: nat where
  "BULK_ADJUST_MIN_EDITS = 16"

definition ml_new :: MarkerList where
  "ml_new = \<lparr>ml_tree = it_new, ml_affinity = []\<rparr>"

definition ml_create :: "MarkerList \<Rightarrow> nat \<Rightarrow> (MarkerList \<times> nat) option" where
  "ml_create ml position = do {
     (tr, i) \<leftarrow> it_insert (ml_tree ml) (int position) (int position);
     Some (\<lparr>ml_tree = tr, ml_affinity = AList.update i False (ml_affinity ml)\<rparr>, i)
   }"

definition create_left_gravity :: "MarkerList \<Rightarrow> nat \<Rightarrow> (MarkerList \<times> nat) option" where
  "create_left_gravity ml position = do {
     (tr, i) \<leftarrow> insert_left_gravity (ml_tree ml) (int position) (int position);
     Some (\<lparr>ml_tree = tr, ml_affinity = AList.update i True (ml_affinity ml)\<rparr>, i)
   }"

definition create_ordered :: "MarkerList \<Rightarrow> nat \<Rightarrow> int \<Rightarrow> bool \<Rightarrow> (MarkerList \<times> nat) option" where
  "create_ordered ml position order left_gravity = do {
     (tr, i) \<leftarrow> insert_ordered (ml_tree ml) (int position) (int position) order (\<not> left_gravity);
     Some (\<lparr>ml_tree = tr, ml_affinity = AList.update i left_gravity (ml_affinity ml)\<rparr>, i)
   }"

definition create_span :: "MarkerList \<Rightarrow> nat \<Rightarrow> nat \<Rightarrow> (MarkerList \<times> nat) option" where
  "create_span ml start fin = do {
     (tr, i) \<leftarrow> it_insert (ml_tree ml) (int start) (int (max fin start));
     Some (\<lparr>ml_tree = tr, ml_affinity = AList.update i False (ml_affinity ml)\<rparr>, i)
   }"

text \<open>The three intervals of an overlay, and the ids taken three at a time.\<close>

fun overlay_intervals :: "(nat \<times> nat) list \<Rightarrow> (int \<times> int) list" where
  "overlay_intervals [] = []"
| "overlay_intervals ((start, fin) # ranges) =
     (int start, int start) # (int fin, int fin) # (int start, int (max fin start)) # overlay_intervals ranges"

fun take_triples :: "nat list \<Rightarrow> (nat \<times> bool) list \<Rightarrow> (nat \<times> nat \<times> nat) list \<times> (nat \<times> bool) list" where
  "take_triples (s # e # span # ids) affinity =
     (case take_triples ids (AList.update span False (AList.update e False (AList.update s False affinity)))
      of (out, affinity') \<Rightarrow> ((s, e, span) # out, affinity'))"
| "take_triples _ affinity = ([], affinity)"

definition create_overlay_markers_bulk ::
  "MarkerList \<Rightarrow> (nat \<times> nat) list \<Rightarrow> (MarkerList \<times> (nat \<times> nat \<times> nat) list) option" where
  "create_overlay_markers_bulk ml ranges = do {
     (tr, ids) \<leftarrow> insert_many (ml_tree ml) (overlay_intervals ranges);
     let (out, affinity) = take_triples ids (ml_affinity ml);
     Some (\<lparr>ml_tree = tr, ml_affinity = affinity\<rparr>, out)
   }"

definition ml_len :: "MarkerList \<Rightarrow> nat" where
  "ml_len ml = it_len (ml_tree ml)"

definition ml_is_empty :: "MarkerList \<Rightarrow> bool" where
  "ml_is_empty ml = it_is_empty (ml_tree ml)"

definition ml_count_before :: "MarkerList \<Rightarrow> nat \<Rightarrow> nat" where
  "ml_count_before ml position = count_before (ml_tree ml) (int position)"

definition count_in :: "MarkerList \<Rightarrow> nat \<Rightarrow> nat \<Rightarrow> nat" where
  "count_in ml start fin = ml_count_before ml fin - ml_count_before ml start"

definition ml_nth :: "MarkerList \<Rightarrow> nat \<Rightarrow> (nat \<times> nat) option" where
  "ml_nth ml k = map_option (\<lambda>m. (m_id m, nat (m_start m))) (it_nth (ml_tree ml) k)"

definition ml_in_range :: "MarkerList \<Rightarrow> nat \<Rightarrow> nat \<Rightarrow> (nat \<times> nat) list" where
  "ml_in_range ml start fin = map (\<lambda>m. (m_id m, nat (m_start m))) (in_range (ml_tree ml) (int start) (int fin))"

definition ml_delete :: "MarkerList \<Rightarrow> nat \<Rightarrow> MarkerList option" where
  "ml_delete ml i = do {
     (tr, _) \<leftarrow> it_delete (ml_tree ml) i;
     Some \<lparr>ml_tree = tr, ml_affinity = AList.delete i (ml_affinity ml)\<rparr>
   }"

definition ml_set_position :: "MarkerList \<Rightarrow> nat \<Rightarrow> nat \<Rightarrow> (MarkerList \<times> bool) option" where
  "ml_set_position ml i new_position = do {
     (tr, found) \<leftarrow> set_position (ml_tree ml) i (int new_position) (int new_position);
     Some (ml\<lparr>ml_tree := tr\<rparr>, found)
   }"

definition ml_get_position :: "MarkerList \<Rightarrow> nat \<Rightarrow> nat option" where
  "ml_get_position ml i = map_option (\<lambda>(start, _). nat start) (get_position (ml_tree ml) i)"

definition query_range :: "MarkerList \<Rightarrow> nat \<Rightarrow> nat \<Rightarrow> (nat \<times> nat \<times> nat) list \<times> MarkerList" where
  "query_range ml start fin =
     (case query (ml_tree ml) (int start) (int fin) of (ms, tr) \<Rightarrow>
        (map (\<lambda>m. (m_id m, nat (m_start m), nat (m_end m))) ms, ml\<lparr>ml_tree := tr\<rparr>))"

definition adjust_for_insert :: "MarkerList \<Rightarrow> nat \<Rightarrow> nat \<Rightarrow> MarkerList option" where
  "adjust_for_insert ml position len =
     (if len = 0 then Some ml
      else map_option (\<lambda>tr. ml\<lparr>ml_tree := tr\<rparr>) (adjust_for_edit (ml_tree ml) (int position) (int len)))"

definition adjust_for_delete :: "MarkerList \<Rightarrow> nat \<Rightarrow> nat \<Rightarrow> MarkerList option" where
  "adjust_for_delete ml position len =
     (if len = 0 then Some ml
      else map_option (\<lambda>tr. ml\<lparr>ml_tree := tr\<rparr>) (adjust_for_edit (ml_tree ml) (int position) (- int len)))"

definition has_repeated_position :: "(int \<times> int) list \<Rightarrow> bool" where
  "has_repeated_position edits \<longleftrightarrow> \<not> distinct (map fst edits)"

text \<open>The net edits of a batch, and the two ways to apply them.\<close>

definition net_edits :: "(nat \<times> nat \<times> nat) list \<Rightarrow> (int \<times> int) list" where
  "net_edits edits = filter (\<lambda>(_, delta). delta \<noteq> 0)
     (map (\<lambda>(pos, del_len, ins_len). (int pos, int ins_len - int del_len)) edits)"

definition ml_adjust_for_bulk_edits :: "MarkerList \<Rightarrow> (nat \<times> nat \<times> nat) list \<Rightarrow> MarkerList option" where
  "ml_adjust_for_bulk_edits ml edits =
     (let net = net_edits edits;
          deletions = length (filter (\<lambda>(_, delta). delta < 0) net);
          worth_batching = (length net > 1 \<and> (deletions > 0 \<or> length net \<ge> BULK_ADJUST_MIN_EDITS)) in
      map_option (\<lambda>tr. ml\<lparr>ml_tree := tr\<rparr>)
        (if worth_batching \<and> \<not> has_repeated_position net then adjust_for_bulk_edits (ml_tree ml) net
         else adjust_each (ml_tree ml) net))"

definition marker_count :: "MarkerList \<Rightarrow> nat" where
  "marker_count ml = length (ml_affinity ml)"

subsection \<open>The invariant\<close>

definition ml_ok :: "MarkerList \<Rightarrow> bool" where
  "ml_ok ml \<longleftrightarrow> it_ok (ml_tree ml) \<and> distinct (map fst (ml_affinity ml)) \<and>
     fst ` set (ml_affinity ml) = m_id ` set (markers (it_root (ml_tree ml)))"

lemma ml_ok_new: "ml_ok ml_new"
  by (simp add: ml_ok_def ml_new_def it_new_def it_ok_def markers_ok_def position_sorted_def)

lemma ml_ok_count:
  assumes "ml_ok ml"
  shows "marker_count ml = ml_len ml"
proof -
  let ?ms = "markers (it_root (ml_tree ml))"
  have "tree_ok (it_root (ml_tree ml))" "distinct (map m_id ?ms)"
    using assms by (auto simp: ml_ok_def it_ok_def markers_ok_def)
  then have "ml_len ml = card (m_id ` set ?ms)"
    using tree_ok_size[of "it_root (ml_tree ml)"] count_nodes_length[of "it_root (ml_tree ml)" 0]
      distinct_card[of "map m_id ?ms"]
    by (simp add: ml_len_def it_len_def)
  then show ?thesis
    using assms distinct_card[of "map fst (ml_affinity ml)"] by (simp add: ml_ok_def marker_count_def)
qed

lemma ml_ok_insert:
  assumes "ml_ok ml" "0 \<le> s" "s \<le> e"
  shows "\<exists>tr. insert_full (ml_tree ml) s e ty g ord = Some (tr, it_next_id (ml_tree ml)) \<and>
     ml_ok \<lparr>ml_tree = tr, ml_affinity = AList.update (it_next_id (ml_tree ml)) b (ml_affinity ml)\<rparr>"
proof -
  obtain tr where tr: "insert_full (ml_tree ml) s e ty g ord = Some (tr, it_next_id (ml_tree ml))" "it_ok tr"
    "mset (markers (it_root tr)) = add_mset \<lparr>m_id = it_next_id (ml_tree ml), m_start = s, m_end = e, m_type = ty,
       right_gravity = g, m_order = ord\<rparr> (mset (markers (it_root (ml_tree ml))))"
    using it_insert_ok[of "ml_tree ml" s e ty g ord] assms by (auto simp: ml_ok_def)
  have "set (markers (it_root tr)) = insert \<lparr>m_id = it_next_id (ml_tree ml), m_start = s, m_end = e,
      m_type = ty, right_gravity = g, m_order = ord\<rparr> (set (markers (it_root (ml_tree ml))))"
    using arg_cong[OF tr(3), of set_mset] by simp
  then have "m_id ` set (markers (it_root tr)) =
      insert (it_next_id (ml_tree ml)) (m_id ` set (markers (it_root (ml_tree ml))))"
    by simp
  then show ?thesis using tr(1,2) assms(1)
    by (auto simp: ml_ok_def distinct_update update_conv' simp flip: dom_map_of_conv_image_fst)
qed

lemma ml_ok_tree:
  assumes "ml_ok ml" "it_ok tr" "m_id ` set (markers (it_root tr)) = m_id ` set (markers (it_root (ml_tree ml)))"
  shows "ml_ok (ml\<lparr>ml_tree := tr\<rparr>)"
  using assms by (simp add: ml_ok_def)

lemma ml_delete_ok:
  assumes "ml_ok ml"
  shows "\<exists>ml'. ml_delete ml i = Some ml' \<and> ml_ok ml'"
proof -
  obtain tr where tr: "it_delete (ml_tree ml) i = Some (tr, has_id (it_root (ml_tree ml)) i)" "it_ok tr"
    "markers (it_root tr) = filter (\<lambda>m. m_id m \<noteq> i) (markers (it_root (ml_tree ml)))"
    using delete_ok[of "ml_tree ml" i] assms by (auto simp: ml_ok_def)
  have "fst ` set (AList.delete i (ml_affinity ml)) = m_id ` set (markers (it_root tr))"
    using assms tr(3) by (auto simp: ml_ok_def delete_conv' simp flip: dom_map_of_conv_image_fst)
  then show ?thesis using tr assms by (simp add: ml_delete_def ml_ok_def distinct_delete)
qed

lemma set_position_ok:
  assumes "it_ok tr" "0 \<le> s" "s \<le> e"
  shows "\<exists>tr'. set_position tr i s e = Some (tr', has_id (it_root tr) i) \<and> it_ok tr' \<and>
     m_id ` set (markers (it_root tr')) = m_id ` set (markers (it_root tr)) \<and>
     (has_id (it_root tr) i \<longrightarrow> get_position tr' i = Some (s, e)) \<and>
     (\<forall>j. j \<noteq> i \<longrightarrow> get_position tr' j = get_position tr j)"
proof (cases "get_marker tr i")
  case None
  then show ?thesis using assms get_marker_None[OF assms(1), of i] by (simp add: set_position_def)
next
  case (Some m)
  then have has: "has_id (it_root tr) i" using get_marker_None[OF assms(1), of i] by auto
  obtain tr1 where tr1: "it_delete tr i = Some (tr1, True)" "it_ok tr1" "it_next_id tr1 = it_next_id tr"
    "markers (it_root tr1) = filter (\<lambda>m. m_id m \<noteq> i) (markers (it_root tr))"
    using delete_ok[OF assms(1), of i] has by auto
  let ?m = "\<lparr>m_id = i, m_start = s, m_end = e, m_type = m_type m, right_gravity = right_gravity m, m_order = m_order m\<rparr>"
  have id: "i < it_next_id tr" using has assms(1)
    by (auto simp: has_id_markers[of _ _ 0] it_ok_def markers_ok_def list_all_iff)
  obtain t' xs ys where t': "insert_recursive (it_root tr1) ?m = Some t'" "markers (it_root tr1) = xs @ ys"
    "markers t' = xs @ ?m # ys" "it_ok \<lparr>it_root = t', it_next_id = it_next_id tr1\<rparr>"
    using insert_marker_ok[OF tr1(2), of ?m "it_next_id tr1"] id assms(2,3) by (auto simp: tr1(3,4))
  let ?tr' = "tr1\<lparr>it_root := t'\<rparr>"
  have ok: "it_ok ?tr'" using t'(4) by (simp add: it_ok_def)
  have eq: "set_position tr i s e = Some (?tr', True)"
    using Some tr1(1,3,4) t'(1) id by (auto simp: set_position_def tree_insert_with_id_def has_id_markers[of _ _ 0])
  have look: "lookup (markers (it_root ?tr')) = lookup (?m # markers (it_root tr1))"
    using ok t'(2,3) by (intro lookup_mset) (auto simp: it_ok_def markers_ok_def)
  have "lookup (filter (\<lambda>m. m_id m \<noteq> i) ms) j = lookup ms j" if "j \<noteq> i" for j ms
    using that by (induction ms) (auto simp: lookup_def)
  then have "get_position ?tr' i = Some (s, e)" "\<forall>j. j \<noteq> i \<longrightarrow> get_position ?tr' j = get_position tr j"
    unfolding get_position_lookup[OF ok] get_position_lookup[OF assms(1)] look by (auto simp: tr1(4) lookup_Cons)
  moreover have "m_id ` set (markers (it_root ?tr')) = m_id ` set (markers (it_root tr))"
  proof -
    have "set (markers t') = insert ?m (set (markers (it_root tr1)))" unfolding t'(2,3) by auto
    then show ?thesis using has by (auto simp: tr1(4) has_id_markers[of _ _ 0])
  qed
  ultimately show ?thesis using eq ok has by (intro exI[of _ ?tr']) simp
qed

lemma adjust_for_edit_ids:
  assumes "it_ok tr" "0 \<le> pos"
  shows "\<exists>tr'. adjust_for_edit tr pos delta = Some tr' \<and> it_ok tr' \<and>
     m_id ` set (markers (it_root tr')) = m_id ` set (markers (it_root tr))"
proof -
  obtain tr' where tr': "adjust_for_edit tr pos delta = Some tr'" "it_ok tr'"
    "\<forall>i. rel_option (moved pos delta) (lookup (markers (it_root tr)) i) (lookup (markers (it_root tr')) i)"
    using adjust_for_edit_lookup[OF assms] by blast
  have "lookup (markers (it_root tr)) i = None \<longleftrightarrow> lookup (markers (it_root tr')) i = None" for i
    using tr'(3)[rule_format, of i] by (auto elim: option.rel_cases)
  then show ?thesis using tr'(1,2) unfolding lookup_None by blast
qed

lemma adjust_each_ids:
  assumes "it_ok tr" "list_all (\<lambda>(p, _). 0 \<le> p) es"
  shows "\<exists>tr'. adjust_each tr es = Some tr' \<and> it_ok tr' \<and>
     m_id ` set (markers (it_root tr')) = m_id ` set (markers (it_root tr))"
  using assms
proof (induction tr es rule: adjust_each.induct)
  case (2 tr pos delta es)
  obtain tr1 where tr1: "adjust_for_edit tr pos delta = Some tr1" "it_ok tr1"
     "m_id ` set (markers (it_root tr1)) = m_id ` set (markers (it_root tr))"
    using adjust_for_edit_ids[OF 2(2), of pos delta] 2(3) by auto
  show ?case using 2(1)[OF tr1(1,2)] 2(3) tr1 by simp
qed simp

lemma take_triples_affinity:
  assumes "length ids = 3 * n"
  shows "fst ` set (snd (take_triples ids aff)) = set ids \<union> fst ` set aff"
    "distinct (map fst aff) \<Longrightarrow> distinct (map fst (snd (take_triples ids aff)))"
  using assms
proof (induction n arbitrary: ids aff)
  case (Suc n)
  { case 1
    then obtain a b c ids' where "ids = a # b # c # ids'" "length ids' = 3 * n"
      by (cases ids; cases "tl ids"; cases "tl (tl ids)") auto
    then show ?case using Suc.IH(1)
      by (auto simp: case_prod_beta update_conv' simp flip: dom_map_of_conv_image_fst)
  next
    case 2
    then obtain a b c ids' where "ids = a # b # c # ids'" "length ids' = 3 * n"
      by (cases ids; cases "tl ids"; cases "tl (tl ids)") auto
    then show ?case using Suc.IH(2) 2 by (auto simp: case_prod_beta distinct_update)
  }
qed simp_all

lemma overlay_intervals_ok: "intervals_ok (overlay_intervals ranges)" "length (overlay_intervals ranges) = 3 * length ranges"
  by (induction ranges rule: overlay_intervals.induct) (auto simp: intervals_ok_def)

lemma create_overlay_ok:
  assumes "ml_ok ml"
  shows "\<exists>ml' out. create_overlay_markers_bulk ml ranges = Some (ml', out) \<and> ml_ok ml'"
proof -
  let ?n = "it_next_id (ml_tree ml)" and ?ivs = "overlay_intervals ranges"
  have ok: "it_ok (ml_tree ml)" using assms by (simp add: ml_ok_def)
  obtain tr where tr: "insert_many (ml_tree ml) ?ivs = Some (tr, [?n..<?n + length ?ivs])" "it_ok tr"
    "mset (markers (it_root tr)) = mset (markers (it_root (ml_tree ml))) + mset (number_markers ?n ?ivs)"
    using insert_many_ok[OF ok overlay_intervals_ok(1)] by blast
  have "set (markers (it_root tr)) = set (markers (it_root (ml_tree ml))) \<union> set (number_markers ?n ?ivs)"
    using arg_cong[OF tr(3), of set_mset] by simp
  moreover have "m_id ` set (number_markers ?n ?ivs) = {?n..<?n + length ?ivs}"
    using arg_cong[OF number_markers_ids[of ?n ?ivs], of set] by simp
  moreover have "length [?n..<?n + length ?ivs] = 3 * length ranges" by (simp add: overlay_intervals_ok(2))
  note tt = take_triples_affinity[OF this, of "ml_affinity ml"]
  ultimately show ?thesis using tr(1,2) assms tt
    by (auto simp: create_overlay_markers_bulk_def ml_ok_def case_prod_beta image_Un)
qed

subsection \<open>Sequences of operations\<close>

datatype MarkerOp = Create nat | CreateLeftGravity nat | CreateOrdered nat int bool | CreateSpan nat nat
  | CreateOverlays "(nat \<times> nat) list" | DeleteMarker nat | SetPosition nat nat
  | InsertText nat nat | DeleteText nat nat | BulkEdits "(nat \<times> nat \<times> nat) list" | QueryRange nat nat

fun run_op :: "MarkerOp \<Rightarrow> MarkerList \<Rightarrow> MarkerList option" where
  "run_op (Create p) ml = map_option fst (ml_create ml p)"
| "run_op (CreateLeftGravity p) ml = map_option fst (create_left_gravity ml p)"
| "run_op (CreateOrdered p ord lg) ml = map_option fst (create_ordered ml p ord lg)"
| "run_op (CreateSpan s e) ml = map_option fst (create_span ml s e)"
| "run_op (CreateOverlays ranges) ml = map_option fst (create_overlay_markers_bulk ml ranges)"
| "run_op (DeleteMarker i) ml = ml_delete ml i"
| "run_op (SetPosition i p) ml = map_option fst (ml_set_position ml i p)"
| "run_op (InsertText p n) ml = adjust_for_insert ml p n"
| "run_op (DeleteText p n) ml = adjust_for_delete ml p n"
| "run_op (BulkEdits es) ml = ml_adjust_for_bulk_edits ml es"
| "run_op (QueryRange s e) ml = Some (snd (query_range ml s e))"

fun run_ops :: "MarkerOp list \<Rightarrow> MarkerList \<Rightarrow> MarkerList option" where
  "run_ops [] ml = Some ml"
| "run_ops (op # ops) ml = Option.bind (run_op op ml) (run_ops ops)"

lemma net_edits_nonneg: "list_all (\<lambda>(p, _). 0 \<le> p) (net_edits es)"
  by (auto simp: net_edits_def list_all_iff)

lemma net_edits_idem: "filter (\<lambda>(_, d). d \<noteq> 0) (net_edits es) = net_edits es"
  by (simp add: net_edits_def)

lemma run_op_ok:
  assumes "ml_ok ml"
  shows "\<exists>ml'. run_op op ml = Some ml' \<and> ml_ok ml'"
proof -
  have ok: "it_ok (ml_tree ml)" using assms by (simp add: ml_ok_def)
  note created = ml_create_def create_left_gravity_def create_ordered_def create_span_def
    it_insert_def insert_left_gravity_def insert_ordered_def
  show ?thesis
  proof (cases op)
    case (Create p)
    then show ?thesis using ml_ok_insert[OF assms, of "int p" "int p" Position_Marker True 0 False] by (auto simp: created)
  next
    case (CreateLeftGravity p)
    then show ?thesis using ml_ok_insert[OF assms, of "int p" "int p" Position_Marker False 0 True] by (auto simp: created)
  next
    case (CreateOrdered p ord lg)
    then show ?thesis using ml_ok_insert[OF assms, of "int p" "int p" Position_Marker "\<not> lg" ord lg] by (auto simp: created)
  next
    case (CreateSpan s e)
    then show ?thesis using ml_ok_insert[OF assms, of "int s" "int (max e s)" Position_Marker True 0 False] by (auto simp: created)
  next
    case (CreateOverlays ranges)
    then show ?thesis using create_overlay_ok[OF assms, of ranges] by force
  next
    case (DeleteMarker i)
    then show ?thesis using ml_delete_ok[OF assms, of i] by simp
  next
    case (SetPosition i p)
    then show ?thesis using set_position_ok[OF ok, of "int p" "int p" i] ml_ok_tree[OF assms]
      by (auto simp: ml_set_position_def)
  next
    case (InsertText p n)
    then show ?thesis using adjust_for_edit_ids[OF ok, of "int p" "int n"] ml_ok_tree[OF assms] assms
      by (auto simp: adjust_for_insert_def)
  next
    case (DeleteText p n)
    then show ?thesis using adjust_for_edit_ids[OF ok, of "int p" "- int n"] ml_ok_tree[OF assms] assms
      by (auto simp: adjust_for_delete_def)
  next
    case (BulkEdits es)
    note bulk = adjust_each_ids[OF ok net_edits_nonneg, of es] adjust_for_bulk_edits_it_ok[OF ok, of "net_edits es"]
    show ?thesis using bulk ml_ok_tree[OF assms]
      by (auto simp: BulkEdits ml_adjust_for_bulk_edits_def has_repeated_position_def net_edits_idem Let_def)
  next
    case (QueryRange s e)
    then show ?thesis using query_tree[OF ok, of "int s" "int e"] ml_ok_tree[OF assms]
      by (simp add: query_range_def case_prod_beta)
  qed
qed

lemma run_ops_ok: "ml_ok ml \<Longrightarrow> \<exists>ml'. run_ops ops ml = Some ml' \<and> ml_ok ml'"
proof (induction ops arbitrary: ml)
  case (Cons op ops)
  then obtain ml1 where "run_op op ml = Some ml1" "ml_ok ml1" using run_op_ok by blast
  then show ?case using Cons.IH by simp
qed simp

lemma run_ops_ml_ok: "ml_ok ml \<Longrightarrow> run_ops ops ml = Some ml' \<Longrightarrow> ml_ok ml'"
  using run_ops_ok[of ml ops] by auto

subsection \<open>Bulk edits\<close>

definition edits_descending :: "(nat \<times> nat \<times> nat) list \<Rightarrow> bool" where
  "edits_descending edits \<longleftrightarrow> sorted_wrt (\<lambda>(p, _, _) (q, del_len, _). q + del_len \<le> p) edits"

lemma sorted_wrt_distinct:
  "sorted_wrt P xs \<Longrightarrow> distinct (map f xs) \<Longrightarrow> sorted_wrt (\<lambda>x y. P x y \<and> f x \<noteq> f y) xs"
  by (induction xs) auto

lemma net_edits_apart:
  assumes "edits_descending edits" "distinct (map fst (net_edits edits))"
  shows "edits_apart (rev (net_edits edits))"
proof -
  let ?le = "\<lambda>x y :: int \<times> int. fst y \<le> fst x \<and> fst y - snd y \<le> fst x"
  have "sorted_wrt ?le (map (\<lambda>(pos, del_len, ins_len). (int pos, int ins_len - int del_len)) edits)"
    using assms(1) unfolding edits_descending_def sorted_wrt_map by (rule sorted_wrt_mono_rel[rotated]) auto
  then have "sorted_wrt ?le (net_edits edits)" unfolding net_edits_def by (rule sorted_wrt_filter)
  from sorted_wrt_distinct[OF this assms(2)]
  have "sorted_wrt (\<lambda>x y. fst y < fst x \<and> fst y - snd y \<le> fst x) (net_edits edits)"
    by (rule sorted_wrt_mono_rel[rotated]) auto
  then show ?thesis using net_edits_nonneg[of edits] by (simp add: edits_apart_def sorted_wrt_rev case_prod_beta)
qed

lemma sort_rev_net:
  assumes "edits_apart (rev (net_edits edits))"
  shows "sort_key fst (net_edits edits) = rev (net_edits edits)"
proof -
  have "sorted_wrt (\<lambda>x y. fst x < fst y) (rev (net_edits edits))"
    using assms unfolding edits_apart_def by (auto intro: sorted_wrt_mono_rel[rotated])
  then have "sorted_wrt (<) (map fst (rev (net_edits edits)))" by (simp only: sorted_wrt_map)
  then have "sorted (map fst (rev (net_edits edits)))" "inj_on fst (set (net_edits edits))"
    by (auto simp: strict_sorted_iff distinct_map rev_map)
  then show ?thesis by (intro sort_key_inj_key_eq) simp_all
qed

lemma get_marker_gravity:
  assumes "it_ok tr" "get_marker tr i = Some m" "get_position tr i = Some (s, e)"
  shows "\<exists>k. lookup (markers (it_root tr)) i = Some k \<and> m_start k = s \<and> m_end k = e \<and> right_gravity k = right_gravity m"
  using get_marker_lookup[OF assms(1,2)] assms(3) by (auto simp: get_position_lookup[OF assms(1)])

lemma bulk_edit_points:
  assumes "ml_ok ml" "edits_descending edits"
  shows "\<exists>ml'. ml_adjust_for_bulk_edits ml edits = Some ml' \<and> it_ok (ml_tree ml') \<and>
    (\<forall>i m. lookup (markers (it_root (ml_tree ml))) i = Some m \<longrightarrow> is_point m \<longrightarrow>
       lookup (markers (it_root (ml_tree ml'))) i = Some (adjust_in_turn (rev (net_edits edits)) m))"
proof -
  have ok: "it_ok (ml_tree ml)" using assms(1) by (simp add: ml_ok_def)
  have each: "\<exists>tr. adjust_each (ml_tree ml) (net_edits edits) = Some tr \<and> it_ok tr \<and>
    (\<forall>i m. lookup (markers (it_root (ml_tree ml))) i = Some m \<longrightarrow> is_point m \<longrightarrow>
       lookup (markers (it_root tr)) i = Some (adjust_in_turn (rev (net_edits edits)) m))"
    using adjust_each_ok[OF ok net_edits_nonneg] by blast
  have batch: "\<exists>tr. adjust_for_bulk_edits (ml_tree ml) (net_edits edits) = Some tr \<and> it_ok tr \<and>
    (\<forall>i m. lookup (markers (it_root (ml_tree ml))) i = Some m \<longrightarrow> is_point m \<longrightarrow>
       lookup (markers (it_root tr)) i = Some (adjust_in_turn (rev (net_edits edits)) m))"
    if "\<not> has_repeated_position (net_edits edits)"
  proof -
    have apart: "edits_apart (rev (net_edits edits))"
      using net_edits_apart[OF assms(2)] that by (simp add: has_repeated_position_def)
    then show ?thesis
      using adjust_for_bulk_edits_ok[OF ok, of "net_edits edits"] sort_rev_net[OF apart]
      by (auto simp: net_edits_idem)
  qed
  show ?thesis
  proof (cases "1 < length (net_edits edits) \<and>
      (0 < length (filter (\<lambda>(_, delta). delta < 0) (net_edits edits)) \<or>
         BULK_ADJUST_MIN_EDITS \<le> length (net_edits edits)) \<and> \<not> has_repeated_position (net_edits edits)")
    case True
    then have "ml_adjust_for_bulk_edits ml edits =
        map_option (\<lambda>tr. ml\<lparr>ml_tree := tr\<rparr>) (adjust_for_bulk_edits (ml_tree ml) (net_edits edits))"
      unfolding ml_adjust_for_bulk_edits_def Let_def by presburger
    then show ?thesis using batch True by auto
  next
    case False
    then have "ml_adjust_for_bulk_edits ml edits =
        map_option (\<lambda>tr. ml\<lparr>ml_tree := tr\<rparr>) (adjust_each (ml_tree ml) (net_edits edits))"
      unfolding ml_adjust_for_bulk_edits_def Let_def by (subst if_not_P) blast+
    then show ?thesis using each by auto
  qed
qed

subsection \<open>Properties\<close>

lemma ml_ok_it: "ml_ok ml \<Longrightarrow> it_ok (ml_tree ml)"
  by (simp add: ml_ok_def)

text \<open>
  C25: whatever operations ran, the height of the marker tree is at most twice the binary logarithm of
  the number of markers plus one, up to rounding: the recursive descents of the tree are that deep
  and no deeper.
\<close>

theorem marker_tree_height:
  assumes "run_ops ops ml_new = Some ml"
  shows "2 ^ (nat (node_height (it_root (ml_tree ml))) div 2) \<le> marker_count ml + 1"
proof -
  have "ml_ok ml" using run_ops_ml_ok[OF ml_ok_new assms] .
  then show ?thesis using avl_height_bound[of "it_root (ml_tree ml)"] ml_ok_count[of ml]
    by (simp add: ml_ok_def it_ok_def ml_len_def it_len_def)
qed

theorem marker_tree_height_witness:
  "\<exists>ml. run_ops [Create 3, Create 1, CreateSpan 0 9, InsertText 2 4, Create 8] ml_new = Some ml \<and>
     2 ^ (nat (node_height (it_root (ml_tree ml))) div 2) \<le> marker_count ml + 1"
  using marker_tree_height[of "[Create 3, Create 1, CreateSpan 0 9, InsertText 2 4, Create 8]"]
    run_ops_ok[OF ml_ok_new, of "[Create 3, Create 1, CreateSpan 0 9, InsertText 2 4, Create 8]"] by auto

text \<open>
  C14: a bulk edit whose edits are listed from the last to the first and do not overlap moves every point
  marker as its edits applied one after the other would, whether it rebuilds the tree or adjusts
  it edit by edit: an insertion moves the markers after it, and those at it that have right gravity,
  and a deletion moves a marker inside it to its start.
\<close>

theorem bulk_edit_in_turn:
  assumes "run_ops ops ml_new = Some ml" "edits_descending edits"
  shows "\<exists>ml'. ml_adjust_for_bulk_edits ml edits = Some ml' \<and>
    (\<forall>i s m. get_position (ml_tree ml) i = Some (s, s) \<longrightarrow> get_marker (ml_tree ml) i = Some m \<longrightarrow>
       (let s' = foldl (\<lambda>s (pos, delta). adjusted_start pos delta (right_gravity m) s) s (net_edits edits)
        in get_position (ml_tree ml') i = Some (s', s')))"
proof -
  have ok: "ml_ok ml" using run_ops_ml_ok[OF ml_ok_new assms(1)] .
  obtain ml' where ml': "ml_adjust_for_bulk_edits ml edits = Some ml'" "it_ok (ml_tree ml')"
    "\<And>i m. lookup (markers (it_root (ml_tree ml))) i = Some m \<Longrightarrow> is_point m \<Longrightarrow>
       lookup (markers (it_root (ml_tree ml'))) i = Some (adjust_in_turn (rev (net_edits edits)) m)"
    using bulk_edit_points[OF ok assms(2)] by blast
  have "let s' = foldl (\<lambda>s (pos, delta). adjusted_start pos delta (right_gravity m) s) s (net_edits edits)
      in get_position (ml_tree ml') i = Some (s', s')"
    if pos: "get_position (ml_tree ml) i = Some (s, s)" and mk: "get_marker (ml_tree ml) i = Some m" for i s m
  proof -
    obtain k where k: "lookup (markers (it_root (ml_tree ml))) i = Some k" "m_start k = s" "m_end k = s"
        "right_gravity k = right_gravity m"
      using get_marker_gravity[OF ml_ok_it[OF ok] mk pos] by blast
    then have "is_point k" by (simp add: is_point_def)
    then show ?thesis using ml'(3)[OF k(1)] adjust_in_turn_point[of k "net_edits edits"] k
      by (simp add: get_position_lookup[OF ml'(2)] Let_def is_point_def)
  qed
  then show ?thesis using ml'(1) by blast
qed

definition sample_ops :: "MarkerOp list" where
  "sample_ops = [Create 3, CreateLeftGravity 10, Create 10, Create 40]"

lemma sample_ops_positions:
  "map_option (\<lambda>ml. map (\<lambda>i. (get_position (ml_tree ml) i, map_option right_gravity (get_marker (ml_tree ml) i))) [0, 1, 2, 3])
     (run_ops sample_ops ml_new) =
   Some [(Some (3, 3), Some True), (Some (10, 10), Some False), (Some (10, 10), Some True), (Some (40, 40), Some True)]"
  by code_simp

theorem bulk_edit_in_turn_witness:
  "\<exists>ml ml'. run_ops sample_ops ml_new = Some ml \<and>
     ml_adjust_for_bulk_edits ml [(10, 0, 5), (2, 4, 1)] = Some ml' \<and>
     map (get_position (ml_tree ml')) [0, 1, 2, 3] = [Some (2, 2), Some (7, 7), Some (12, 12), Some (42, 42)]"
proof -
  obtain ml where ml: "run_ops sample_ops ml_new = Some ml" using run_ops_ok[OF ml_ok_new] by blast
  have desc: "edits_descending [(10, 0, 5), (2, 4, 1)]" by (simp add: edits_descending_def)
  obtain ml' where ml': "ml_adjust_for_bulk_edits ml [(10, 0, 5), (2, 4, 1)] = Some ml'"
    and pos: "\<And>i s m. get_position (ml_tree ml) i = Some (s, s) \<Longrightarrow> get_marker (ml_tree ml) i = Some m \<Longrightarrow>
       (let s' = foldl (\<lambda>s (pos, delta). adjusted_start pos delta (right_gravity m) s) s (net_edits [(10, 0, 5), (2, 4, 1)])
        in get_position (ml_tree ml') i = Some (s', s'))"
    using bulk_edit_in_turn[OF ml desc] by blast
  obtain m0 m1 m2 m3 where "map (get_marker (ml_tree ml)) [0, 1, 2, 3] = [Some m0, Some m1, Some m2, Some m3]"
    "map right_gravity [m0, m1, m2, m3] = [True, False, True, True]"
    "map (get_position (ml_tree ml)) [0, 1, 2, 3] = [Some (3, 3), Some (10, 10), Some (10, 10), Some (40, 40)]"
    using sample_ops_positions ml by auto
  then have "map (get_position (ml_tree ml')) [0, 1, 2, 3] = [Some (2, 2), Some (7, 7), Some (12, 12), Some (42, 42)]"
    using pos[of 0 3 m0] pos[of 1 10 m1] pos[of 2 10 m2] pos[of 3 40 m3]
    by (simp add: net_edits_def adjusted_start_def)
  with ml ml' show ?thesis by (intro exI conjI)
qed

text \<open>
  C15: an insertion or deletion of text moves every marker's start by the same rule, whatever shifts are
  pending in the tree: a start before the edit stays, an insertion moves a start after it, or at it
  with right gravity, and a deletion moves a start after it back and one inside it to its position.
  A marker that was a point stays a point, and no marker appears or disappears.
\<close>

theorem edit_moves_markers:
  assumes "run_ops ops ml_new = Some ml"
  shows "\<exists>ml'. run_op (if inserted then InsertText p n else DeleteText p n) ml = Some ml' \<and>
    (\<forall>i. ml_get_position ml' i = None \<longleftrightarrow> ml_get_position ml i = None) \<and>
    (\<forall>i s e m. get_position (ml_tree ml) i = Some (s, e) \<longrightarrow> get_marker (ml_tree ml) i = Some m \<longrightarrow>
       (let s' = adjusted_start (int p) (if inserted then int n else - int n) (right_gravity m) s
        in \<exists>e'. get_position (ml_tree ml') i = Some (s', e') \<and> s' \<le> e' \<and> (s = e \<longrightarrow> s' = e')))"
proof -
  let ?d = "if inserted then int n else - int n"
  have ok: "ml_ok ml" using run_ops_ml_ok[OF ml_ok_new assms] .
  note it = ml_ok_it[OF ok]
  obtain tr' where tr': "adjust_for_edit (ml_tree ml) (int p) ?d = Some tr'" "it_ok tr'"
    "\<And>i. rel_option (moved (int p) ?d) (lookup (markers (it_root (ml_tree ml))) i) (lookup (markers (it_root tr')) i)"
    using adjust_for_edit_lookup[OF it, of "int p" ?d] by auto
  have zero: "moved (int p) 0 m m" for m by (simp add: moved_def adjusted_start_def)
  define tr where "tr = (if n = 0 then ml_tree ml else tr')"
  have run: "run_op (if inserted then InsertText p n else DeleteText p n) ml = Some (ml\<lparr>ml_tree := tr\<rparr>)" "it_ok tr"
    using tr'(1,2) it by (cases inserted; simp add: tr_def adjust_for_insert_def adjust_for_delete_def)+
  have rel: "rel_option (moved (int p) ?d) (lookup (markers (it_root (ml_tree ml))) i) (lookup (markers (it_root tr)) i)" for i
    using tr'(3)[of i] by (auto simp: tr_def option.rel_refl zero)
  have none: "ml_get_position (ml\<lparr>ml_tree := tr\<rparr>) i = None \<longleftrightarrow> ml_get_position ml i = None" for i
    using rel[of i] by (auto simp: ml_get_position_def get_position_lookup[OF it] get_position_lookup[OF run(2)]
        elim: option.rel_cases)
  have "let s' = adjusted_start (int p) ?d (right_gravity m) s
      in \<exists>e'. get_position tr i = Some (s', e') \<and> s' \<le> e' \<and> (s = e \<longrightarrow> s' = e')"
    if pos: "get_position (ml_tree ml) i = Some (s, e)" and mk: "get_marker (ml_tree ml) i = Some m" for i s e m
  proof -
    obtain k where k: "lookup (markers (it_root (ml_tree ml))) i = Some k" "m_start k = s" "m_end k = e"
        "right_gravity k = right_gravity m"
      using get_marker_gravity[OF it mk pos] by blast
    then obtain k' where k': "lookup (markers (it_root tr)) i = Some k'" "moved (int p) ?d k k'"
      using rel[of i] by (auto simp: option_rel_Some1)
    have "s \<le> e" using it lookup_Some_id[OF k(1)] k by (auto simp: it_ok_def markers_ok_def list_all_iff)
    then show ?thesis using k k' by (auto simp: Let_def get_position_lookup[OF run(2)] moved_def)
  qed
  then show ?thesis using run(1) none by (intro exI[of _ "ml\<lparr>ml_tree := tr\<rparr>"]) auto
qed

theorem edit_moves_markers_witness:
  "\<exists>ml ml'. run_ops sample_ops ml_new = Some ml \<and> adjust_for_insert ml 10 5 = Some ml' \<and>
     map (ml_get_position ml') [0, 1, 2, 3, 4] = [Some 3, Some 10, Some 15, Some 45, None]"
proof -
  obtain ml where ml: "run_ops sample_ops ml_new = Some ml" using run_ops_ok[OF ml_ok_new] by blast
  obtain ml' where ml': "adjust_for_insert ml 10 5 = Some ml'"
    and none: "\<And>i. ml_get_position ml' i = None \<longleftrightarrow> ml_get_position ml i = None"
    and pos: "\<And>i s e m. get_position (ml_tree ml) i = Some (s, e) \<Longrightarrow> get_marker (ml_tree ml) i = Some m \<Longrightarrow>
       (let s' = adjusted_start 10 5 (right_gravity m) s
        in \<exists>e'. get_position (ml_tree ml') i = Some (s', e') \<and> s' \<le> e' \<and> (s = e \<longrightarrow> s' = e'))"
    using edit_moves_markers[OF ml, of True 10 5] by auto
  obtain m0 m1 m2 m3 where "map (get_marker (ml_tree ml)) [0, 1, 2, 3] = [Some m0, Some m1, Some m2, Some m3]"
    "map right_gravity [m0, m1, m2, m3] = [True, False, True, True]"
    "map (get_position (ml_tree ml)) [0, 1, 2, 3] = [Some (3, 3), Some (10, 10), Some (10, 10), Some (40, 40)]"
    using sample_ops_positions ml by auto
  moreover have "map_option (\<lambda>ml. ml_get_position ml 4) (run_ops sample_ops ml_new) = Some None" by code_simp
  then have "ml_get_position ml' 4 = None" using none ml by simp
  ultimately have "map (ml_get_position ml') [0, 1, 2, 3, 4] = [Some 3, Some 10, Some 15, Some 45, None]"
    using pos[of 0 3 3 m0] pos[of 1 10 10 m1] pos[of 2 10 10 m2] pos[of 3 40 40 m3]
    by (auto simp: ml_get_position_def adjusted_start_def)
  with ml ml' show ?thesis by (intro exI conjI)
qed

lemma count_in_filter:
  fixes a b :: nat
  shows "length (filter (\<lambda>x. f x < b) xs) - length (filter (\<lambda>x. f x < a) xs) =
    length (filter (\<lambda>x. a \<le> f x \<and> f x < b) xs)"
proof (cases "a \<le> b")
  case True
  have "length (filter (\<lambda>x. f x < b) xs) =
      length (filter (\<lambda>x. f x < a) xs) + length (filter (\<lambda>x. a \<le> f x \<and> f x < b) xs)"
    using True by (induction xs) auto
  then show ?thesis by simp
next
  case False
  then have "length (filter (\<lambda>x. f x < b) xs) \<le> length (filter (\<lambda>x. f x < a) xs)"
    by (induction xs) auto
  then show ?thesis using False by (auto simp: filter_empty_conv)
qed

lemma map_of_lookup: "map_of (map (\<lambda>m. (m_id m, f m)) ms) i = map_option f (lookup ms i)"
  by (induction ms) (auto simp: lookup_def)

text \<open>
  C20: the order statistics read one list, the markers with their positions in the order of positions,
  which agrees with \<open>get_position\<close> on every marker: its length, its k-th entry, how many entries are before a
  position, and those within a range, whatever shifts are pending.
\<close>

theorem marker_order_statistics:
  assumes "run_ops ops ml_new = Some ml"
  shows "\<exists>xs. sorted (map snd xs) \<and> distinct (map fst xs) \<and> map_of xs = ml_get_position ml \<and>
    ml_len ml = length xs \<and> (ml_is_empty ml \<longleftrightarrow> xs = []) \<and>
    ml_nth ml = (\<lambda>k. if k < length xs then Some (xs ! k) else None) \<and>
    ml_count_before ml = (\<lambda>p. length (filter (\<lambda>(_, q). q < p) xs)) \<and>
    ml_in_range ml = (\<lambda>a b. filter (\<lambda>(_, q). a \<le> q \<and> q < b) xs) \<and>
    count_in ml = (\<lambda>a b. length (filter (\<lambda>(_, q). a \<le> q \<and> q < b) xs))"
proof -
  have it: "it_ok (ml_tree ml)" using ml_ok_it[OF run_ops_ml_ok[OF ml_ok_new assms]] .
  let ?ms = "markers (it_root (ml_tree ml))"
  define f where "f = (\<lambda>m :: Marker. (m_id m, nat (m_start m)))"
  let ?xs = "map f ?ms"
  have ms: "sorted (map m_start ?ms)" "distinct (map m_id ?ms)" "\<And>m. m \<in> set ?ms \<Longrightarrow> 0 \<le> m_start m"
    using it by (auto simp: it_ok_def markers_ok_def position_sorted_def list_all_iff)
  have nat_less: "m_start m < int p \<longleftrightarrow> nat (m_start m) < p" "int p \<le> m_start m \<longleftrightarrow> p \<le> nat (m_start m)"
    if "m \<in> set ?ms" for m p using ms(3)[OF that] by auto
  have srt: "sorted (map snd ?xs)" using ms(1) by (auto simp: f_def sorted_wrt_map o_def elim!: sorted_wrt_mono_rel[rotated])
  have before: "ml_count_before ml p = length (filter (\<lambda>(_, q). q < p) ?xs)" for p
    by (auto simp: ml_count_before_def count_before_eq[OF it] filter_map o_def f_def nat_less
        intro!: arg_cong[where f = length] filter_cong)
  have within: "ml_in_range ml a b = filter (\<lambda>(_, q). a \<le> q \<and> q < b) ?xs" for a b
    by (auto simp: ml_in_range_def in_range_eq[OF it] filter_map o_def f_def nat_less
        intro!: arg_cong[where f = "map _"] filter_cong)
  have counted: "count_in ml a b = length (filter (\<lambda>(_, q). a \<le> q \<and> q < b) ?xs)" for a b
    unfolding count_in_def before case_prod_beta' by (rule count_in_filter)
  have nth: "ml_nth ml k = (if k < length ?xs then Some (?xs ! k) else None)" for k
    by (simp add: ml_nth_def it_nth_eq[OF it] f_def)
  have "map_of ?xs = ml_get_position ml"
    by (rule ext) (simp add: f_def map_of_lookup ml_get_position_def get_position_lookup[OF it] option.map_comp o_def)
  moreover have "ml_is_empty ml \<longleftrightarrow> ?xs = []"
    by (cases "it_root (ml_tree ml)") (auto simp: ml_is_empty_def it_is_empty_def)
  ultimately show ?thesis using srt before within counted nth ms(2)
    by (intro exI[of _ ?xs]) (auto simp: ml_len_def it_len_eq[OF it] o_def f_def fun_eq_iff)
qed

theorem marker_order_statistics_witness:
  "\<exists>ml xs. run_ops (sample_ops @ [InsertText 10 5, CreateSpan 12 20]) ml_new = Some ml \<and>
     sorted (map snd xs) \<and> map_of xs = ml_get_position ml \<and> ml_count_before ml 15 = length (filter (\<lambda>(_, q). q < 15) xs) \<and>
     ml_count_before ml 15 = 3 \<and> ml_nth ml 2 = Some (4, 12)"
proof -
  obtain ml where ml: "run_ops (sample_ops @ [InsertText 10 5, CreateSpan 12 20]) ml_new = Some ml"
    using run_ops_ok[OF ml_ok_new] by blast
  have "map_option (\<lambda>ml. (ml_count_before ml 15, ml_nth ml 2))
      (run_ops (sample_ops @ [InsertText 10 5, CreateSpan 12 20]) ml_new) = Some (3, Some (4, 12))"
    by code_simp
  then show ?thesis using marker_order_statistics[OF ml] ml by auto
qed

subsection \<open>The overlap query on lists without insertions\<close>

fun no_insertion :: "MarkerOp \<Rightarrow> bool" where
  "no_insertion (InsertText _ n) \<longleftrightarrow> n = 0"
| "no_insertion (BulkEdits es) \<longleftrightarrow> list_all (\<lambda>(_, del_len, ins_len). ins_len \<le> del_len) es"
| "no_insertion _ \<longleftrightarrow> True"

lemma lookup_in: "distinct (map m_id ms) \<Longrightarrow> lookup ms i = Some m \<longleftrightarrow> m \<in> set ms \<and> m_id m = i"
  by (auto simp: lookup_def map_of_eq_Some_iff o_def image_iff)

lemma settled_set_position:
  assumes "settled (it_root tr)" "set_position tr i s e = Some (tr', b)"
  shows "settled (it_root tr')"
proof (cases "get_marker tr i")
  case (Some m)
  then obtain tr1 b1 where tr1: "it_delete tr i = Some (tr1, b1)"
      "tr' = tr1 \<or> tree_insert_with_id tr1 i s e (m_type m) (right_gravity m) (m_order m) = Some tr'"
    using assms(2) by (auto simp: set_position_def bind_eq_Some_conv split: if_splits)
  have "settled (it_root tr1)" by (rule settled_delete[OF assms(1) tr1(1)])
  then show ?thesis using tr1(2) settled_insert_recursive
    by (auto simp: tree_insert_with_id_def split: if_splits)
qed (use assms in \<open>simp add: set_position_def\<close>)

lemma run_op_inserts:
  assumes "run_op op ml = Some ml'" "op = Create p \<or> op = CreateLeftGravity p \<or> op = CreateOrdered p ord lg \<or> op = CreateSpan p q"
  shows "\<exists>s e ty g k i. insert_full (ml_tree ml) s e ty g k = Some (ml_tree ml', i)"
  using assms
  by (elim disjE; clarsimp simp: ml_create_def create_left_gravity_def create_ordered_def create_span_def
    it_insert_def insert_left_gravity_def insert_ordered_def bind_eq_Some_conv; blast)

lemma run_op_settled:
  assumes "settled (it_root (ml_tree ml))" "no_insertion op" "run_op op ml = Some ml'"
  shows "settled (it_root (ml_tree ml'))"
proof (cases op)
  case (Create p)
  then show ?thesis using run_op_inserts[OF assms(3), of p 0 True 0] settled_insert[OF assms(1)] by auto
next
  case (CreateLeftGravity p)
  then show ?thesis using run_op_inserts[OF assms(3), of p 0 True 0] settled_insert[OF assms(1)] by auto
next
  case (CreateOrdered p ord lg)
  then show ?thesis using run_op_inserts[OF assms(3), of p ord lg 0] settled_insert[OF assms(1)] by auto
next
  case (CreateSpan p q)
  then show ?thesis using run_op_inserts[OF assms(3), of p 0 True q] settled_insert[OF assms(1)] by auto
next
  case (CreateOverlays ranges)
  then obtain tr ids where "insert_many (ml_tree ml) (overlay_intervals ranges) = Some (tr, ids)" "ml_tree ml' = tr"
    using assms(3) by (auto simp: create_overlay_markers_bulk_def bind_eq_Some_conv case_prod_beta)
  then show ?thesis using settled_insert_many[OF assms(1)] by simp
next
  case (DeleteMarker i)
  then obtain tr b where "it_delete (ml_tree ml) i = Some (tr, b)" "ml_tree ml' = tr"
    using assms(3) by (auto simp: ml_delete_def bind_eq_Some_conv)
  then show ?thesis using settled_delete[OF assms(1)] by simp
next
  case (SetPosition i p)
  then obtain tr b where "set_position (ml_tree ml) i (int p) (int p) = Some (tr, b)" "ml_tree ml' = tr"
    using assms(3) by (auto simp: ml_set_position_def bind_eq_Some_conv)
  then show ?thesis using settled_set_position[OF assms(1)] by simp
next
  case (InsertText p n)
  then show ?thesis using assms by (simp add: adjust_for_insert_def)
next
  case (DeleteText p n)
  then show ?thesis using assms settled_adjust_for_edit[OF assms(1), of "- int n"]
    by (cases "n = 0") (auto simp: adjust_for_delete_def)
next
  case (BulkEdits es)
  have "list_all (\<lambda>(_, d). d < 0) (net_edits es)"
    using assms(2) BulkEdits by (auto simp: net_edits_def list_all_iff)
  from settled_adjust_each[OF assms(1) this] settled_bulk_edits[OF assms(1), of "net_edits es"]
  show ?thesis using assms(3) BulkEdits by (auto simp: ml_adjust_for_bulk_edits_def Let_def split: if_splits)
next
  case (QueryRange s e)
  then show ?thesis using assms query_recursive_id[OF assms(1)] by (auto simp: query_range_def query_def case_prod_beta)
qed

lemma run_ops_settled:
  "settled (it_root (ml_tree ml)) \<Longrightarrow> list_all no_insertion ops \<Longrightarrow> run_ops ops ml = Some ml' \<Longrightarrow>
     settled (it_root (ml_tree ml'))"
  by (induction ops arbitrary: ml) (auto simp: bind_eq_Some_conv dest: run_op_settled)

text \<open>
  On a list of markers on which text was deleted but never inserted, the overlap query returns exactly
  the markers that overlap the range, each once, and leaves the list as it was.
\<close>

theorem query_range_exact:
  assumes "run_ops ops ml_new = Some ml" "list_all no_insertion ops"
  shows "snd (query_range ml qs qe) = ml \<and> distinct (map fst (fst (query_range ml qs qe))) \<and>
    set (fst (query_range ml qs qe)) =
      {(i, nat s, nat e) | i s e. get_position (ml_tree ml) i = Some (s, e) \<and> s \<le> int qe \<and> int qs \<le> e}"
proof -
  have it: "it_ok (ml_tree ml)" using ml_ok_it[OF run_ops_ml_ok[OF ml_ok_new assms(1)]] .
  have st: "settled (it_root (ml_tree ml))"
    using run_ops_settled[OF _ assms(2,1)] by (simp add: ml_new_def it_new_def)
  let ?t = "it_root (ml_tree ml)"
  have ms: "mset (fst (query_recursive ?t qs qe)) = mset (filter (overlaps qs qe) (markers ?t))" for qs qe
    using query_recursive_settled[OF st] it by (simp add: it_ok_def markers_ok_def)
  have dist: "distinct (map m_id (markers ?t))" using it by (simp add: it_ok_def markers_ok_def)
  let ?ms = "fst (query_recursive ?t (int qs) (int qe))"
  have ids: "distinct (map m_id ?ms)"
  proof -
    have "mset (map m_id ?ms) = mset (map m_id (filter (overlaps (int qs) (int qe)) (markers ?t)))"
      unfolding mset_map ms ..
    from mset_eq_imp_distinct_iff[OF this] show ?thesis using distinct_map_filter[OF dist] by simp
  qed
  have "m \<in> set ?ms \<longleftrightarrow> lookup (markers ?t) (m_id m) = Some m \<and> overlaps (int qs) (int qe) m" for m
    using mset_eq_setD[OF ms[of "int qs" "int qe"]] by (auto simp: lookup_in[OF dist])
  then have found: "(\<lambda>m. (m_id m, nat (m_start m), nat (m_end m))) ` set ?ms =
      {(i, nat s, nat e) | i s e. get_position (ml_tree ml) i = Some (s, e) \<and> s \<le> int qe \<and> int qs \<le> e}"
    by (auto simp: get_position_lookup[OF it] lookup_in[OF dist] image_iff set_eq_iff)
  show ?thesis using query_recursive_id[OF st] ids found
    by (simp add: query_range_def query_def case_prod_beta o_def)
qed

theorem query_range_exact_witness:
  "\<exists>ml. run_ops [Create 3, CreateSpan 1 9, Create 8, Create 5, DeleteText 4 2] ml_new = Some ml \<and>
     snd (query_range ml 4 7) = ml \<and> distinct (map fst (fst (query_range ml 4 7))) \<and>
     set (fst (query_range ml 4 7)) = {(1, 1, 9), (2, 6, 6), (3, 4, 4)}"
proof -
  let ?ops = "[Create 3, CreateSpan 1 9, Create 8, Create 5, DeleteText 4 2]"
  obtain ml where ml: "run_ops ?ops ml_new = Some ml" using run_ops_ok[OF ml_ok_new] by blast
  have "map_option (\<lambda>ml. mset (fst (query_range ml 4 7))) (run_ops ?ops ml_new) =
      Some (mset [(1, 1, 9), (2, 6, 6), (3, 4, 4)])"
    by code_simp
  then have "set (fst (query_range ml 4 7)) = {(1, 1, 9), (2, 6, 6), (3, 4, 4)}"
    using ml mset_eq_setD[of "fst (query_range ml 4 7)" "[(1, 1, 9), (2, 6, 6), (3, 4, 4)]"] by auto
  then show ?thesis using query_range_exact[OF ml, of 4 7] ml by (intro exI[of _ ml]) simp
qed

text \<open>A tree with one pending shift: four points, and text inserted at or before the first of them.\<close>

lemma adjust_recursive_settled:
  "adjust_recursive (Node l m h e s 0 r) pos delta =
     update_stats (Node (if pos \<le> m_start m then adjust_recursive l pos delta else l) (adjust_marker pos delta m)
       h e s 0 (if pos < m_start m \<and> 0 \<le> delta then add_lazy delta r else adjust_recursive r pos delta))"
  by (rule adjust_recursive_Node) (simp add: pushed_max_def)

abbreviation point :: "nat \<Rightarrow> nat \<Rightarrow> Marker" where
  "point i p \<equiv> \<lparr>m_id = i, m_start = int p, m_end = int p, m_type = Position_Marker, right_gravity = True, m_order = 0\<rparr>"

abbreviation four_markers :: "nat \<Rightarrow> nat \<Rightarrow> nat \<Rightarrow> nat \<Rightarrow> nat \<Rightarrow> MarkerNode" where
  "four_markers a b c d n \<equiv>
     Node (Node Tip (point 1 (a + n)) 1 (int (a + n)) 1 0 Tip) (point 0 (b + n)) 3 (max (int (b + n)) (max (int (a + n)) (int d))) 4 0
       (Node (Node Tip (point 3 c) 1 (int c) 1 0 Tip) (point 2 d) 2 (int d) 2 (int n) Tip)"

lemma run_four_markers:
  assumes "p \<le> a" "a < b" "b < c" "c < d" "0 < n"
  shows "run_ops [Create b, Create a, Create d, Create c, InsertText p n] ml_new =
    Some \<lparr>ml_tree = \<lparr>it_root = four_markers a b c d n, it_next_id = 4\<rparr>, ml_affinity = [(0, False), (1, False), (2, False), (3, False)]\<rparr>"
  using assms
  by (cases "p = a") (simp_all add: ml_create_def it_insert_def insert_full_def insert_recursive.simps ml_new_def it_new_def node_new_def
      marker_key_def Let_def balance_def balance_factor_def adjust_for_insert_def adjust_for_edit_def
      adjust_recursive_settled adjust_marker_def adjusted_start_def adjusted_end_def resolved_def)

text \<open>
  C28: after an insertion of text the overlap query misses markers. For any four points created in the order second, first,
  fourth, third, and any text inserted at or before the first, \<open>get_position\<close> and \<open>in_range\<close> find all of them moved;
  the query for the range from the third to the fourth returns the fourth only. It prunes a subtree by a
  \<open>max_end\<close> that does not include the shift still pending on it.
\<close>

theorem query_range_misses:
  assumes "p \<le> a" and "a < b" and "b < c" and "c < d" and "0 < n"
  shows "\<exists>ml. run_ops [Create b, Create a, Create d, Create c, InsertText p n] ml_new = Some ml \<and>
     map (ml_get_position ml) [0, 1, 2, 3] = [Some (b + n), Some (a + n), Some (d + n), Some (c + n)] \<and>
     ml_in_range ml (c + n) (d + n + 1) = [(3, c + n), (2, d + n)] \<and>
     fst (query_range ml (c + n) (d + n)) = [(2, d + n, d + n)]"
  unfolding run_four_markers[OF assms]
  using assms
  by (simp add: ml_get_position_def get_position_def ml_in_range_def in_range_def query_range_def query_def
      query_recursive.simps resolved_def Let_def nat_add_distrib)

theorem query_range_misses_witness:
  "\<exists>ml. run_ops [Create 2, Create 1, Create 4, Create 3, InsertText 0 10] ml_new = Some ml \<and>
     ml_in_range ml 13 15 = [(3, 13), (2, 14)] \<and> fst (query_range ml 13 14) = [(2, 14, 14)]"
  using query_range_misses[of 0 1 2 3 4 10] by auto

text \<open>
  The end of a span depends on the shape of the tree: text inserted inside a span behind a point moves the end of
  the span when the span was created before the point, and leaves it when the point was. For the end
  inside a deletion, it is moved by the whole length, in front of the deleted text.
\<close>

lemma span_end_by_shape:
  assumes "s < q" "q < pos" "pos \<le> e" "0 < n"
  shows "map_option (\<lambda>ml. get_position (ml_tree ml) 0) (run_ops [CreateSpan s e, Create q, InsertText pos n] ml_new) =
      Some (Some (int s, int (e + n)))"
    and "map_option (\<lambda>ml. get_position (ml_tree ml) 1) (run_ops [Create q, CreateSpan s e, InsertText pos n] ml_new) =
      Some (Some (int s, int e))"
    and "s + n \<le> e \<Longrightarrow> e < pos + n \<Longrightarrow>
      map_option (\<lambda>ml. get_position (ml_tree ml) 0) (run_ops [CreateSpan s e, DeleteText pos n] ml_new) = Some (Some (int s, int (e - n)))"
  using assms
  by (simp_all add: create_span_def ml_create_def it_insert_def insert_full_def insert_recursive.simps ml_new_def it_new_def
      node_new_def marker_key_def Let_def balance_def balance_factor_def adjust_for_insert_def adjust_for_delete_def
      adjust_for_edit_def adjust_recursive_settled adjust_marker_def adjusted_start_def adjusted_end_def resolved_def
      get_position_def)

end
