(* ===== verification/Marker_Width.thy ===== *)
theory Marker_Width
  imports Marker_List "HOL-Library.Word"
begin

text \<open>
  The widths of the numbers in the marker tree. The source keeps positions as \<open>u64\<close> and shifts as \<open>i64\<close>, casts
  between them and adds in \<open>i64\<close>; the definitions of the tree compute with unbounded integers. Here the additions
  are written with their casts and their overflow, and it is shown that nothing overflows as long as the largest
  position and the lengths of all edits together stay below two to the 63: every number that the tree holds,
  with the shifts that are pending above it, stays between zero and that sum.
\<close>

subsection \<open>Arithmetic in \<open>i64\<close>\<close>

text \<open>The casts wrap around, and a sum that leaves the range panics.\<close>

definition as_i64 :: "int \<Rightarrow> int" where
  "as_i64 x = sint (word_of_int x :: 64 word)"

definition as_u64 :: "int \<Rightarrow> int" where
  "as_u64 x = uint (word_of_int x :: 64 word)"

definition add_i64 :: "int \<Rightarrow> int \<Rightarrow> int option" where
  "add_i64 a b = (if - (2 ^ 63) \<le> a + b \<and> a + b < 2 ^ 63 then Some (a + b) else None)"

lemma as_i64_small: "0 \<le> x \<Longrightarrow> x < 2 ^ 63 \<Longrightarrow> as_i64 x = x"
  by (simp add: as_i64_def signed_of_int signed_take_bit_int_eq_self)

lemma as_u64_small: "0 \<le> x \<Longrightarrow> x < 2 ^ 63 \<Longrightarrow> as_u64 x = x"
  by (simp add: as_u64_def unsigned_of_int take_bit_int_eq_self)

lemma add_i64_Some: "- (2 ^ 63) \<le> a + b \<Longrightarrow> a + b < 2 ^ 63 \<Longrightarrow> add_i64 a b = Some (a + b)"
  by (simp add: add_i64_def)

fun add_lazy_i64 :: "int \<Rightarrow> MarkerNode \<Rightarrow> MarkerNode option" where
  "add_lazy_i64 delta Tip = Some Tip"
| "add_lazy_i64 delta (Node l m h e s z r) = map_option (\<lambda>z'. Node l m h e s z' r) (add_i64 z delta)"

fun push_delta_i64 :: "MarkerNode \<Rightarrow> MarkerNode option" where
  "push_delta_i64 Tip = Some Tip"
| "push_delta_i64 (Node l m h e s z r) =
     (if z = 0 then Some (Node l m h e s z r)
      else do {
        start \<leftarrow> add_i64 (as_i64 (m_start m)) z;
        fin \<leftarrow> add_i64 (as_i64 (m_end m)) z;
        l' \<leftarrow> add_lazy_i64 z l;
        r' \<leftarrow> add_lazy_i64 z r;
        let m' = m\<lparr>m_start := as_u64 start, m_end := as_u64 fin\<rparr>;
        Some (Node l' m' h (max (m_end m') (max (max_end_or_0 l') (max_end_or_0 r'))) s 0 r')
      })"

text \<open>\<open>adjust_recursive\<close> with its arithmetic: \<open>pos\<close> is a \<open>u64\<close> and \<open>delta\<close> an \<open>i64\<close>.\<close>

definition adjusted_start_i64 :: "int \<Rightarrow> int \<Rightarrow> bool \<Rightarrow> int \<Rightarrow> int option" where
  "adjusted_start_i64 pos delta left_gravity start =
     (if pos \<le> start \<and> \<not> (left_gravity \<and> delta > 0 \<and> pos = start)
      then map_option (\<lambda>x. as_u64 (if delta < 0 then max x (as_i64 pos) else x)) (add_i64 (as_i64 start) delta)
      else Some start)"

definition adjusted_end_i64 :: "int \<Rightarrow> int \<Rightarrow> bool \<Rightarrow> int \<Rightarrow> int \<Rightarrow> int option" where
  "adjusted_end_i64 pos delta left_gravity start' fin =
     (if (if left_gravity \<and> delta > 0 then fin > pos else fin \<ge> pos)
      then map_option (\<lambda>x. as_u64 (max x (as_i64 start'))) (add_i64 (as_i64 fin) delta)
      else Some fin)"

lemma count_nodes_add_lazy_i64: "add_lazy_i64 z t = Some t' \<Longrightarrow> count_nodes t' = count_nodes t"
  by (cases t) auto

lemma count_nodes_push_delta_i64:
  "push_delta_i64 t = Some (Node l m h e s z r) \<Longrightarrow> count_nodes l < count_nodes t \<and> count_nodes r < count_nodes t"
  by (cases t) (auto split: if_splits simp: bind_eq_Some_conv Let_def dest!: count_nodes_add_lazy_i64)

function adjust_recursive_i64 :: "MarkerNode \<Rightarrow> int \<Rightarrow> int \<Rightarrow> MarkerNode option" where
  "adjust_recursive_i64 t pos delta =
     (case push_delta_i64 t of
        None \<Rightarrow> None
      | Some Tip \<Rightarrow> Some Tip
      | Some (Node l m h e s z r) \<Rightarrow> do {
          let start = m_start m;
          let left_gravity = (\<not> right_gravity m);
          start' \<leftarrow> adjusted_start_i64 pos delta left_gravity start;
          r' \<leftarrow> (if pos \<le> start \<and> \<not> (delta < 0 \<or> pos = start) then add_lazy_i64 delta r
                 else adjust_recursive_i64 r pos delta);
          l' \<leftarrow> (if pos \<le> start then adjust_recursive_i64 l pos delta else Some l);
          fin' \<leftarrow> adjusted_end_i64 pos delta left_gravity start' (m_end m);
          Some (update_stats (Node l' (m\<lparr>m_start := start', m_end := fin'\<rparr>) h e s z r'))
        })"
  by pat_completeness auto
termination
  by (relation "measure (\<lambda>(t, _). count_nodes t)") (auto dest: count_nodes_push_delta_i64)

declare adjust_recursive_i64.simps [simp del]

subsection \<open>Trees whose numbers fit\<close>

text \<open>All numbers lie between zero and a bound, also with the pending shifts above them added.\<close>

definition marker_fits :: "int \<Rightarrow> Marker \<Rightarrow> bool" where
  "marker_fits B m \<longleftrightarrow> 0 \<le> m_start m \<and> m_start m \<le> B \<and> 0 \<le> m_end m \<and> m_end m \<le> B"

fun tree_fits :: "int \<Rightarrow> MarkerNode \<Rightarrow> bool" where
  "tree_fits B Tip \<longleftrightarrow> 0 \<le> B"
| "tree_fits B (Node l m h e s z r) \<longleftrightarrow>
     0 \<le> z \<and> marker_fits (B - z) m \<and> 0 \<le> e \<and> e \<le> B \<and> tree_fits (B - z) l \<and> tree_fits (B - z) r"

lemma marker_fits_mono: "marker_fits B m \<Longrightarrow> B \<le> C \<Longrightarrow> marker_fits C m"
  by (auto simp: marker_fits_def)

lemma tree_fits_mono: "tree_fits B t \<Longrightarrow> B \<le> C \<Longrightarrow> tree_fits C t"
  by (induction B t arbitrary: C rule: tree_fits.induct) (auto intro: marker_fits_mono)

lemma tree_fits_nonneg: "tree_fits B t \<Longrightarrow> 0 \<le> B"
  by (cases t) (auto simp: marker_fits_def)

lemma max_end_fits: "tree_fits B t \<Longrightarrow> 0 \<le> max_end_or_0 t \<and> max_end_or_0 t \<le> B"
  by (cases t) auto

lemma marker_fits_resolved: "marker_fits B m \<Longrightarrow> 0 \<le> z \<Longrightarrow> marker_fits (B + z) (resolved m z)"
  by (auto simp: marker_fits_def resolved_def)

lemma tree_fits_add_lazy: "tree_fits B t \<Longrightarrow> 0 \<le> d \<Longrightarrow> tree_fits (B + d) (add_lazy d t)"
  by (cases t) auto

lemma tree_fits_push: "tree_fits B t \<Longrightarrow> tree_fits B (push_delta t)"
proof (cases t)
  case (Node l m h e s z r)
  assume t: "tree_fits B t"
  then have "tree_fits B (add_lazy z l)" "tree_fits B (add_lazy z r)" "marker_fits B (resolved m z)"
    using Node tree_fits_add_lazy[of "B - z" _ z] marker_fits_resolved[of "B - z" m z] by auto
  then show ?thesis using t Node max_end_fits[of B "add_lazy z l"] max_end_fits[of B "add_lazy z r"]
    by (auto simp: Let_def marker_fits_def pushed_max_def)
qed simp

lemma tree_fits_update: "tree_fits B t \<Longrightarrow> tree_fits B (update_stats t)"
proof (cases t)
  case (Node l m h e s z r)
  assume "tree_fits B t"
  then show ?thesis using Node max_end_fits[of "B - z" l] max_end_fits[of "B - z" r]
    by (auto simp: marker_fits_def)
qed simp

text \<open>A node whose parts fit, after its shift has been handed on, whatever its cached maximum.\<close>

lemma tree_fits_node:
  "tree_fits B l \<Longrightarrow> marker_fits B m \<Longrightarrow> tree_fits B r \<Longrightarrow> z = 0 \<Longrightarrow> tree_fits B (update_stats (Node l m h e s z r))"
  using max_end_fits[of B l] max_end_fits[of B r] by (auto simp: marker_fits_def)

lemma push_delta_parts:
  assumes "tree_fits B t" "push_delta t = Node l m h e s z r"
  shows "z = 0" "marker_fits B m" "tree_fits B l" "tree_fits B r"
proof -
  show "z = 0" using assms(2) by (cases t) (auto simp: Let_def split: if_splits)
  then show "marker_fits B m" "tree_fits B l" "tree_fits B r"
    using tree_fits_push[OF assms(1)] assms(2) by auto
qed

lemma rotate_left_fits:
  assumes "tree_fits B t" "rotate_left t = Some t'"
  shows "tree_fits B t'"
proof -
  obtain l m h e s z r where t: "push_delta t = Node l m h e s z r"
    using assms(2) by (auto simp: rotate_left_def split: MarkerNode.splits)
  obtain xl xm xh xe xs xz xr where x: "push_delta r = Node xl xm xh xe xs xz xr"
    using assms(2) t by (auto simp: rotate_left_def split: MarkerNode.splits)
  note parts = push_delta_parts[OF assms(1) t]
  have "t' = update_stats (Node (update_stats (Node l m h e s z xl)) xm xh xe xs xz xr)"
    using assms(2) t x by (simp add: rotate_left_def)
  then show ?thesis using parts push_delta_parts[OF parts(4) x] by (metis tree_fits_node)
qed

lemma rotate_right_fits:
  assumes "tree_fits B t" "rotate_right t = Some t'"
  shows "tree_fits B t'"
proof -
  obtain l m h e s z r where t: "push_delta t = Node l m h e s z r"
    using assms(2) by (auto simp: rotate_right_def split: MarkerNode.splits)
  obtain xl xm xh xe xs xz xr where x: "push_delta l = Node xl xm xh xe xs xz xr"
    using assms(2) t by (auto simp: rotate_right_def split: MarkerNode.splits)
  note parts = push_delta_parts[OF assms(1) t]
  have "t' = update_stats (Node xl xm xh xe xs xz (update_stats (Node xr m h e s z r)))"
    using assms(2) t x by (simp add: rotate_right_def)
  then show ?thesis using parts push_delta_parts[OF parts(3) x] by (metis tree_fits_node)
qed

lemma balance_fits:
  assumes "tree_fits B t" "balance t = Some t'"
  shows "tree_fits B t'"
proof (cases t)
  case Tip
  then show ?thesis using assms by (simp add: balance_def)
next
  case (Node l m h e s z r)
  have parts: "tree_fits (B - z) l" "tree_fits (B - z) r" using assms(1) Node by simp_all
  show ?thesis
  proof (cases "balance_factor t > 1 \<or> balance_factor t < - 1")
    case True
    then consider l' where "tree_fits B (Node l' m h e s z r)" "rotate_right (Node l' m h e s z r) = Some t'"
      | r' where "tree_fits B (Node l m h e s z r')" "rotate_left (Node l m h e s z r') = Some t'"
      using assms Node parts rotate_left_fits[OF parts(1)] rotate_right_fits[OF parts(2)]
      by (auto simp: balance_def split: if_splits bind_splits)
    then show ?thesis using rotate_left_fits rotate_right_fits by cases blast+
  next
    case False
    then have "t' = t" using assms(2) Node by (auto simp: balance_def)
    then show ?thesis using assms(1) by simp
  qed
qed

lemma balance_node_fits:
  "balance (update_stats (Node l m h e s z r)) = Some t' \<Longrightarrow> z = 0 \<Longrightarrow>
   tree_fits B l \<Longrightarrow> marker_fits B m \<Longrightarrow> tree_fits B r \<Longrightarrow> tree_fits B t'"
  using balance_fits tree_fits_node by blast

subsection \<open>The operations on trees\<close>

lemma insert_recursive_fits:
  "tree_fits B t \<Longrightarrow> marker_fits B new \<Longrightarrow> insert_recursive t new = Some t' \<Longrightarrow> tree_fits B t'"
proof (induction t new arbitrary: t' rule: insert_recursive.induct)
  case (1 t new)
  show ?case
  proof (cases "push_delta t")
    case Tip
    then have "t' = node_new new" using "1.prems"(3) by (subst (asm) insert_recursive.simps) simp
    then show ?thesis using "1.prems"(1,2) tree_fits_nonneg by (auto simp: node_new_def marker_fits_def)
  next
    case (Node l m h e s z r)
    note parts = push_delta_parts[OF "1.prems"(1) Node]
    show ?thesis
    proof (cases "marker_key new < marker_key m")
      case True
      then obtain l' where "insert_recursive l new = Some l'" "balance (update_stats (Node l' m h e s z r)) = Some t'"
        using "1.prems"(3) Node by (subst (asm) insert_recursive.simps) (auto simp: bind_eq_Some_conv simp del: update_stats.simps)
      then show ?thesis using "1.IH"(1)[OF Node True parts(3) "1.prems"(2)] parts balance_node_fits by blast
    next
      case False
      then obtain r' where "insert_recursive r new = Some r'" "balance (update_stats (Node l m h e s z r')) = Some t'"
        using "1.prems"(3) Node by (subst (asm) insert_recursive.simps) (auto simp: bind_eq_Some_conv simp del: update_stats.simps)
      then show ?thesis using "1.IH"(2)[OF Node False parts(4) "1.prems"(2)] parts balance_node_fits by blast
    qed
  qed
qed

lemma remove_min_fits:
  "tree_fits B t \<Longrightarrow> remove_min t = Some (succ, t') \<Longrightarrow> marker_fits B succ \<and> tree_fits B t'"
proof (induction t arbitrary: succ t' rule: remove_min.induct)
  case (1 t)
  obtain l m h e s z r where t: "push_delta t = Node l m h e s z r"
    using "1.prems"(2) by (subst (asm) remove_min.simps) (auto split: MarkerNode.splits)
  note parts = push_delta_parts[OF "1.prems"(1) t]
  show ?case
  proof (cases "l = Tip")
    case True
    then show ?thesis using "1.prems"(2) t parts by (subst (asm) remove_min.simps) auto
  next
    case False
    then obtain l' where "remove_min l = Some (succ, l')" "balance (update_stats (Node l' m h e s z r)) = Some t'"
      using "1.prems"(2) t by (subst (asm) remove_min.simps) (auto simp: bind_eq_Some_conv simp del: update_stats.simps)
    then show ?thesis using "1.IH"[OF t False parts(3)] parts balance_node_fits by blast
  qed
qed

lemma remove_node_fits: "tree_fits B t \<Longrightarrow> remove_node t i = Some t' \<Longrightarrow> tree_fits B t'"
proof (induction t i arbitrary: t' rule: remove_node.induct)
  case (1 t i)
  obtain l m h e s z r where t: "push_delta t = Node l m h e s z r"
    using "1.prems"(2) by (subst (asm) remove_node.simps) (auto split: MarkerNode.splits)
  note parts = push_delta_parts[OF "1.prems"(1) t]
  note del = "1.prems"(2)[unfolded remove_node.simps[of t i] t MarkerNode.case]
  consider "m_id m = i" "l \<noteq> Tip" "r \<noteq> Tip" | "m_id m = i" "l = Tip \<or> r = Tip"
    | "m_id m \<noteq> i" "has_id l i" | "m_id m \<noteq> i" "\<not> has_id l i" by blast
  then show ?case
  proof cases
    case 1
    then obtain succ r' where "remove_min r = Some (succ, r')" "balance (update_stats (Node l succ h e s z r')) = Some t'"
      using del by (auto simp: bind_eq_Some_conv simp del: update_stats.simps)
    then show ?thesis using remove_min_fits[OF parts(4)] parts balance_node_fits by blast
  next
    case 2
    then show ?thesis using del parts by (auto split: if_splits)
  next
    case 3
    then obtain l' where "remove_node l i = Some l'" "balance (update_stats (Node l' m h e s z r)) = Some t'"
      using del by (auto simp: bind_eq_Some_conv simp del: update_stats.simps)
    then show ?thesis using "1.IH"(1)[OF t 3 parts(3)] parts balance_node_fits by blast
  next
    case 4
    then obtain r' where "remove_node r i = Some r'" "balance (update_stats (Node l m h e s z r')) = Some t'"
      using del by (auto simp: bind_eq_Some_conv simp del: update_stats.simps)
    then show ?thesis using "1.IH"(2)[OF t 4 parts(4)] parts balance_node_fits by blast
  qed
qed

lemma shifts_right: "pos \<le> start \<and> \<not> (delta < 0 \<or> pos = start) \<longleftrightarrow> pos < start \<and> 0 \<le> delta" for pos start delta :: int
  by auto

lemma adjusted_marker_fits:
  "marker_fits B m \<Longrightarrow> 0 \<le> pos \<Longrightarrow> marker_fits (B + max delta 0) (adjust_marker pos delta m)"
  by (auto simp: marker_fits_def adjust_marker_def adjusted_start_def adjusted_end_def Let_def)

lemma adjust_recursive_fits:
  "tree_fits B t \<Longrightarrow> 0 \<le> pos \<Longrightarrow> tree_fits (B + max delta 0) (adjust_recursive t pos delta)"
proof (induction t pos delta rule: adjust_recursive.induct)
  case (1 t pos delta)
  show ?case
  proof (cases "push_delta t")
    case Tip
    then show ?thesis using tree_fits_nonneg[OF "1.prems"(1)] by (simp add: adjust_recursive.simps)
  next
    case (Node l m h e s z r)
    note parts = push_delta_parts[OF "1.prems"(1) Node]
    have l: "tree_fits (B + max delta 0) (if pos \<le> m_start m then adjust_recursive l pos delta else l)"
      using "1.IH"(2)[OF Node refl refl refl refl] parts(3) "1.prems"(2) tree_fits_mono[OF parts(3), of "B + max delta 0"] by simp
    have r: "tree_fits (B + max delta 0)
        (if pos < m_start m \<and> 0 \<le> delta then add_lazy delta r else adjust_recursive r pos delta)"
      using "1.IH"(1)[OF Node refl refl refl refl, unfolded shifts_right] parts(4) "1.prems"(2) tree_fits_add_lazy[OF parts(4), of delta] by simp
    show ?thesis unfolding adjust_recursive_Node[OF Node]
      by (rule tree_fits_node[OF l adjusted_marker_fits[OF parts(2) "1.prems"(2)] r parts(1)])
  qed
qed

text \<open>With numbers that fit, the arithmetic of the source is exact.\<close>

lemma add_lazy_exact:
  "tree_fits B t \<Longrightarrow> \<bar>d\<bar> + B < 2 ^ 63 \<Longrightarrow> add_lazy_i64 d t = Some (add_lazy d t)"
  by (cases t) (auto simp: marker_fits_def intro!: add_i64_Some)

lemma push_delta_exact:
  assumes "tree_fits B t" "B < 2 ^ 63"
  shows "push_delta_i64 t = Some (push_delta t)"
proof (cases t)
  case (Node l m h e s z r)
  show ?thesis
  proof (cases "z = 0")
    case False
    have z: "0 \<le> z" "marker_fits (B - z) m" "tree_fits (B - z) l" "tree_fits (B - z) r" "z \<le> B"
      using assms Node by (auto simp: marker_fits_def)
    have "add_i64 (as_i64 (m_start m)) z = Some (m_start m + z)" "add_i64 (as_i64 (m_end m)) z = Some (m_end m + z)"
      "as_u64 (m_start m + z) = m_start m + z" "as_u64 (m_end m + z) = m_end m + z"
      using z assms(2) by (auto simp: marker_fits_def as_i64_small as_u64_small intro!: add_i64_Some)
    moreover have "add_lazy_i64 z l = Some (add_lazy z l)" "add_lazy_i64 z r = Some (add_lazy z r)"
      using add_lazy_exact[OF z(3)] add_lazy_exact[OF z(4)] z(1) assms(2) by simp_all
    ultimately show ?thesis using Node False by (simp add: Let_def resolved_def pushed_max_def)
  qed (simp add: Node pushed_max_def)
qed simp

lemma adjusted_start_exact:
  assumes "0 \<le> pos" "0 \<le> start" "start + \<bar>delta\<bar> < 2 ^ 63"
  shows "adjusted_start_i64 pos delta (\<not> gravity) start = Some (adjusted_start pos delta gravity start)"
proof (cases "pos \<le> start")
  case True
  have "as_i64 start = start" "as_i64 pos = pos" "add_i64 start delta = Some (start + delta)"
    using assms True by (auto intro!: as_i64_small add_i64_Some)
  moreover have "as_u64 (max (start + delta) pos) = max (start + delta) pos" "delta \<ge> 0 \<Longrightarrow> as_u64 (start + delta) = start + delta"
    using assms True by (auto intro!: as_u64_small)
  ultimately show ?thesis by (auto simp: adjusted_start_i64_def adjusted_start_def)
qed (simp add: adjusted_start_i64_def adjusted_start_def)

lemma adjusted_end_exact:
  assumes "0 \<le> start'" "start' < 2 ^ 63" "0 \<le> fin" "fin + \<bar>delta\<bar> < 2 ^ 63"
  shows "adjusted_end_i64 pos delta (\<not> gravity) start' fin = Some (adjusted_end pos delta gravity start' fin)"
proof -
  have "as_i64 fin = fin" "as_i64 start' = start'" "add_i64 fin delta = Some (fin + delta)"
    "as_u64 (max (fin + delta) start') = max (fin + delta) start'"
    using assms by (auto intro!: as_i64_small add_i64_Some as_u64_small)
  then show ?thesis by (simp add: adjusted_end_i64_def adjusted_end_def)
qed

lemma adjust_recursive_exact:
  assumes "0 \<le> pos" "B + \<bar>delta\<bar> < 2 ^ 63"
  shows "tree_fits B t \<Longrightarrow> adjust_recursive_i64 t pos delta = Some (adjust_recursive t pos delta)"
  using assms
proof (induction t pos delta rule: adjust_recursive.induct)
  case (1 t pos delta)
  have push: "push_delta_i64 t = Some (push_delta t)" using push_delta_exact[OF "1.prems"(1)] "1.prems"(3) by simp
  show ?case
  proof (cases "push_delta t")
    case Tip
    then show ?thesis using push by (simp add: adjust_recursive.simps adjust_recursive_i64.simps[of t])
  next
    case (Node l m h e s z r)
    note parts = push_delta_parts[OF "1.prems"(1) Node]
    let ?start = "adjusted_start pos delta (right_gravity m) (m_start m)"
    have m: "0 \<le> m_start m" "m_start m + \<bar>delta\<bar> < 2 ^ 63" "0 \<le> m_end m" "m_end m + \<bar>delta\<bar> < 2 ^ 63"
      using parts(2) "1.prems"(3) by (auto simp: marker_fits_def)
    have s: "0 \<le> ?start" "?start < 2 ^ 63" using m "1.prems"(2) by (auto simp: adjusted_start_def)
    have lazy: "add_lazy_i64 delta r = Some (add_lazy delta r)" using add_lazy_exact[OF parts(4)] "1.prems"(3) by simp
    have r: "(if pos \<le> m_start m \<and> \<not> (delta < 0 \<or> pos = m_start m) then add_lazy_i64 delta r else adjust_recursive_i64 r pos delta) =
        Some (if pos \<le> m_start m \<and> \<not> (delta < 0 \<or> pos = m_start m) then add_lazy delta r else adjust_recursive r pos delta)"
      using "1.IH"(1)[OF Node refl refl refl refl _ parts(4) "1.prems"(2,3)] lazy by simp
    have l: "(if pos \<le> m_start m then adjust_recursive_i64 l pos delta else Some l) =
        Some (if pos \<le> m_start m then adjust_recursive l pos delta else l)"
      using "1.IH"(2)[OF Node refl refl refl refl refl _ parts(3) "1.prems"(2,3)] by simp
    show ?thesis
      unfolding adjust_recursive_Node[OF Node] adjust_recursive_i64.simps[of t] push Node option.case MarkerNode.case
        Let_def adjusted_start_exact[OF "1.prems"(2) m(1,2)] bind.bind_lunit r[unfolded shifts_right] l adjusted_end_exact[OF s m(3,4)] adjust_marker_def shifts_right
      by (rule refl)
  qed
qed

lemma collect_starts_at_fits:
  "tree_fits (B - acc) t \<Longrightarrow> 0 \<le> acc \<Longrightarrow> m \<in> set (collect_starts_at t acc pos) \<Longrightarrow> marker_fits B m \<and> m_start m = pos"
proof (induction t acc pos rule: collect_starts_at.induct)
  case (2 l m' h e s z r acc pos)
  have fit: "marker_fits B (resolved m' (acc + z))"
    using "2.prems"(1,2) marker_fits_resolved[of "B - acc - z" m' "acc + z"] by simp
  have parts: "tree_fits (B - (acc + z)) l" "tree_fits (B - (acc + z)) r" "0 \<le> acc + z"
    using "2.prems"(1,2) by (simp_all add: diff_diff_eq)
  show ?case using "2.prems"(3) "2.IH" parts fit by (auto simp: Let_def resolved_def split: if_splits)
qed simp

lemma collect_nodes_fits:
  "tree_fits (B - acc) t \<Longrightarrow> 0 \<le> acc \<Longrightarrow> m \<in> set (collect_nodes_in_order t acc) \<Longrightarrow> marker_fits B m"
proof (induction t acc rule: collect_nodes_in_order.induct)
  case (2 l m' h e s z r acc)
  have "marker_fits B (resolved m' (acc + z))"
    using "2.prems"(1,2) marker_fits_resolved[of "B - acc - z" m' "acc + z"] by simp
  moreover have "tree_fits (B - (acc + z)) l" "tree_fits (B - (acc + z)) r" "0 \<le> acc + z"
    using "2.prems"(1,2) by (simp_all add: diff_diff_eq)
  ultimately show ?case using "2.prems"(3) "2.IH" by auto
qed simp

lemma build_fits: "(\<And>m. m \<in> set ms \<Longrightarrow> marker_fits B m) \<Longrightarrow> 0 \<le> B \<Longrightarrow> tree_fits B (build_from_sorted ms)"
proof (induction ms rule: build_from_sorted.induct)
  case (1 ms)
  show ?case
  proof (cases "ms = []")
    case False
    let ?mid = "length ms div 2"
    have "tree_fits B (build_from_sorted (take ?mid ms))" "tree_fits B (build_from_sorted (drop (?mid + 1) ms))"
      using "1.IH"(1)[OF False refl] "1.IH"(2)[OF False refl refl] "1.prems" by (auto dest: in_set_takeD in_set_dropD)
    moreover have "marker_fits B (ms ! ?mid)" using "1.prems"(1) half_less[OF False] by simp
    ultimately have "tree_fits B (update_stats (Node (build_from_sorted (take ?mid ms)) (ms ! ?mid) 1 (m_end (ms ! ?mid)) 1 0
        (build_from_sorted (drop (?mid + 1) ms))))"
      by (intro tree_fits_node) simp_all
    then show ?thesis using False by (subst build_from_sorted.simps) (simp add: Let_def)
  qed (use 1 in \<open>simp add: build_from_sorted.simps\<close>)
qed

abbreviation it_fits :: "int \<Rightarrow> IntervalTree \<Rightarrow> bool" where
  "it_fits B tr \<equiv> tree_fits B (it_root tr)"

lemma insert_full_fits:
  "it_fits B tr \<Longrightarrow> 0 \<le> a \<Longrightarrow> a \<le> B \<Longrightarrow> 0 \<le> b \<Longrightarrow> b \<le> B \<Longrightarrow> insert_full tr a b ty g ord = Some (tr', i) \<Longrightarrow> it_fits B tr'"
  using insert_recursive_fits[of B "it_root tr" "\<lparr>m_id = it_next_id tr, m_start = a, m_end = b, m_type = ty, right_gravity = g, m_order = ord\<rparr>"]
  by (auto simp: insert_full_def bind_eq_Some_conv marker_fits_def Let_def)

lemma it_delete_fits: "it_fits B tr \<Longrightarrow> it_delete tr i = Some (tr', d) \<Longrightarrow> it_fits B tr'"
  by (auto simp: it_delete_def split: if_splits dest: remove_node_fits)

lemma insert_with_id_fits:
  "it_fits B tr \<Longrightarrow> 0 \<le> a \<Longrightarrow> a \<le> B \<Longrightarrow> 0 \<le> b \<Longrightarrow> b \<le> B \<Longrightarrow> tree_insert_with_id tr i a b ty g ord = Some tr' \<Longrightarrow> it_fits B tr'"
  using insert_recursive_fits[of B "it_root tr" "\<lparr>m_id = i, m_start = a, m_end = b, m_type = ty, right_gravity = g, m_order = ord\<rparr>"]
  by (auto simp: tree_insert_with_id_def marker_fits_def split: if_splits)

lemma set_position_fits:
  assumes "it_fits B tr" "0 \<le> a" "a \<le> B" "set_position tr i a a = Some (tr', f)"
  shows "it_fits B tr'"
proof (cases "get_marker tr i")
  case (Some m)
  obtain tr1 d where del: "it_delete tr i = Some (tr1, d)" using assms(4) Some
    by (auto simp: set_position_def bind_eq_Some_conv)
  then have "it_fits B tr1" using it_delete_fits[OF assms(1)] by blast
  then show ?thesis using assms(2-4) Some del insert_with_id_fits[of B tr1 a a]
    by (auto simp: set_position_def bind_eq_Some_conv split: if_splits)
qed (use assms in \<open>simp add: set_position_def\<close>)

lemma delete_all_fits: "it_fits B tr \<Longrightarrow> delete_all tr ms = Some tr' \<Longrightarrow> it_fits B tr'"
  by (induction ms arbitrary: tr) (auto simp: bind_eq_Some_conv dest: it_delete_fits)

lemma reinsert_all_fits:
  "it_fits B tr \<Longrightarrow> 0 \<le> pos \<Longrightarrow> pos \<le> B \<Longrightarrow> 0 \<le> delta \<Longrightarrow>
   (\<And>m. m \<in> set ms \<Longrightarrow> 0 \<le> m_end m \<and> m_end m + delta \<le> B) \<Longrightarrow>
   reinsert_all tr pos delta ms = Some tr' \<Longrightarrow> it_fits B tr'"
proof (induction ms arbitrary: tr)
  case (Cons m ms)
  let ?fin = "if m_end m > pos then m_end m + delta else m_end m"
  obtain tr1 where tr1: "tree_insert_with_id tr (m_id m) pos ?fin (m_type m) False (m_order m) = Some tr1"
      "reinsert_all tr1 pos delta ms = Some tr'"
    using Cons.prems(6) by (auto simp: bind_eq_Some_conv Let_def)
  have "0 \<le> ?fin" "?fin \<le> B" using Cons.prems(4) Cons.prems(5)[of m] by auto
  then have "it_fits B tr1" using insert_with_id_fits[OF Cons.prems(1-3) _ _ tr1(1)] by blast
  then show ?case using Cons.IH[OF _ Cons.prems(2-4) _ tr1(2)] Cons.prems(5) by simp
qed simp

lemma adjust_for_edit_fits:
  assumes "it_fits B tr" "0 \<le> pos" "adjust_for_edit tr pos delta = Some tr'"
  shows "it_fits (B + max delta 0) tr'"
proof -
  let ?at = "if delta > 0 then collect_starts_at (it_root tr) 0 pos else []"
  let ?stayers = "filter (\<lambda>m. \<not> right_gravity m) ?at"
  have at: "marker_fits B m \<and> m_start m = pos" if "m \<in> set ?at" for m
    using that collect_starts_at_fits[of B 0 "it_root tr" m pos] assms(1) by (auto split: if_splits)
  show ?thesis
  proof (cases "delta > 0 \<and> list_ex right_gravity ?at \<and> ?stayers \<noteq> []")
    case True
    then obtain tr1 where tr1: "delete_all tr ?stayers = Some tr1"
        "reinsert_all (tr1\<lparr>it_root := adjust_recursive (it_root tr1) pos delta\<rparr>) pos delta ?stayers = Some tr'"
      using assms(3) by (auto simp: adjust_for_edit_def Let_def bind_eq_Some_conv)
    obtain m where "m \<in> set ?at" using True by (auto simp: list_ex_iff)
    then have "pos \<le> B + max delta 0" using at[of m] by (auto simp: marker_fits_def)
    moreover have "it_fits (B + max delta 0) (tr1\<lparr>it_root := adjust_recursive (it_root tr1) pos delta\<rparr>)"
      using adjust_recursive_fits[OF delete_all_fits[OF assms(1) tr1(1)] assms(2)] by simp
    moreover have "0 \<le> m_end m \<and> m_end m + delta \<le> B + max delta 0" if "m \<in> set ?stayers" for m
      using at[of m] that True by (auto simp: marker_fits_def)
    ultimately show ?thesis using reinsert_all_fits[OF _ assms(2) _ _ _ tr1(2)] True by simp
  next
    case False
    then have "tr' = tr\<lparr>it_root := adjust_recursive (it_root tr) pos delta\<rparr>"
      using assms(3) unfolding adjust_for_edit_def Let_def by (simp only: if_not_P if_False option.inject)
    then show ?thesis using adjust_recursive_fits[OF assms(1,2)] by simp
  qed
qed

text \<open>The lengths that a list of net edits adds.\<close>

fun growth :: "(int \<times> int) list \<Rightarrow> int" where
  "growth [] = 0"
| "growth ((_, delta) # es) = max delta 0 + growth es"

lemma growth_nonneg [simp]: "0 \<le> growth es"
  by (induction es rule: growth.induct) auto

lemma growth_append [simp]: "growth (xs @ ys) = growth xs + growth ys"
  by (induction xs rule: growth.induct) auto

lemma growth_rev [simp]: "growth (rev xs) = growth xs"
  by (induction xs rule: growth.induct) auto

lemma growth_mset: "mset xs = mset ys \<Longrightarrow> growth xs = growth ys"
proof -
  have "growth xs = (\<Sum>e\<in>#mset xs. max (snd e) 0)" for xs by (induction xs rule: growth.induct) auto
  then show "mset xs = mset ys \<Longrightarrow> growth xs = growth ys" by simp
qed

lemma growth_filter: "growth (filter P xs) \<le> growth xs"
  by (induction xs rule: growth.induct) auto

lemma adjust_each_fits:
  "it_fits B tr \<Longrightarrow> list_all (\<lambda>(p, _). 0 \<le> p) es \<Longrightarrow> adjust_each tr es = Some tr' \<Longrightarrow> it_fits (B + growth es) tr'"
proof (induction tr es arbitrary: B rule: adjust_each.induct)
  case (2 tr pos delta es)
  then obtain tr1 where "adjust_for_edit tr pos delta = Some tr1" "adjust_each tr1 es = Some tr'"
    by (auto simp: bind_eq_Some_conv)
  then show ?case using "2.IH"[of tr1 "B + max delta 0"] adjust_for_edit_fits[of B tr pos delta tr1] "2.prems"
    by (simp add: add.assoc)
qed simp

lemma prefix_sums_bound:
  "i < length es \<Longrightarrow> prefix_sums run es ! i + max (snd (es ! i)) 0 \<le> run + growth es"
proof (induction run es arbitrary: i rule: prefix_sums.induct)
  case (2 run p delta es)
  show ?case
  proof (cases i)
    case (Suc j)
    then show ?thesis using 2(1)[of j] 2(2) by simp
  qed simp
qed simp

lemma take_prefix_sums: "take n (prefix_sums run es) = prefix_sums run (take n es)"
  by (induction run es arbitrary: n rule: prefix_sums.induct) (auto simp: take_Cons split: nat.splits)

lemma map_coord_fits:
  assumes "0 \<le> coord" "coord \<le> C"
  shows "0 \<le> map_coord coord left_gravity es (prefix_sums 0 es) \<and> map_coord coord left_gravity es (prefix_sums 0 es) \<le> C + growth es"
proof (cases "partition_point (\<lambda>(pos, _). pos \<le> coord) es")
  case 0
  then show ?thesis using assms by (simp add: map_coord_def add_increasing2)
next
  case (Suc i)
  have i: "i < length es" "fst (es ! i) \<le> coord"
    using Suc nth_mem[of i "takeWhile (\<lambda>(pos, _). pos \<le> coord) es"] takeWhile_nth[of i "\<lambda>(pos, _). pos \<le> coord" es]
      length_takeWhile_le[of "\<lambda>(pos, _). pos \<le> coord" es]
    by (auto simp: partition_point_def dest: set_takeWhileD)
  obtain pos delta where e: "es ! i = (pos, delta)" by force
  have "prefix_sums 0 es ! i + max delta 0 \<le> growth es" using prefix_sums_bound[OF i(1), of 0] e by simp
  then show ?thesis using assms i(2) e Suc growth_nonneg[of es] by (auto simp: map_coord_def Let_def)
qed

lemma shift_inner_bound:
  "fin \<le> C \<Longrightarrow> old_start \<le> C \<Longrightarrow> shift_inner left_gravity old_start es fin \<le> C + growth es"
proof (induction left_gravity old_start es fin arbitrary: C rule: shift_inner.induct)
  case (2 left_gravity old_start pos delta es fin)
  show ?case using 2(1)[of "C + max delta 0"] 2(2,3) by (auto simp: add.assoc)
qed simp

lemma bulk_adjust_marker_fits:
  assumes "marker_fits B m"
  shows "marker_fits (B + growth ordered) (bulk_adjust_marker ordered (prefix_sums 0 ordered) m)"
proof -
  let ?g = "partition_point (\<lambda>(pos, _). pos \<le> m_start m) ordered"
  let ?fin = "max (m_end m) (m_start m)"
  let ?n = "partition_point (\<lambda>(pos, _). pos \<le> ?fin) ordered - ?g"
  let ?fin' = "shift_inner (\<not> right_gravity m) (m_start m) (rev (take ?n (drop ?g ordered))) ?fin"
  let ?map = "\<lambda>c. map_coord c (\<not> right_gravity m) (take ?g ordered) (prefix_sums 0 (take ?g ordered))"
  have all: "growth ordered = growth (take ?g ordered) + (growth (take ?n (drop ?g ordered)) + growth (drop ?n (drop ?g ordered)))"
    by (metis append_take_drop_id growth_append)
  have "0 \<le> ?map (m_start m) \<and> ?map (m_start m) \<le> B + growth (take ?g ordered)"
    using assms by (intro map_coord_fits) (simp_all add: marker_fits_def)
  then have start: "0 \<le> ?map (m_start m)" "?map (m_start m) \<le> B + growth ordered"
    using all growth_nonneg[of "take ?n (drop ?g ordered)"] growth_nonneg[of "drop ?n (drop ?g ordered)"] by linarith+
  have "?fin' \<le> B + growth (take ?n (drop ?g ordered))"
    using shift_inner_bound[of ?fin B "m_start m" _ "rev (take ?n (drop ?g ordered))"] assms by (simp add: marker_fits_def)
  moreover have "0 \<le> B" using assms by (simp add: marker_fits_def)
  ultimately have "?map (max ?fin' 0) \<le> B + growth (take ?n (drop ?g ordered)) + growth (take ?g ordered)"
    using map_coord_fits[of "max ?fin' 0" "B + growth (take ?n (drop ?g ordered))"] by simp
  then have "?map (max ?fin' 0) \<le> B + growth ordered" using all growth_nonneg[of "drop ?n (drop ?g ordered)"] by linarith
  then show ?thesis using start by (simp add: bulk_adjust_marker_def Let_def marker_fits_def take_prefix_sums)
qed

lemma adjust_for_bulk_edits_fits:
  assumes "it_fits B tr" "adjust_for_bulk_edits tr es = Some tr'"
  shows "it_fits (B + growth es) tr'"
proof -
  let ?ordered = "sort_key fst (filter (\<lambda>(_, d). d \<noteq> 0) es)"
  have "growth ?ordered \<le> growth es" using growth_mset[of ?ordered "filter (\<lambda>(_, d). d \<noteq> 0) es"] growth_filter[of _ es] by simp
  then have m: "marker_fits (B + growth es) (bulk_adjust_marker ?ordered (prefix_sums 0 ?ordered) m)" if "marker_fits B m" for m
    using marker_fits_mono[OF bulk_adjust_marker_fits[OF that, of ?ordered]] by simp
  have B: "0 \<le> B + growth es" using tree_fits_nonneg[OF assms(1)] by (simp add: add_nonneg_nonneg)
  have "tree_fits (B + growth es) (build_from_sorted (sort_key marker_key
      (map (bulk_adjust_marker ?ordered (prefix_sums 0 ?ordered)) (collect_nodes_in_order (it_root tr) 0))))"
    using collect_nodes_fits[of B 0 "it_root tr"] assms(1) by (intro build_fits B) (auto intro: m)
  moreover have "it_fits (B + growth es) tr" using tree_fits_mono[OF assms(1)] by simp
  ultimately show ?thesis using assms(2) by (auto simp: adjust_for_bulk_edits_def Let_def split: if_splits)
qed

lemma insert_each_fits:
  "it_fits B tr \<Longrightarrow> list_all (\<lambda>(a, b). 0 \<le> a \<and> a \<le> B \<and> 0 \<le> b \<and> b \<le> B) ivs \<Longrightarrow> insert_each tr ivs = Some (tr', ids) \<Longrightarrow> it_fits B tr'"
  by (induction tr ivs arbitrary: ids rule: insert_each.induct)
    (auto simp: bind_eq_Some_conv it_insert_def dest: insert_full_fits)

lemma number_markers_fits:
  "list_all (\<lambda>(a, b). 0 \<le> a \<and> a \<le> B \<and> 0 \<le> b \<and> b \<le> B) ivs \<Longrightarrow> m \<in> set (number_markers i ivs) \<Longrightarrow> marker_fits B m"
  by (induction i ivs rule: number_markers.induct) (auto simp: marker_fits_def)

lemma insert_many_fits:
  assumes "it_fits B tr" "list_all (\<lambda>(a, b). 0 \<le> a \<and> a \<le> B \<and> 0 \<le> b \<and> b \<le> B) ivs" "insert_many tr ivs = Some (tr', ids)"
  shows "it_fits B tr'"
proof -
  have "tree_fits B (build_from_sorted (sort_key marker_key (collect_nodes_in_order (it_root tr) 0 @ number_markers (it_next_id tr) ivs)))"
    using collect_nodes_fits[of B 0 "it_root tr"] assms(1) number_markers_fits[OF assms(2)] tree_fits_nonneg
    by (intro build_fits) auto
  then show ?thesis using assms insert_each_fits[of B tr ivs tr' ids] by (auto simp: insert_many_def Let_def split: if_splits)
qed

lemma query_recursive_fits: "tree_fits B t \<Longrightarrow> tree_fits B (snd (query_recursive t a b))"
proof (induction "count_nodes t" arbitrary: t rule: less_induct)
  case less
  show ?case
  proof (cases "push_delta t")
    case (Node l m h e s z r)
    note parts = push_delta_parts[OF less.prems Node]
    have e: "0 \<le> e \<and> e \<le> B" using tree_fits_push[OF less.prems] Node by simp
    have "count_nodes l < count_nodes t" "count_nodes r < count_nodes t"
      using Node by (cases t; auto dest: push_delta_Node)+
    then have "tree_fits B (snd (query_recursive l a b))" "tree_fits B (snd (query_recursive r a b))"
      using less.hyps parts by blast+
    then show ?thesis using parts e by (subst query_recursive.simps) (auto simp: Node Let_def case_prod_beta)
  qed (use less.prems tree_fits_nonneg in \<open>subst query_recursive.simps, auto\<close>)
qed

subsection \<open>Sequences of operations\<close>

text \<open>The positions that an operation is given are at most \<open>P\<close>, and the lengths of text it inserts and deletes.\<close>

fun op_within :: "nat \<Rightarrow> MarkerOp \<Rightarrow> bool" where
  "op_within P (Create p) \<longleftrightarrow> p \<le> P"
| "op_within P (CreateLeftGravity p) \<longleftrightarrow> p \<le> P"
| "op_within P (CreateOrdered p _ _) \<longleftrightarrow> p \<le> P"
| "op_within P (CreateSpan s e) \<longleftrightarrow> s \<le> P \<and> e \<le> P"
| "op_within P (CreateOverlays ranges) \<longleftrightarrow> list_all (\<lambda>(s, e). s \<le> P \<and> e \<le> P) ranges"
| "op_within P (SetPosition _ p) \<longleftrightarrow> p \<le> P"
| "op_within P (InsertText p _) \<longleftrightarrow> p \<le> P"
| "op_within P (DeleteText p _) \<longleftrightarrow> p \<le> P"
| "op_within P (BulkEdits es) \<longleftrightarrow> list_all (\<lambda>(p, _, _). p \<le> P) es"
| "op_within P _ \<longleftrightarrow> True"

fun op_len :: "MarkerOp \<Rightarrow> nat" where
  "op_len (InsertText _ n) = n"
| "op_len (DeleteText _ n) = n"
| "op_len (BulkEdits es) = sum_list (map (\<lambda>(_, del_len, ins_len). del_len + ins_len) es)"
| "op_len _ = 0"

definition ops_len :: "MarkerOp list \<Rightarrow> nat" where
  "ops_len ops = sum_list (map op_len ops)"

lemma growth_net_edits: "growth (net_edits es) \<le> int (sum_list (map (\<lambda>(_, del_len, ins_len). del_len + ins_len) es))"
proof -
  have "growth (map (\<lambda>(pos, del_len, ins_len). (int pos, int ins_len - int del_len)) es) \<le>
      int (sum_list (map (\<lambda>(_, del_len, ins_len). del_len + ins_len) es))"
    by (induction es) auto
  then show ?thesis unfolding net_edits_def by (rule order_trans[OF growth_filter])
qed

lemma overlay_intervals_within:
  "list_all (\<lambda>(s, e). s \<le> P \<and> e \<le> P) ranges \<Longrightarrow> int P \<le> B \<Longrightarrow>
   list_all (\<lambda>(a, b). 0 \<le> a \<and> a \<le> B \<and> 0 \<le> b \<and> b \<le> B) (overlay_intervals ranges)"
  by (induction ranges rule: overlay_intervals.induct) auto

abbreviation ml_fits :: "int \<Rightarrow> MarkerList \<Rightarrow> bool" where
  "ml_fits B ml \<equiv> it_fits B (ml_tree ml)"

lemma bulk_op_fits:
  assumes "ml_fits B ml" "ml_adjust_for_bulk_edits ml es = Some ml'"
  shows "ml_fits (B + growth (net_edits es)) ml'"
proof -
  obtain tr where "adjust_for_bulk_edits (ml_tree ml) (net_edits es) = Some tr \<or> adjust_each (ml_tree ml) (net_edits es) = Some tr"
      "ml' = ml\<lparr>ml_tree := tr\<rparr>"
    using assms(2) by (auto simp: ml_adjust_for_bulk_edits_def Let_def split: if_splits)
  then show ?thesis using adjust_for_bulk_edits_fits[OF assms(1)] adjust_each_fits[OF assms(1) net_edits_nonneg] by auto
qed

lemma run_op_fits:
  assumes "ml_fits B ml" "int P \<le> B" "op_within P op" "run_op op ml = Some ml'"
  shows "ml_fits (B + int (op_len op)) ml'"
proof -
  note created = ml_create_def create_left_gravity_def create_ordered_def create_span_def
    it_insert_def insert_left_gravity_def insert_ordered_def bind_eq_Some_conv
  have ins: "it_fits B tr'" if "a \<le> P" "b \<le> P" "insert_full (ml_tree ml) (int a) (int b) ty g ord = Some (tr', i)" for a b ty g ord tr' i
    using insert_full_fits[OF assms(1) _ _ _ _ that(3)] that(1,2) assms(2) by simp
  show ?thesis
  proof (cases op)
    case (CreateOverlays ranges)
    have ivs: "list_all (\<lambda>(a, b). 0 \<le> a \<and> a \<le> B \<and> 0 \<le> b \<and> b \<le> B) (overlay_intervals ranges)"
      using overlay_intervals_within[of P ranges B] assms(2,3) CreateOverlays by simp
    show ?thesis using assms(4) insert_many_fits[OF assms(1) ivs] CreateOverlays
      by (auto simp: create_overlay_markers_bulk_def bind_eq_Some_conv case_prod_beta Let_def)
  next
    case (DeleteMarker i)
    then show ?thesis using assms(4) it_delete_fits[OF assms(1)] by (auto simp: ml_delete_def bind_eq_Some_conv)
  next
    case (SetPosition i p)
    then show ?thesis using assms(2-4) set_position_fits[OF assms(1), of "int p" i]
      by (auto simp: ml_set_position_def bind_eq_Some_conv)
  next
    case (InsertText p n)
    then show ?thesis using assms(1,4) adjust_for_edit_fits[OF assms(1), of "int p" "int n"]
      by (auto simp: adjust_for_insert_def split: if_splits)
  next
    case (DeleteText p n)
    then show ?thesis using assms(1,4) adjust_for_edit_fits[OF assms(1), of "int p" "- int n"] tree_fits_mono[of B _ "B + int n"]
      by (auto simp: adjust_for_delete_def split: if_splits)
  next
    case (BulkEdits es)
    then show ?thesis using assms(4) bulk_op_fits[OF assms(1), of es ml'] growth_net_edits[of es]
        tree_fits_mono[of "B + growth (net_edits es)" _ "B + int (op_len op)"] by simp
  next
    case (QueryRange s e)
    then show ?thesis using assms(1,4) query_recursive_fits[OF assms(1), of "int s" "int e"]
      by (auto simp: query_range_def query_def case_prod_beta)
  next
    case (Create p)
    then show ?thesis using assms(3,4) ins[of p p] by (auto simp: created)
  next
    case (CreateLeftGravity p)
    then show ?thesis using assms(3,4) ins[of p p] by (auto simp: created)
  next
    case (CreateOrdered p ord lg)
    then show ?thesis using assms(3,4) ins[of p p] by (auto simp: created)
  next
    case (CreateSpan a b)
    then show ?thesis using assms(3,4) ins[of a "max b a"] by (auto simp: created)
  qed
qed

lemma run_ops_fits:
  "ml_fits B ml \<Longrightarrow> int P \<le> B \<Longrightarrow> list_all (op_within P) ops \<Longrightarrow> run_ops ops ml = Some ml' \<Longrightarrow>
   ml_fits (B + int (ops_len ops)) ml'"
proof (induction ops arbitrary: B ml)
  case (Cons op ops)
  then obtain ml1 where "run_op op ml = Some ml1" "run_ops ops ml1 = Some ml'" by (auto simp: bind_eq_Some_conv)
  then show ?case using Cons.IH[of "B + int (op_len op)" ml1] run_op_fits[of B ml P op ml1] Cons.prems
    by (simp add: ops_len_def add.assoc)
qed (simp add: ops_len_def)

text \<open>
  C19: operations on markers run to their end, and their numbers stay in range. Let the positions given to any
  sequence of creations, deletions, moves, edits, bulk edits and queries be at most \<open>P\<close>, and \<open>P\<close> with the lengths of
  all edits be below two to the 63. Then the sequence runs to its end from the empty list without a missing node
  or a failed assertion, the affinity table has one entry for each marker of the tree, and every number
  in the tree, with the shifts pending above it, lies between zero and that sum. For a further insertion or
  deletion within the bound, the arithmetic of the source on \<open>u64\<close> and \<open>i64\<close> is exact: no cast
  wraps around and no sum overflows.
\<close>

theorem marker_operations_complete:
  assumes "list_all (op_within P) ops" and "P + ops_len ops < 2 ^ 63"
  shows "\<exists>ml. run_ops ops ml_new = Some ml \<and> marker_count ml = ml_len ml \<and>
     tree_fits (int (P + ops_len ops)) (it_root (ml_tree ml)) \<and>
     (\<forall>pos n. pos \<le> P \<longrightarrow> P + ops_len ops + n < 2 ^ 63 \<longrightarrow>
        adjust_recursive_i64 (it_root (ml_tree ml)) (int pos) (as_i64 (int n)) =
          Some (adjust_recursive (it_root (ml_tree ml)) (int pos) (int n)) \<and>
        adjust_recursive_i64 (it_root (ml_tree ml)) (int pos) (- as_i64 (int n)) =
          Some (adjust_recursive (it_root (ml_tree ml)) (int pos) (- int n)))"
proof -
  obtain ml where ml: "run_ops ops ml_new = Some ml" "ml_ok ml" using run_ops_ok[OF ml_ok_new, of ops] by blast
  have "ml_fits (int P) ml_new" by (simp add: ml_new_def it_new_def)
  from run_ops_fits[OF this order_refl assms(1) ml(1)]
  have fits: "ml_fits (int (P + ops_len ops)) ml" by simp
  have "adjust_recursive_i64 (it_root (ml_tree ml)) (int pos) (as_i64 (int n)) =
          Some (adjust_recursive (it_root (ml_tree ml)) (int pos) (int n)) \<and>
        adjust_recursive_i64 (it_root (ml_tree ml)) (int pos) (- as_i64 (int n)) =
          Some (adjust_recursive (it_root (ml_tree ml)) (int pos) (- int n))" if "P + ops_len ops + n < 2 ^ 63" for pos n
  proof -
    have len: "int (P + ops_len ops) + int n < 2 ^ 63" using that by (simp flip: of_nat_add of_nat_less_iff)
    then have "as_i64 (int n) = int n" by (intro as_i64_small) simp_all
    then show ?thesis using adjust_recursive_exact[OF _ _ fits, of "int pos"] len by simp
  qed
  then show ?thesis using ml ml_ok_count[OF ml(2)] fits by blast
qed

theorem marker_operations_complete_witness:
  "\<exists>ml. run_ops [Create 5, CreateSpan 2 9, InsertText 3 4, DeleteText 0 6] ml_new = Some ml \<and>
     adjust_recursive_i64 (it_root (ml_tree ml)) 1 (- as_i64 2) = Some (adjust_recursive (it_root (ml_tree ml)) 1 (- 2))"
proof -
  have "list_all (op_within 9) [Create 5, CreateSpan 2 9, InsertText 3 4, DeleteText 0 6]"
    "(9::nat) + ops_len [Create 5, CreateSpan 2 9, InsertText 3 4, DeleteText 0 6] < 2 ^ 63"
    by (simp_all add: ops_len_def)
  then obtain ml where "run_ops [Create 5, CreateSpan 2 9, InsertText 3 4, DeleteText 0 6] ml_new = Some ml"
      "\<forall>pos n. pos \<le> 9 \<longrightarrow> 9 + ops_len [Create 5, CreateSpan 2 9, InsertText 3 4, DeleteText 0 6] + n < 2 ^ 63 \<longrightarrow>
        adjust_recursive_i64 (it_root (ml_tree ml)) (int pos) (- as_i64 (int n)) =
          Some (adjust_recursive (it_root (ml_tree ml)) (int pos) (- int n))"
    using marker_operations_complete by blast
  note run = this
  show ?thesis using run(1) run(2)[rule_format, of 1 2] by (simp add: ops_len_def)
qed

text \<open>
  Outside the bound the source does overflow: the length two to the 63 is negative as an \<open>i64\<close> and cannot be
  negated, so deleting so much text is a panic, and inserting it moves the markers as a deletion would.
\<close>

lemma length_overflows: "as_i64 (2 ^ 63) = - (2 ^ 63)" "add_i64 0 (- as_i64 (2 ^ 63)) = None"
  by (simp_all add: as_i64_def add_i64_def)

end
