(* ===== verification/Edit_Text.thy ===== *)
theory Edit_Text
  imports Prelude
begin

text \<open>
  The text of an edit event (\<open>EditText\<close> of \<open>model/event.rs\<close>): the exact bytes that were inserted or deleted beside
  a rendering of them as UTF-8. Modelled with the parts of the standard library it calls: the
  validation of \<open>String::from_utf8\<close> and the replacement of invalid sequences of \<open>String::from_utf8_lossy\<close>,
  both one scan over the bytes. A \<open>str\<close> is the list of its bytes.
\<close>

unbundle bit_operations_syntax

subsection \<open>UTF-8\<close>

definition continuation :: "byte \<Rightarrow> bool" where
  "continuation b \<longleftrightarrow> b AND 192 = 128"

definition utf8_char_width :: "byte \<Rightarrow> nat" where
  "utf8_char_width b =
     (if b < 128 then 1 else if 194 \<le> b \<and> b \<le> 223 then 2 else if 224 \<le> b \<and> b \<le> 239 then 3
      else if 240 \<le> b \<and> b \<le> 244 then 4 else 0)"

definition second_of_3 :: "byte \<Rightarrow> byte \<Rightarrow> bool" where
  "second_of_3 b c \<longleftrightarrow>
     (b = 224 \<and> 160 \<le> c \<and> c \<le> 191) \<or> (225 \<le> b \<and> b \<le> 236 \<and> 128 \<le> c \<and> c \<le> 191) \<or>
     (b = 237 \<and> 128 \<le> c \<and> c \<le> 159) \<or> (238 \<le> b \<and> b \<le> 239 \<and> 128 \<le> c \<and> c \<le> 191)"

definition second_of_4 :: "byte \<Rightarrow> byte \<Rightarrow> bool" where
  "second_of_4 b c \<longleftrightarrow>
     (b = 240 \<and> 144 \<le> c \<and> c \<le> 191) \<or> (241 \<le> b \<and> b \<le> 243 \<and> 128 \<le> c \<and> c \<le> 191) \<or>
     (b = 244 \<and> 128 \<le> c \<and> c \<le> 143)"

definition byte_or_0 :: "byte list \<Rightarrow> nat \<Rightarrow> byte" where
  "byte_or_0 bs i = (if i < length bs then bs ! i else 0)"

text \<open>One step of the scan: whether a character is at the front, and how many bytes were looked at.\<close>

definition utf8_step :: "byte list \<Rightarrow> bool \<times> nat" where
  "utf8_step bs =
     (let b = byte_or_0 bs 0; c = byte_or_0 bs 1; d = byte_or_0 bs 2; e = byte_or_0 bs 3; w = utf8_char_width b in
      if w = 1 then (True, 1)
      else if w = 2 then (if continuation c then (True, 2) else (False, 1))
      else if w = 3 then
        (if \<not> second_of_3 b c then (False, 1) else if continuation d then (True, 3) else (False, 2))
      else if w = 4 then
        (if \<not> second_of_4 b c then (False, 1) else if \<not> continuation d then (False, 2)
         else if continuation e then (True, 4) else (False, 3))
      else (False, 1))"

lemma utf8_step_pos: "0 < snd (utf8_step bs)"
  by (simp add: utf8_step_def Let_def)

function utf8_valid :: "byte list \<Rightarrow> bool" where
  "utf8_valid bs \<longleftrightarrow>
     (if bs = [] then True else fst (utf8_step bs) \<and> utf8_valid (drop (snd (utf8_step bs)) bs))"
  by pat_completeness auto
termination
proof (relation "measure length", goal_cases)
  case (2 bs)
  then show ?case using utf8_step_pos[of bs] by (cases bs) simp_all
qed simp

definition REPLACEMENT :: "byte list" where
  "REPLACEMENT = [239, 191, 189]"

function from_utf8_lossy :: "byte list \<Rightarrow> byte list" where
  "from_utf8_lossy bs =
     (if bs = [] then []
      else (case utf8_step bs of (ok, n) \<Rightarrow>
              (if ok then take n bs else REPLACEMENT) @ from_utf8_lossy (drop n bs)))"
  by pat_completeness auto
termination
proof (relation "measure length", goal_cases)
  case (2 bs ok n)
  then have "0 < n" using utf8_step_pos[of bs] by (metis snd_conv)
  then show ?case using 2 by (cases bs) simp_all
qed simp

declare utf8_valid.simps [simp del] from_utf8_lossy.simps [simp del]

subsection \<open>\<open>EditText\<close>\<close>

record EditText =
  et_text :: "byte list"
  et_raw :: "byte list option"

definition et_from_bytes :: "byte list \<Rightarrow> EditText" where
  "et_from_bytes bs =
     (if utf8_valid bs then \<lparr>et_text = bs, et_raw = None\<rparr>
      else \<lparr>et_text = from_utf8_lossy bs, et_raw = Some bs\<rparr>)"

definition as_bytes :: "EditText \<Rightarrow> byte list" where
  "as_bytes t = (case et_raw t of Some raw \<Rightarrow> raw | None \<Rightarrow> et_text t)"

definition et_len :: "EditText \<Rightarrow> nat" where
  "et_len t = length (as_bytes t)"

definition et_is_empty :: "EditText \<Rightarrow> bool" where
  "et_is_empty t \<longleftrightarrow> as_bytes t = []"

definition as_str :: "EditText \<Rightarrow> byte list" where
  "as_str t = et_text t"

definition et_from_str :: "byte list \<Rightarrow> EditText" where
  "et_from_str s = \<lparr>et_text = s, et_raw = None\<rparr>"

text \<open>What is written to a log: a plain string for UTF-8, otherwise the bytes.\<close>

datatype EditTextRepr = Repr_Text "byte list" | Repr_Bytes "byte list"

definition et_serialize :: "EditText \<Rightarrow> EditTextRepr" where
  "et_serialize t = (case et_raw t of None \<Rightarrow> Repr_Text (et_text t) | Some raw \<Rightarrow> Repr_Bytes raw)"

fun et_deserialize :: "EditTextRepr \<Rightarrow> EditText" where
  "et_deserialize (Repr_Text text) = et_from_str text"
| "et_deserialize (Repr_Bytes bytes) = et_from_bytes bytes"

subsection \<open>Exactness\<close>

lemma not_continuation_0: "\<not> continuation 0" "\<not> second_of_3 b 0" "\<not> second_of_4 b 0"
  by (simp_all add: continuation_def second_of_3_def second_of_4_def)

lemma byte_or_0_append: "i < length xs \<Longrightarrow> byte_or_0 (xs @ ys) i = byte_or_0 xs i"
  by (simp add: byte_or_0_def nth_append)

lemma byte_or_0_take: "i < n \<Longrightarrow> byte_or_0 (take n xs) i = byte_or_0 xs i"
  by (simp add: byte_or_0_def)

lemma utf8_step_cases:
  assumes "utf8_step bs = (True, n)"
  obtains "n = 1" | "n = 2" "continuation (byte_or_0 bs 1)" | "n = 3" "continuation (byte_or_0 bs 2)"
    | "n = 4" "continuation (byte_or_0 bs 3)"
  using assms unfolding utf8_step_def Let_def by (simp split: if_splits)

lemma utf8_step_length:
  assumes "utf8_step bs = (True, n)" "bs \<noteq> []"
  shows "n \<le> length bs"
proof (rule ccontr)
  assume len: "\<not> n \<le> length bs"
  have "byte_or_0 bs i = 0" if "n = Suc i" for i using len that by (simp add: byte_or_0_def)
  then show False using len assms(2) not_continuation_0(1)
    by (cases rule: utf8_step_cases[OF assms(1)]) (simp_all add: Suc_le_eq)
qed

lemma utf8_step_prefix:
  assumes "utf8_step bs = (True, n)" "bs \<noteq> []"
  shows "utf8_step (take n bs @ ys) = (True, n)"
proof -
  have "byte_or_0 (take n bs @ ys) i = byte_or_0 bs i" if "i < n" for i
    using that utf8_step_length[OF assms] by (simp add: byte_or_0_append byte_or_0_take)
  then show ?thesis using assms(1) unfolding utf8_step_def Let_def by (simp split: if_splits)
qed

lemma utf8_valid_char:
  assumes "utf8_step bs = (True, n)" "bs \<noteq> []" "utf8_valid ys"
  shows "utf8_valid (take n bs @ ys)"
proof -
  have "length (take n bs) = n" using utf8_step_length[OF assms(1,2)] by simp
  then show ?thesis using utf8_step_prefix[OF assms(1,2), of ys] assms(3)
    by (subst utf8_valid.simps) simp
qed

lemma utf8_valid_replacement: "utf8_valid ys \<Longrightarrow> utf8_valid (REPLACEMENT @ ys)"
  using utf8_valid_char[of REPLACEMENT 3 ys]
  by (simp add: REPLACEMENT_def utf8_step_def byte_or_0_def utf8_char_width_def second_of_3_def continuation_def)

lemma from_utf8_lossy_valid: "utf8_valid (from_utf8_lossy bs)"
proof (induction bs rule: from_utf8_lossy.induct)
  case (1 bs)
  show ?case
  proof (cases "bs = []")
    case False
    obtain ok n where st: "utf8_step bs = (ok, n)" by force
    have "utf8_valid (from_utf8_lossy (drop n bs))" using 1[OF False st[symmetric]] by simp
    then have "utf8_valid ((if ok then take n bs else REPLACEMENT) @ from_utf8_lossy (drop n bs))"
      using utf8_valid_char[OF _ False] utf8_valid_replacement st by simp
    then show ?thesis using False st by (subst from_utf8_lossy.simps) simp
  qed (simp add: from_utf8_lossy.simps utf8_valid.simps)
qed

text \<open>
  The text of an edit is kept exactly, whatever its bytes are: what is read back is what was put in, also
  after writing it to a log and reading that, so undoing a deletion restores bytes that are not UTF-8.
  The rendering beside it is valid UTF-8, and is the bytes themselves when they are.
\<close>

theorem edit_text_exact:
  "as_bytes (et_from_bytes bs) = bs \<and> et_deserialize (et_serialize (et_from_bytes bs)) = et_from_bytes bs \<and>
   utf8_valid (as_str (et_from_bytes bs)) \<and> (as_str (et_from_bytes bs) = bs \<longleftrightarrow> utf8_valid bs)"
  using from_utf8_lossy_valid[of bs]
  by (auto simp: as_bytes_def et_from_bytes_def et_serialize_def et_from_str_def as_str_def)

end
