(* ===== verification/Event_Log.thy ===== *)
theory Event_Log
  imports Edit_Text
begin

text \<open>
  Events, their inverses and the log behind undo and redo (\<open>model/event.rs\<close>). An event carries a snapshot
  type \<open>'s\<close>, the \<open>BufferSnapshot\<close> of a bulk edit. An \<open>f32\<close> is its 32 bits. The debug stream of the log
  and its file format (JSON lines by \<open>serde\<close>) are not modelled; the clock of an entry is an argument.
\<close>

subsection \<open>Events\<close>

type_synonym CursorId = nat
type_synonym rgb = "byte \<times> byte \<times> byte"

text \<open>\<open>usize::MAX\<close>: no cursor has this id, so the event_inverse of an edit moves none.\<close>

definition UNDO_SENTINEL :: CursorId where
  "UNDO_SENTINEL = 2 ^ 64 - 1"

datatype OverlayColorSpec = Rgb byte byte byte | ThemeKey string

record OverlayOptions =
  oo_fg :: "OverlayColorSpec option"
  oo_bg :: "OverlayColorSpec option"
  oo_underline :: bool
  oo_bold :: bool
  oo_italic :: bool
  oo_strikethrough :: bool
  oo_extend_to_line_end :: bool
  oo_reversed :: bool
  oo_fg_on_collision_only :: bool
  oo_url :: "string option"

datatype UnderlineStyle = Straight | Wavy | Dotted | Dashed

datatype OverlayFace = Underline rgb UnderlineStyle | Background rgb | Foreground rgb | Style OverlayOptions

datatype PopupKindHint = Popup_Completion | Popup_List | Popup_Text

record PopupListItemData =
  pli_id :: string
  pli_text :: string
  pli_detail :: "string option"
  pli_icon :: "string option"
  pli_data :: "string option"

datatype PopupContentData = Content_Text "string list" | Content_List "PopupListItemData list" nat

datatype PopupPositionData = AtCursor | BelowCursor | AboveCursor | Fixed "16 word" "16 word" | Centered | BottomRight

record PopupData =
  popup_kind :: PopupKindHint
  popup_title :: "string option"
  popup_description :: "string option"
  popup_transient :: bool
  popup_content :: PopupContentData
  popup_position :: PopupPositionData
  popup_width :: "16 word"
  popup_max_height :: "16 word"
  popup_bordered :: bool

datatype MarginPositionData = Margin_Left | Margin_Right

datatype MarginContentData = Margin_Text string | Margin_Symbol string "rgb option" | Margin_Empty

datatype SplitDirection = Horizontal | Vertical

type_synonym cursor_state = "CursorId \<times> nat \<times> nat option"

datatype 's Event =
    Insert nat EditText CursorId
  | Delete "nat \<times> nat" EditText CursorId
  | MoveCursor CursorId nat nat "nat option" "nat option" "nat option" "nat option"
  | AddCursor CursorId nat "nat option"
  | RemoveCursor CursorId nat "nat option"
  | Scroll int
  | Recenter
  | SetAnchor CursorId nat
  | CancelAnchor CursorId
  | ClearAnchor CursorId
  | ChangeMode string
  | AddOverlay "string option" "nat \<times> nat" OverlayFace int "string option" bool "string option"
  | RemoveOverlay string
  | RemoveOverlaysInRange "nat \<times> nat"
  | ClearNamespace string
  | ClearOverlays
  | ShowPopup PopupData
  | HidePopup
  | ClearPopups
  | PopupSelectNext
  | PopupSelectPrev
  | PopupPageDown
  | PopupPageUp
  | AddMarginAnnotation nat MarginPositionData MarginContentData "string option"
  | RemoveMarginAnnotation string
  | RemoveMarginAnnotationsAtLine nat MarginPositionData
  | ClearMarginPosition MarginPositionData
  | ClearMargins
  | SetLineNumbers bool
  | SplitPane SplitDirection nat "32 word"
  | CloseSplit nat
  | SetActiveSplit nat
  | AdjustSplitRatio nat "32 word"
  | NextSplit
  | PrevSplit
  | NextPane
  | PrevPane
  | Batch "'s Event list" string
  | BulkEdit "'s option" "'s option" "cursor_state list" "cursor_state list" string
      "(nat \<times> nat \<times> nat) list" "(nat \<times> nat) list"

fun swap_edit :: "nat \<times> nat \<times> nat \<Rightarrow> nat \<times> nat \<times> nat" where
  "swap_edit (pos, del_len, ins_len) = (pos, ins_len, del_len)"

fun event_inverse :: "'s Event \<Rightarrow> 's Event option" where
  "event_inverse (Insert position text _) = Some (Delete (position, position + et_len text) text UNDO_SENTINEL)"
| "event_inverse (Delete (start, _) deleted_text _) = Some (Insert start deleted_text UNDO_SENTINEL)"
| "event_inverse (Batch events description) =
     map_option (\<lambda>inverted. Batch inverted (''Undo: '' @ description)) (those (rev (map event_inverse events)))"
| "event_inverse (AddCursor i position anchor) = Some (RemoveCursor i position anchor)"
| "event_inverse (RemoveCursor i position anchor) = Some (AddCursor i position anchor)"
| "event_inverse (MoveCursor i old_position new_position old_anchor new_anchor old_sticky new_sticky) =
     Some (MoveCursor i new_position old_position new_anchor old_anchor new_sticky old_sticky)"
| "event_inverse (Scroll rows) = Some (Scroll (- rows))"
| "event_inverse (BulkEdit old_snapshot new_snapshot old_cursors new_cursors description edits displaced) =
     Some (BulkEdit new_snapshot old_snapshot new_cursors old_cursors (''Undo: '' @ description)
             (map swap_edit edits) displaced)"
| "event_inverse _ = None"

fun modifies_buffer :: "'s Event \<Rightarrow> bool" where
  "modifies_buffer (Insert _ _ _) = True"
| "modifies_buffer (Delete _ _ _) = True"
| "modifies_buffer (BulkEdit _ _ _ _ _ _ _) = True"
| "modifies_buffer (Batch events _) = list_ex modifies_buffer events"
| "modifies_buffer _ = False"

fun is_write_action :: "'s Event \<Rightarrow> bool" where
  "is_write_action (Insert _ _ _) = True"
| "is_write_action (Delete _ _ _) = True"
| "is_write_action (BulkEdit _ _ _ _ _ _ _) = True"
| "is_write_action (AddCursor _ _ _) = True"
| "is_write_action (RemoveCursor _ _ _) = True"
| "is_write_action (Batch events _) = list_ex is_write_action events"
| "is_write_action _ = False"

fun event_cursor_id :: "'s Event \<Rightarrow> CursorId option" where
  "event_cursor_id (Insert _ _ i) = Some i"
| "event_cursor_id (Delete _ _ i) = Some i"
| "event_cursor_id (MoveCursor i _ _ _ _ _ _) = Some i"
| "event_cursor_id (AddCursor i _ _) = Some i"
| "event_cursor_id (RemoveCursor i _ _) = Some i"
| "event_cursor_id _ = None"

subsection \<open>The log\<close>

record 's LogEntry =
  le_event :: "'s Event"
  le_timestamp :: nat
  le_description :: "string option"
  le_displaced :: "(nat \<times> nat) list"
  le_group :: "nat option"

definition entry_new :: "'s Event \<Rightarrow> nat \<Rightarrow> 's LogEntry" where
  "entry_new event now =
     \<lparr>le_event = event, le_timestamp = now, le_description = None, le_displaced = [], le_group = None\<rparr>"

definition with_description :: "'s LogEntry \<Rightarrow> string \<Rightarrow> 's LogEntry" where
  "with_description e description = e\<lparr>le_description := Some description\<rparr>"

text \<open>Snapshots of the log are never made; the list is kept empty.\<close>

record Snapshot =
  snap_log_index :: nat
  snap_cursor_positions :: "cursor_state list"

record 's EventLog =
  log_entries :: "'s LogEntry list"
  current_index :: nat
  log_snapshots :: "Snapshot list"
  snapshot_interval :: nat
  saved_at_index :: "nat option"
  next_group_id :: nat
  current_group :: "nat option"
  group_depth :: nat

definition log_new :: "'s EventLog" where
  "log_new = \<lparr>log_entries = [], current_index = 0, log_snapshots = [], snapshot_interval = 100,
     saved_at_index = Some 0, next_group_id = 0, current_group = None, group_depth = 0\<rparr>"

definition begin_undo_group :: "'s EventLog \<Rightarrow> 's EventLog" where
  "begin_undo_group log =
     (let log1 = (if group_depth log = 0
                  then log\<lparr>current_group := Some (next_group_id log), next_group_id := next_group_id log + 1\<rparr>
                  else log)
      in log1\<lparr>group_depth := group_depth log1 + 1\<rparr>)"

definition end_undo_group :: "'s EventLog \<Rightarrow> 's EventLog" where
  "end_undo_group log =
     (if group_depth log > 0 then
        (let log1 = log\<lparr>group_depth := group_depth log - 1\<rparr>
         in if group_depth log1 = 0 then log1\<lparr>current_group := None\<rparr> else log1)
      else log)"

definition log_mark_saved :: "'s EventLog \<Rightarrow> 's EventLog" where
  "log_mark_saved log = log\<lparr>saved_at_index := Some (current_index log)\<rparr>"

definition clear_saved_position :: "'s EventLog \<Rightarrow> 's EventLog" where
  "clear_saved_position log = log\<lparr>saved_at_index := None\<rparr>"

text \<open>The slice of entries panics when it is out of range.\<close>

definition is_at_saved_position :: "'s EventLog \<Rightarrow> bool option" where
  "is_at_saved_position log =
     (case saved_at_index log of
        None \<Rightarrow> Some False
      | Some saved \<Rightarrow>
          if saved = current_index log then Some True
          else
            (let (start, fin) = (if saved < current_index log then (saved, current_index log)
                                 else (current_index log, saved))
             in map_option (list_all (\<lambda>e. \<not> modifies_buffer (le_event e))) (index_range (log_entries log) start fin)))"

text \<open>The index of the entry: \<open>current_index - 1\<close> after a push.\<close>

definition log_append :: "'s EventLog \<Rightarrow> 's Event \<Rightarrow> nat \<Rightarrow> 's EventLog \<times> nat" where
  "log_append log event now =
     (if current_index log < length (log_entries log) \<and> \<not> is_write_action event then (log, current_index log)
      else
        (let log1 =
               (if current_index log < length (log_entries log) then
                  log\<lparr>log_entries := take (current_index log) (log_entries log),
                      saved_at_index := (case saved_at_index log of
                          Some saved \<Rightarrow> if saved > current_index log then None else Some saved
                        | None \<Rightarrow> None)\<rparr>
                else log);
             entries = log_entries log1 @ [(entry_new event now)\<lparr>le_group := current_group log1\<rparr>];
             log2 = log1\<lparr>log_entries := entries, current_index := length entries\<rparr>
         in (log2, current_index log2 - 1)))"

definition set_displaced_markers_on_last :: "'s EventLog \<Rightarrow> (nat \<times> nat) list \<Rightarrow> 's EventLog" where
  "set_displaced_markers_on_last log ms =
     (if log_entries log = [] then log
      else log\<lparr>log_entries := butlast (log_entries log) @ [(last (log_entries log))\<lparr>le_displaced := ms\<rparr>]\<rparr>)"

definition log_len :: "'s EventLog \<Rightarrow> nat" where
  "log_len log = length (log_entries log)"

definition log_is_empty :: "'s EventLog \<Rightarrow> bool" where
  "log_is_empty log \<longleftrightarrow> log_entries log = []"

definition can_undo :: "'s EventLog \<Rightarrow> bool" where
  "can_undo log \<longleftrightarrow> current_index log > 0"

definition can_redo :: "'s EventLog \<Rightarrow> bool" where
  "can_redo log \<longleftrightarrow> current_index log < length (log_entries log)"

text \<open>The loop of \<open>undo\<close>: the index, whether a write action was found, and its group.\<close>

fun undo_loop :: "'s LogEntry list \<Rightarrow> nat \<Rightarrow> bool \<Rightarrow> nat option \<Rightarrow> ('s Event \<times> (nat \<times> nat) list) list \<times> nat" where
  "undo_loop entries 0 found grp = ([], 0)"
| "undo_loop entries (Suc idx) found grp =
     (let e = entries ! idx; is_write = is_write_action (le_event e) in
      if found \<and> (grp = None \<or> le_group e \<noteq> grp) then ([], Suc idx)
      else
        (let grp' = (if is_write \<and> \<not> found then le_group e else grp);
             (rest, i) = undo_loop entries idx (found \<or> is_write) grp'
         in (case event_inverse (le_event e) of
               Some undone \<Rightarrow> ((undone, le_displaced e) # rest, i)
             | None \<Rightarrow> (rest, i))))"

definition log_undo :: "'s EventLog \<Rightarrow> ('s Event \<times> (nat \<times> nat) list) list \<times> 's EventLog" where
  "log_undo log =
     (case undo_loop (log_entries log) (current_index log) False None of
        (evs, i) \<Rightarrow> (evs, log\<lparr>current_index := i\<rparr>))"

text \<open>The loop of \<open>redo\<close> over the entries from the current index on.\<close>

fun redo_loop :: "'s LogEntry list \<Rightarrow> bool \<Rightarrow> nat option \<Rightarrow> 's Event list" where
  "redo_loop [] found grp = []"
| "redo_loop (e # es) found grp =
     (let is_write = is_write_action (le_event e) in
      if found \<and> is_write \<and> (grp = None \<or> le_group e \<noteq> grp) then []
      else
        (let grp' = (if is_write \<and> \<not> found then le_group e else grp)
         in le_event e # redo_loop es (found \<or> is_write) grp'))"

definition log_redo :: "'s EventLog \<Rightarrow> 's Event list \<times> 's EventLog" where
  "log_redo log =
     (let evs = redo_loop (drop (current_index log) (log_entries log)) False None
      in (evs, log\<lparr>current_index := current_index log + length evs\<rparr>))"

definition log_range :: "'s EventLog \<Rightarrow> nat \<Rightarrow> nat \<Rightarrow> 's LogEntry list option" where
  "log_range log a b = index_range (log_entries log) a b"

definition log_clear :: "'s EventLog \<Rightarrow> 's EventLog" where
  "log_clear log = log\<lparr>log_entries := [], current_index := 0, log_snapshots := []\<rparr>"

text \<open>\<open>load_from_file\<close> after its lines have been parsed.\<close>

definition log_load :: "'s LogEntry list \<Rightarrow> 's EventLog" where
  "log_load entries = log_new\<lparr>log_entries := entries, current_index := length entries\<rparr>"

end
