(* ===== verification/Cursors.thy ===== *)
theory Cursors
  imports Prelude "HOL-Library.AList" "HOL-Library.Multiset" "HOL-Library.Product_Lexorder"
begin

text \<open>
  Cursors and selections (\<open>model/cursor.rs\<close>). The hash map from cursor ids to cursors is an
  association list with distinct keys, whose order is the iteration order of the map: \<open>keys().next()\<close>
  is its first key. The invariant is that there is a cursor, that the primary id is a key (so
  \<open>primary\<close> does not panic) and that fresh ids are unused; every operation keeps it.
\<close>

subsection \<open>A cursor\<close>

datatype SelectionMode = Normal | Block

record Position2D =
  p2_line :: nat
  p2_column :: nat

record Cursor =
  position :: nat
  anchor :: "nat option"
  sticky_column :: "nat option"
  selection_mode :: SelectionMode
  block_anchor :: "Position2D option"
  deselect_on_move :: bool
  virtual_lines_below :: nat

definition cursor_new :: "nat \<Rightarrow> Cursor" where
  "cursor_new pos =
     \<lparr>position = pos, anchor = None, sticky_column = None, selection_mode = Normal,
      block_anchor = None, deselect_on_move = True, virtual_lines_below = 0\<rparr>"

definition with_selection :: "nat \<Rightarrow> nat \<Rightarrow> Cursor" where
  "with_selection start fin =
     \<lparr>position = fin, anchor = Some start, sticky_column = None, selection_mode = Normal,
      block_anchor = None, deselect_on_move = True, virtual_lines_below = 0\<rparr>"

definition collapsed :: "Cursor \<Rightarrow> bool" where
  "collapsed c \<longleftrightarrow> anchor c = None \<and> block_anchor c = None"

definition selection_range :: "Cursor \<Rightarrow> (nat \<times> nat) option" where
  "selection_range c =
     map_option (\<lambda>a. if a < position c then (a, position c) else (position c, a)) (anchor c)"

definition has_block_selection :: "Cursor \<Rightarrow> bool" where
  "has_block_selection c \<longleftrightarrow> selection_mode c = Block \<and> block_anchor c \<noteq> None"

definition selection_start :: "Cursor \<Rightarrow> nat" where
  "selection_start c = (case anchor c of None \<Rightarrow> position c | Some a \<Rightarrow> min a (position c))"

definition selection_end :: "Cursor \<Rightarrow> nat" where
  "selection_end c = (case anchor c of None \<Rightarrow> position c | Some a \<Rightarrow> max a (position c))"

definition clear_selection :: "Cursor \<Rightarrow> Cursor" where
  "clear_selection c = c\<lparr>anchor := None, block_anchor := None, selection_mode := Normal\<rparr>"

definition set_anchor :: "Cursor \<Rightarrow> nat \<Rightarrow> Cursor" where
  "set_anchor c a = c\<lparr>anchor := Some a\<rparr>"

definition start_block_selection :: "Cursor \<Rightarrow> nat \<Rightarrow> nat \<Rightarrow> Cursor" where
  "start_block_selection c line column =
     c\<lparr>selection_mode := Block, block_anchor := Some \<lparr>p2_line = line, p2_column = column\<rparr>\<rparr>"

definition clear_block_selection :: "Cursor \<Rightarrow> Cursor" where
  "clear_block_selection c = c\<lparr>selection_mode := Normal, block_anchor := None\<rparr>"

definition move_to :: "Cursor \<Rightarrow> nat \<Rightarrow> bool \<Rightarrow> Cursor" where
  "move_to c pos extend_selection =
     (let c1 = (if extend_selection then
                  (if anchor c = None then c\<lparr>anchor := Some (position c)\<rparr> else c)
                else
                  (let c0 = c\<lparr>anchor := None\<rparr> in
                   if \<not> extend_selection \<and> selection_mode c0 = Block
                   then c0\<lparr>selection_mode := Normal, block_anchor := None\<rparr> else c0))
      in c1\<lparr>position := pos\<rparr>)"

text \<open>Positions are \<open>usize\<close> and \<open>delta\<close> is \<open>isize\<close>: the sum is clamped at 0.\<close>

definition adjust_offset :: "nat \<Rightarrow> nat \<Rightarrow> nat \<Rightarrow> nat \<Rightarrow> nat" where
  "adjust_offset p edit_pos old_len new_len =
     (let delta = int new_len - int old_len in
      if edit_pos \<le> p then
        (if edit_pos + old_len \<le> p then nat (max (int p + delta) 0) else edit_pos + new_len)
      else p)"

definition cursor_adjust_for_edit :: "Cursor \<Rightarrow> nat \<Rightarrow> nat \<Rightarrow> nat \<Rightarrow> Cursor" where
  "cursor_adjust_for_edit c edit_pos old_len new_len =
     c\<lparr>position := adjust_offset (position c) edit_pos old_len new_len,
       anchor := map_option (\<lambda>a. adjust_offset a edit_pos old_len new_len) (anchor c)\<rparr>"

subsection \<open>The collection\<close>

record Cursors =
  cursor_map :: "(nat \<times> Cursor) list"
  next_id :: nat
  primary_id :: nat

definition cursors_new :: Cursors where
  "cursors_new = \<lparr>cursor_map = [(0, cursor_new 0)], next_id = 1, primary_id = 0\<rparr>"

definition cursors_get :: "Cursors \<Rightarrow> nat \<Rightarrow> Cursor option" where
  "cursors_get cs i = map_of (cursor_map cs) i"

text \<open>\<open>primary\<close> panics when the primary id is not a key.\<close>

definition primary :: "Cursors \<Rightarrow> Cursor option" where
  "primary cs = map_of (cursor_map cs) (primary_id cs)"

definition cursors_add :: "Cursors \<Rightarrow> Cursor \<Rightarrow> Cursors \<times> nat" where
  "cursors_add cs c =
     (let i = next_id cs
      in (cs\<lparr>next_id := i + 1, cursor_map := AList.update i c (cursor_map cs), primary_id := i\<rparr>, i))"

definition insert_with_id :: "Cursors \<Rightarrow> nat \<Rightarrow> Cursor \<Rightarrow> Cursors" where
  "insert_with_id cs i c =
     (let cs1 = cs\<lparr>cursor_map := AList.update i c (cursor_map cs), primary_id := i\<rparr>
      in if i \<ge> next_id cs1 then cs1\<lparr>next_id := i + 1\<rparr> else cs1)"

text \<open>\<open>remove\<close>: \<open>None\<close> is the panic of \<open>expect\<close> on an empty map.\<close>

definition cursors_remove :: "Cursors \<Rightarrow> nat \<Rightarrow> (Cursors \<times> Cursor option) option" where
  "cursors_remove cs i =
     (if length (cursor_map cs) \<le> 1 then Some (cs, None)
      else
        (let cursor = map_of (cursor_map cs) i;
             m = AList.delete i (cursor_map cs);
             cs1 = cs\<lparr>cursor_map := m\<rparr>
         in if i = primary_id cs1
            then (case m of [] \<Rightarrow> None | (k, _) # _ \<Rightarrow> Some (cs1\<lparr>primary_id := k\<rparr>, cursor))
            else Some (cs1, cursor)))"

definition remove_secondary :: "Cursors \<Rightarrow> Cursors option" where
  "remove_secondary cs =
     (if cursor_map cs = [] then None
      else
        (let first_id = Min (set (map fst (cursor_map cs))) in
         case map_of (cursor_map cs) first_id of
           None \<Rightarrow> None
         | Some first_cursor \<Rightarrow>
             Some (cs\<lparr>cursor_map := [(first_id, first_cursor)], primary_id := first_id\<rparr>)))"

definition cursors_map :: "Cursors \<Rightarrow> (Cursor \<Rightarrow> Cursor) \<Rightarrow> Cursors" where
  "cursors_map cs f = cs\<lparr>cursor_map := map (\<lambda>(i, c). (i, f c)) (cursor_map cs)\<rparr>"

definition cursors_adjust_for_edit :: "Cursors \<Rightarrow> nat \<Rightarrow> nat \<Rightarrow> nat \<Rightarrow> Cursors" where
  "cursors_adjust_for_edit cs edit_pos old_len new_len =
     cs\<lparr>cursor_map := map (\<lambda>(i, c). (i, cursor_adjust_for_edit c edit_pos old_len new_len))
                       (cursor_map cs)\<rparr>"

text \<open>\<open>Vec::dedup_by\<close>: an element is dropped when it matches the last one kept.\<close>

fun dedup_by :: "('a \<Rightarrow> 'a \<Rightarrow> bool) \<Rightarrow> 'a list \<Rightarrow> 'a list" where
  "dedup_by same (b # a # xs) =
     (if same a b then dedup_by same (b # xs) else b # dedup_by same (a # xs))"
| "dedup_by same xs = xs"

definition normalize_with_key :: "Cursors \<Rightarrow> (Cursor \<Rightarrow> 'k::linorder) \<Rightarrow> Cursors" where
  "normalize_with_key cs virtual_cols =
     (let sorted_list = sort_key (\<lambda>(_, c). (selection_start c, virtual_cols c)) (cursor_map cs);
          cursor_list = dedup_by (\<lambda>(_, a) (_, b). position a = position b \<and> anchor a = anchor b \<and>
                                    virtual_cols a = virtual_cols b) sorted_list;
          cs1 = cs\<lparr>cursor_map := fold (\<lambda>(i, c). AList.update i c) cursor_list []\<rparr>
      in if map_of (cursor_map cs1) (primary_id cs1) = None
         then (case cursor_map cs1 of [] \<Rightarrow> cs1 | (i, _) # _ \<Rightarrow> cs1\<lparr>primary_id := i\<rparr>)
         else cs1)"

definition cursors_normalize :: "Cursors \<Rightarrow> Cursors" where
  "cursors_normalize cs = normalize_with_key cs (\<lambda>_. 0::nat)"

definition cursor_positions :: "Cursors \<Rightarrow> nat list" where
  "cursor_positions cs = map (position \<circ> snd) (cursor_map cs)"

definition cursor_selections :: "Cursors \<Rightarrow> (nat \<times> nat) list" where
  "cursor_selections cs = List.map_filter (selection_range \<circ> snd) (cursor_map cs)"

definition cursor_ids :: "Cursors \<Rightarrow> nat list" where
  "cursor_ids cs = map fst (cursor_map cs)"

subsection \<open>The invariant\<close>

definition cursors_ok :: "Cursors \<Rightarrow> bool" where
  "cursors_ok cs \<longleftrightarrow>
     distinct (cursor_ids cs) \<and> primary_id cs \<in> set (cursor_ids cs) \<and>
     (\<forall>i\<in>set (cursor_ids cs). i < next_id cs)"

lemma ids_update:
  "cursor_map cs' = AList.update i c (cursor_map cs) \<Longrightarrow>
     set (cursor_ids cs') = insert i (set (cursor_ids cs))"
  "cursor_map cs' = AList.update i c (cursor_map cs) \<Longrightarrow>
     distinct (cursor_ids cs) \<Longrightarrow> distinct (cursor_ids cs')"
  by (simp_all add: cursor_ids_def distinct_update) (simp add: dom_update)

lemma cursors_ok_primary: "cursors_ok cs \<Longrightarrow> primary cs \<noteq> None"
  by (simp add: cursors_ok_def primary_def map_of_eq_None_iff cursor_ids_def)

lemma cursors_new_ok: "cursors_ok cursors_new"
  by (simp add: cursors_ok_def cursors_new_def cursor_ids_def)

lemma cursors_add_ok:
  assumes "cursors_ok cs"
  shows "cursors_ok (fst (cursors_add cs c))"
proof -
  let ?cs = "fst (cursors_add cs c)"
  have "cursor_map ?cs = AList.update (next_id cs) c (cursor_map cs)" "next_id ?cs = next_id cs + 1"
    "primary_id ?cs = next_id cs" by (simp_all add: cursors_add_def Let_def)
  then show ?thesis using assms ids_update[of ?cs "next_id cs" c cs]
    by (auto simp: cursors_ok_def less_Suc_eq)
qed

lemma insert_with_id_ok:
  assumes "cursors_ok cs"
  shows "cursors_ok (insert_with_id cs i c)"
proof -
  let ?cs = "insert_with_id cs i c"
  have "cursor_map ?cs = AList.update i c (cursor_map cs)" "primary_id ?cs = i"
    "next_id cs \<le> next_id ?cs" "i < next_id ?cs" by (auto simp: insert_with_id_def Let_def)
  then show ?thesis using assms ids_update[of ?cs i c cs] by (auto simp: cursors_ok_def)
qed

lemma cursors_remove_ok:
  assumes "cursors_ok cs"
  shows "\<exists>cs' c. cursors_remove cs i = Some (cs', c) \<and> cursors_ok cs'"
proof (cases "length (cursor_map cs) \<le> 1")
  case True
  then show ?thesis using assms by (simp add: cursors_remove_def)
next
  case False
  define m where "m = AList.delete i (cursor_map cs)"
  have km: "map fst m = removeAll i (cursor_ids cs)" by (simp add: m_def delete_keys cursor_ids_def)
  have len: "2 \<le> length (cursor_ids cs)" using False by (simp add: cursor_ids_def)
  have d: "distinct (cursor_ids cs)" using assms by (simp add: cursors_ok_def)
  have "removeAll i (cursor_ids cs) \<noteq> []"
  proof
    assume "removeAll i (cursor_ids cs) = []"
    then have "set (cursor_ids cs) \<subseteq> {i}" by (metis Diff_eq_empty_iff list.set(1) set_removeAll)
    then have "length (cursor_ids cs) \<le> 1"
      using distinct_card[OF d] card_mono[of "{i}" "set (cursor_ids cs)"] by simp
    then show False using len by simp
  qed
  then obtain k c rest where m: "m = (k, c) # rest" using km by (cases m) auto
  have dm: "distinct (map fst m)" and sm: "set (map fst m) = set (cursor_ids cs) - {i}"
    unfolding km using d by (simp_all add: distinct_removeAll)
  have bnd: "\<forall>j\<in>set (map fst m). j < next_id cs"
    unfolding sm using assms by (simp add: cursors_ok_def)
  have pin: "primary_id cs \<in> set (cursor_ids cs)" using assms by (simp add: cursors_ok_def)
  show ?thesis
  proof (cases "i = primary_id cs")
    case True
    let ?cs = "cs\<lparr>cursor_map := m, primary_id := k\<rparr>"
    have "cursors_remove cs i = Some (?cs, map_of (cursor_map cs) i)"
      unfolding cursors_remove_def Let_def m_def[symmetric] if_not_P[OF False] using True m by simp
    moreover have "k \<in> set (map fst m)" by (simp add: m)
    then have "cursors_ok ?cs" unfolding cursors_ok_def cursor_ids_def using dm bnd by simp
    ultimately show ?thesis by blast
  next
    case neq: False
    let ?cs = "cs\<lparr>cursor_map := m\<rparr>"
    have "cursors_remove cs i = Some (?cs, map_of (cursor_map cs) i)"
      unfolding cursors_remove_def Let_def m_def[symmetric] if_not_P[OF False] using neq by simp
    moreover have "primary_id cs \<in> set (map fst m)" unfolding sm using pin neq by simp
    then have "cursors_ok ?cs" unfolding cursors_ok_def cursor_ids_def using dm bnd by simp
    ultimately show ?thesis by blast
  qed
qed

lemma remove_secondary_ok:
  assumes "cursors_ok cs"
  shows "\<exists>cs' i c. remove_secondary cs = Some cs' \<and> cursors_ok cs' \<and> cursor_map cs' = [(i, c)] \<and>
           cursors_get cs i = Some c \<and> (\<forall>j\<in>set (cursor_ids cs). i \<le> j)"
proof -
  let ?K = "set (cursor_ids cs)"
  have ne: "cursor_map cs \<noteq> []" using assms by (auto simp: cursors_ok_def cursor_ids_def)
  have min: "Min ?K \<in> ?K" using ne by (intro Min_in) (auto simp: cursor_ids_def)
  have "\<exists>c. map_of (cursor_map cs) (Min ?K) = Some c"
    using min by (cases "map_of (cursor_map cs) (Min ?K)") (simp_all add: map_of_eq_None_iff cursor_ids_def)
  then obtain c where c: "map_of (cursor_map cs) (Min ?K) = Some c" by blast
  let ?cs' = "cs\<lparr>cursor_map := [(Min ?K, c)], primary_id := Min ?K\<rparr>"
  have "remove_secondary cs = Some ?cs'"
    using ne c by (simp add: remove_secondary_def Let_def cursor_ids_def)
  moreover have "Min ?K < next_id cs" using assms min unfolding cursors_ok_def by blast
  then have "cursors_ok ?cs'" unfolding cursors_ok_def cursor_ids_def by simp
  moreover have "\<forall>j\<in>?K. Min ?K \<le> j" by simp
  ultimately show ?thesis using c by (auto simp: cursors_get_def)
qed

lemma cursors_map_ok: "cursors_ok cs \<Longrightarrow> cursors_ok (cursors_map cs f)"
proof -
  have "cursor_ids (cursors_map cs f) = cursor_ids cs"
    by (simp add: cursor_ids_def cursors_map_def split_def o_def)
  then show "cursors_ok cs \<Longrightarrow> cursors_ok (cursors_map cs f)"
    by (simp add: cursors_ok_def) (simp add: cursors_map_def)
qed

lemma cursors_adjust_for_edit_ok:
  "cursors_ok cs \<Longrightarrow> cursors_ok (cursors_adjust_for_edit cs e old_len new_len)"
  using cursors_map_ok[of cs "\<lambda>c. cursor_adjust_for_edit c e old_len new_len"]
  by (simp add: cursors_map_def cursors_adjust_for_edit_def)

subsection \<open>Normalisation\<close>

lemma dedup_by_subset: "set (dedup_by same xs) \<subseteq> set xs"
  by (induction same xs rule: dedup_by.induct) auto

lemma dedup_by_distinct: "distinct (map g xs) \<Longrightarrow> distinct (map g (dedup_by same xs))"
proof (induction same xs rule: dedup_by.induct)
  case (1 same b a xs)
  have "g b \<notin> g ` set (a # xs)" using "1.prems" by simp
  then have "g b \<notin> g ` set (dedup_by same (a # xs))"
    using image_mono[OF dedup_by_subset[of same "a # xs"], of g] by blast
  then show ?case using 1 by simp
qed auto

lemma dedup_by_represents:
  assumes refl: "\<And>x. same x x" and trans: "\<And>x y z. same x y \<Longrightarrow> same y z \<Longrightarrow> same x z"
  shows "x \<in> set xs \<Longrightarrow> \<exists>y\<in>set (dedup_by same xs). same x y"
proof (induction "length xs" arbitrary: x xs rule: less_induct)
  case less
  consider "xs = []" | b where "xs = [b]" | b a ys where "xs = b # a # ys"
    by (metis remdups_adj.cases)
  then show ?case
  proof cases
    case (3 b a ys)
    show ?thesis
    proof (cases "same a b")
      case True
      have IH: "\<exists>y\<in>set (dedup_by same (b # ys)). same z y" if "z \<in> set (b # ys)" for z
        using less.hyps[of "b # ys" z] 3 that by simp
      show ?thesis
      proof (cases "x = a")
        case True
        obtain y where "y \<in> set (dedup_by same (b # ys))" "same b y" using IH[of b] by auto
        then show ?thesis using trans[OF \<open>same a b\<close>] True 3 \<open>same a b\<close> by auto
      next
        case False
        then show ?thesis using IH[of x] less.prems 3 \<open>same a b\<close> by auto
      qed
    next
      case False
      have IH: "\<exists>y\<in>set (dedup_by same (a # ys)). same z y" if "z \<in> set (a # ys)" for z
        using less.hyps[of "a # ys" z] 3 that by simp
      show ?thesis using IH[of x] less.prems 3 False refl[of x] by (cases "x = b") auto
    qed
  qed (use less.prems refl in auto)
qed

lemma fold_update_distinct:
  "distinct (map fst (acc @ xs)) \<Longrightarrow> fold (\<lambda>(i, c). AList.update i c) xs acc = acc @ xs"
proof (induction xs arbitrary: acc)
  case (Cons x xs)
  obtain i c where x: "x = (i, c)" by force
  have "i \<notin> fst ` set acc \<Longrightarrow> AList.update i c acc = acc @ [(i, c)]" for acc :: "('a \<times> 'b) list"
    by (induction acc) auto
  then show ?case using Cons x by auto
qed simp

lemma distinct_sort_key: "distinct (map g (sort_key k xs)) = distinct (map g xs)"
  by (rule mset_eq_imp_distinct_iff) simp

lemma normalize_map:
  fixes vc :: "Cursor \<Rightarrow> 'k::linorder"
  assumes "cursors_ok cs"
  defines "sorted_list \<equiv> sort_key (\<lambda>(_, c). (selection_start c, vc c)) (cursor_map cs)"
  shows "cursor_map (normalize_with_key cs vc) =
           dedup_by (\<lambda>(_, a) (_, b). position a = position b \<and> anchor a = anchor b \<and> vc a = vc b)
             sorted_list"
    "mset sorted_list = mset (cursor_map cs)"
proof -
  let ?same = "\<lambda>(_::nat, a) (_::nat, b). position a = position b \<and> anchor a = anchor b \<and> vc a = vc b"
  show ms: "mset sorted_list = mset (cursor_map cs)" by (simp add: sorted_list_def)
  have "distinct (map fst sorted_list)"
    using assms(1) unfolding cursors_ok_def cursor_ids_def sorted_list_def distinct_sort_key by simp
  then have "distinct (map fst (dedup_by ?same sorted_list))" by (rule dedup_by_distinct)
  then have "fold (\<lambda>(i, c). AList.update i c) (dedup_by ?same sorted_list) [] = dedup_by ?same sorted_list"
    using fold_update_distinct[of "[]"] by simp
  then show "cursor_map (normalize_with_key cs vc) = dedup_by ?same sorted_list"
    unfolding normalize_with_key_def Let_def sorted_list_def[symmetric] by (auto split: list.splits)
qed

lemma normalize_represents:
  assumes "cursors_ok cs" "(i, c) \<in> set (cursor_map cs)"
  shows "\<exists>(j, d)\<in>set (cursor_map (normalize_with_key cs vc)).
           position d = position c \<and> anchor d = anchor c \<and> vc d = vc c"
proof -
  let ?same = "\<lambda>(_::nat, a) (_::nat, b). position a = position b \<and> anchor a = anchor b \<and> vc a = vc b"
  let ?s = "sort_key (\<lambda>(_, c). (selection_start c, vc c)) (cursor_map cs)"
  have "(i, c) \<in> set ?s" using assms(2) by simp
  then have "\<exists>y\<in>set (dedup_by ?same ?s). ?same (i, c) y" by (intro dedup_by_represents) auto
  then show ?thesis unfolding normalize_map(1)[OF assms(1)] by (fastforce simp: split_def)
qed

lemma normalize_subset:
  assumes "cursors_ok cs"
  shows "set (cursor_map (normalize_with_key cs vc)) \<subseteq> set (cursor_map cs)"
  unfolding normalize_map(1)[OF assms] using dedup_by_subset by fastforce

lemma normalize_ok:
  assumes "cursors_ok cs"
  shows "cursors_ok (normalize_with_key cs vc)"
proof -
  let ?n = "normalize_with_key cs vc"
  have "distinct (map fst (sort_key (\<lambda>(_, c). (selection_start c, vc c)) (cursor_map cs)))"
    using assms unfolding cursors_ok_def cursor_ids_def distinct_sort_key by simp
  then have d: "distinct (cursor_ids ?n)" unfolding cursor_ids_def normalize_map(1)[OF assms]
    by (rule dedup_by_distinct)
  have sub: "set (cursor_ids ?n) \<subseteq> set (cursor_ids cs)"
    unfolding cursor_ids_def set_map using normalize_subset[OF assms] by (rule image_mono)
  have "cursor_map cs \<noteq> []" using assms by (auto simp: cursors_ok_def cursor_ids_def)
  then obtain i c where "(i, c) \<in> set (cursor_map cs)" by (cases "cursor_map cs") auto
  then have ne: "cursor_map ?n \<noteq> []" using normalize_represents[OF assms, of i c vc] by force
  define M where "M = fold (\<lambda>(i, c). AList.update i c)
      (dedup_by (\<lambda>(_, a) (_, b). position a = position b \<and> anchor a = anchor b \<and> vc a = vc b)
        (sort_key (\<lambda>(_, c). (selection_start c, vc c)) (cursor_map cs))) []"
  have n: "?n = (if map_of M (primary_id cs) = None
      then (case M of [] \<Rightarrow> cs\<lparr>cursor_map := M\<rparr> | (i, _) # _ \<Rightarrow> cs\<lparr>cursor_map := M, primary_id := i\<rparr>)
      else cs\<lparr>cursor_map := M\<rparr>)"
    unfolding normalize_with_key_def Let_def M_def[symmetric] by (simp cong: list.case_cong)
  have cm: "cursor_map ?n = M" unfolding n by (simp split: list.splits)
  then obtain j d' rest where M: "M = (j, d') # rest" using ne by (cases M) auto
  have prim: "primary_id ?n \<in> fst ` set M"
  proof (cases "map_of M (primary_id cs) = None")
    case True
    then show ?thesis unfolding n by (simp add: M)
  next
    case False
    then show ?thesis unfolding n by (simp only: map_of_eq_None_iff if_False select_convs update_convs) simp
  qed
  have "next_id ?n = next_id cs" unfolding n by (simp add: M)
  note prim this
  then show ?thesis using d sub assms
    unfolding cursors_ok_def cursor_ids_def cm set_map by (simp only:) blast
qed

subsection \<open>Cursors follow the text\<close>

lemma adjust_offset_before: "p < e \<Longrightarrow> adjust_offset p e old_len new_len = p"
  by (simp add: adjust_offset_def)

lemma adjust_offset_after:
  "e + old_len \<le> p \<Longrightarrow> adjust_offset p e old_len new_len = p - old_len + new_len"
  by (simp add: adjust_offset_def)

lemma adjust_offset_inside:
  "e \<le> p \<Longrightarrow> p < e + old_len \<Longrightarrow> adjust_offset p e old_len new_len = e + new_len"
  by (simp add: adjust_offset_def)

lemma adjust_offset_text:
  fixes ins :: "'a list"
  assumes "e + old_len \<le> length T" "p \<le> length T"
  defines "T' \<equiv> take e T @ ins @ drop (e + old_len) T"
  defines "p' \<equiv> adjust_offset p e old_len (length ins)"
  shows "p' \<le> length T'" "p < e \<Longrightarrow> take p' T' = take p T" "e + old_len \<le> p \<Longrightarrow> drop p' T' = drop p T"
    "e \<le> p \<Longrightarrow> p < e + old_len \<Longrightarrow> take p' T' = take e T @ ins"
proof -
  consider "p < e" | "e \<le> p" "p < e + old_len" | "e + old_len \<le> p" by linarith
  then show "p' \<le> length T'"
    using assms(1,2) unfolding p'_def T'_def
    by cases (simp_all add: adjust_offset_before adjust_offset_after adjust_offset_inside)
  show "p < e \<Longrightarrow> take p' T' = take p T"
    using assms(1) unfolding p'_def T'_def by (simp add: adjust_offset_before)
  show "drop p' T' = drop p T" if "e + old_len \<le> p"
    using assms(1) that unfolding p'_def T'_def by (simp add: adjust_offset_after)
  show "e \<le> p \<Longrightarrow> p < e + old_len \<Longrightarrow> take p' T' = take e T @ ins"
    using assms(1) unfolding p'_def T'_def by (simp add: adjust_offset_inside)
qed

lemma adjust_offset_mono:
  "p \<le> q \<Longrightarrow> adjust_offset p e old_len new_len \<le> adjust_offset q e old_len new_len"
  by (auto simp: adjust_offset_def Let_def)

subsection \<open>Properties\<close>

text \<open>What the editor can do to a set of cursors, and the sets it can reach.\<close>

inductive cursor_step :: "Cursors \<Rightarrow> Cursors \<Rightarrow> bool" where
  add: "cursor_step cs (fst (cursors_add cs c))"
| insert_id: "cursor_step cs (insert_with_id cs i c)"
| remove: "cursors_remove cs i = Some (cs', c) \<Longrightarrow> cursor_step cs cs'"
| secondary: "remove_secondary cs = Some cs' \<Longrightarrow> cursor_step cs cs'"
| map_all: "cursor_step cs (cursors_map cs f)"
| adjust: "cursor_step cs (cursors_adjust_for_edit cs edit_pos old_len new_len)"
| norm: "cursor_step cs (normalize_with_key cs (vc :: Cursor \<Rightarrow> nat))"

inductive_cases cursor_stepE: "cursor_step cs cs'"

lemma cursor_step_ok: "cursor_step cs cs' \<Longrightarrow> cursors_ok cs \<Longrightarrow> cursors_ok cs'"
proof (induction rule: cursor_step.induct)
  case (remove cs i cs' c)
  then show ?case using cursors_remove_ok[of cs i] by auto
next
  case (secondary cs cs')
  then show ?case using remove_secondary_ok[of cs] by auto
qed (auto intro: cursors_add_ok insert_with_id_ok cursors_map_ok cursors_adjust_for_edit_ok normalize_ok)

text \<open>
  C33: however cursors are added, inserted by id, removed, reduced to one, moved, adjusted and
  normalised, the set never becomes inconsistent: there is always a primary cursor, ids are
  distinct and below the next id (so a new cursor never replaces one), and the operations that
  could panic (looking up the primary, removing a cursor, removing the secondary ones) do not.
\<close>

theorem cursors_reachable_consistent:
  assumes "cursor_step\<^sup>*\<^sup>* cursors_new cs"
  shows "primary cs \<noteq> None \<and> distinct (cursor_ids cs) \<and> cursors_get cs (next_id cs) = None \<and>
         cursors_remove cs i \<noteq> None \<and> remove_secondary cs \<noteq> None"
proof -
  have ok: "cursors_ok cs"
    using assms by (induction rule: rtranclp_induct) (auto intro: cursors_new_ok cursor_step_ok)
  then have "cursors_get cs (next_id cs) = None"
    unfolding cursors_get_def map_of_eq_None_iff cursors_ok_def cursor_ids_def by auto
  then show ?thesis
    using ok cursors_ok_primary[OF ok] cursors_remove_ok[OF ok, of i] remove_secondary_ok[OF ok]
    by (auto simp: cursors_ok_def)
qed

theorem cursors_reachable_consistent_witness:
  "primary (insert_with_id (fst (cursors_add cursors_new (cursor_new 4))) 7 (cursor_new 2)) \<noteq> None"
proof -
  have "cursor_step\<^sup>*\<^sup>* cursors_new
      (insert_with_id (fst (cursors_add cursors_new (cursor_new 4))) 7 (cursor_new 2))"
    by (meson cursor_step.add cursor_step.insert_id rtranclp.rtrancl_into_rtrancl rtranclp.rtrancl_refl)
  from cursors_reachable_consistent[OF this, of 0] show ?thesis by blast
qed

text \<open>
  C34: cursors follow the text they stand in. When \<open>old_len\<close> bytes at \<open>e\<close> are replaced by \<open>ins\<close>, a
  cursor before the edit keeps the text before it, a cursor behind the replaced range keeps the
  text behind it, a cursor inside the range goes to the end of the new text, and no cursor leaves
  the document.
\<close>

theorem cursor_follows_text:
  fixes T ins :: "byte list"
  assumes "e + old_len \<le> length T" and "position c \<le> length T"
  shows "let T' = take e T @ ins @ drop (e + old_len) T;
             p = position c; p' = position (cursor_adjust_for_edit c e old_len (length ins))
         in p' \<le> length T' \<and>
            (if p < e then take p' T' = take p T
             else if e + old_len \<le> p then drop p' T' = drop p T
             else take p' T' = take e T @ ins)"
  using adjust_offset_text[OF assms, of ins]
  by (simp add: Let_def cursor_adjust_for_edit_def not_less not_le)

theorem cursor_follows_text_witness:
  "position (cursor_adjust_for_edit (cursor_new 4) 1 2 3) = 5 \<and>
   drop 5 (take 1 [1, 2, 3, 4, 5] @ [7, 8, 9] @ drop (1 + 2) [1, 2, 3, 4, 5]) = [5 :: byte]"
proof -
  have "position (cursor_adjust_for_edit (cursor_new 4) 1 2 3) = 5" by code_simp
  then show ?thesis
    using cursor_follows_text[of 1 2 "[1, 2, 3, 4, 5]" "cursor_new 4" "[7, 8, 9]"]
    by (simp add: Let_def cursor_new_def)
qed

text \<open>
  Normalising loses no cursor and invents none: every cursor of the result was there before
  with the same id, every cursor there was is represented by one with the same position, anchor
  and key, and the set stays consistent.
\<close>

theorem normalize_represents_all:
  assumes "cursors_ok cs"
  shows "cursors_ok (normalize_with_key cs vc) \<and>
         set (cursor_map (normalize_with_key cs vc)) \<subseteq> set (cursor_map cs) \<and>
         (\<forall>(i, c)\<in>set (cursor_map cs). \<exists>(j, d)\<in>set (cursor_map (normalize_with_key cs vc)).
            position d = position c \<and> anchor d = anchor c \<and> vc d = vc c)"
  using normalize_ok[OF assms, of vc] normalize_subset[OF assms, of vc]
    normalize_represents[OF assms, of _ _ vc] by auto

theorem normalize_represents_all_witness:
  "cursors_ok (normalize_with_key (fst (cursors_add cursors_new (cursor_new 0))) (\<lambda>_. 0 :: nat))"
  using normalize_represents_all[OF cursors_add_ok[OF cursors_new_ok]] by blast

text \<open>
  Normalising does not merge overlapping selections and does not always remove duplicates.
  Three cursors that select 5..10, 5..7 and 5..10 are left as they are: equal cursors with the same
  start are not brought together by the sort, and only neighbours are compared.
\<close>

theorem normalize_keeps_overlaps:
  "let cs = \<lparr>cursor_map = [(0, with_selection 5 10), (1, with_selection 5 7), (2, with_selection 5 10)],
            next_id = 3, primary_id = 0\<rparr>
   in cursors_ok cs \<and> cursors_normalize cs = cs"
  by code_simp

end
