(* ===== verification/Undo_History.thy ===== *)
theory Undo_History
  imports Event_Log Text_Buffer Cursors
begin

text \<open>
  Undo and redo of a document: the log of \<open>model/event.rs\<close> together with the effect of its events on the buffer
  (\<open>EditorState::apply\<close> of \<open>fresh-editor/src/state.rs\<close>, \<open>handle_undo\<close> and \<open>handle_redo\<close> of
  \<open>app/undo_actions.rs\<close>). The document is always the replay of the log up to its current index, and a log that
  reports the saved position is right. The effect on the bytes of a document is stated on lists first, and the
  piece-table buffer is shown to follow it.
\<close>

subsection \<open>The effect of an event on the document\<close>

text \<open>What \<open>apply\<close> does to the bytes of the document, given the bytes that a snapshot holds.\<close>

fun apply_text :: "('s \<Rightarrow> byte list) \<Rightarrow> 's Event \<Rightarrow> byte list \<Rightarrow> byte list" where
  "apply_text snap (Insert pos text _) T = take pos T @ as_bytes text @ drop pos T"
| "apply_text snap (Delete (start, fin) _ _) T = take start T @ drop (start + (fin - start)) T"
| "apply_text snap (Batch events _) T = fold (apply_text snap) events T"
| "apply_text snap (BulkEdit _ new_snapshot _ _ _ _ _) T =
     (case new_snapshot of Some s \<Rightarrow> snap s | None \<Rightarrow> T)"
| "apply_text snap _ T = T"

text \<open>
  The calls of \<open>apply\<close> on the text buffer. \<open>Delete\<close> is \<open>TextBuffer::delete\<close>, which deletes
  \<open>end.saturating_sub(start)\<close> bytes.
\<close>

fun apply_buffer :: "'e FileSystem \<Rightarrow> BufferSnapshot Event \<Rightarrow> TextBuffer \<Rightarrow> TextBuffer option" where
  "apply_buffer fs (Insert pos text _) tb = map_option fst (insert_bytes fs tb pos (as_bytes text))"
| "apply_buffer fs (Delete (start, fin) _ _) tb = delete fs tb start fin"
| "apply_buffer fs (Batch events _) tb = fold (\<lambda>e r. Option.bind r (apply_buffer fs e)) events (Some tb)"
| "apply_buffer fs (BulkEdit _ new_snapshot _ _ _ _ _) tb =
     Some (case new_snapshot of Some s \<Rightarrow> restore_buffer_state tb s | None \<Rightarrow> tb)"
| "apply_buffer fs _ tb = Some tb"

text \<open>
  An event that describes what it does to a document: insertions are inside it, deletions carry the
  bytes they remove, snapshots are of the text before and after, and what changes the document can be
  inverted.
\<close>

fun describes :: "('s \<Rightarrow> byte list) \<Rightarrow> 's Event \<Rightarrow> byte list \<Rightarrow> bool" where
  "describes snap (Insert pos text _) T \<longleftrightarrow> pos \<le> length T"
| "describes snap (Delete (start, fin) deleted_text _) T \<longleftrightarrow>
     start \<le> fin \<and> fin \<le> length T \<and> as_bytes deleted_text = take (fin - start) (drop start T)"
| "describes snap (Batch events _) T \<longleftrightarrow>
     (modifies_buffer (Batch events []) \<longrightarrow> those (map event_inverse events) \<noteq> None) \<and>
     fst (fold (\<lambda>e (ok, T). (ok \<and> describes snap e T, apply_text snap e T)) events (True, T))"
| "describes snap (BulkEdit old_snapshot new_snapshot _ _ _ _ _) T \<longleftrightarrow>
     (case old_snapshot of Some s \<Rightarrow> snap s = T | None \<Rightarrow> new_snapshot = None)"
| "describes snap _ T \<longleftrightarrow> True"

fun describes_all :: "('s \<Rightarrow> byte list) \<Rightarrow> 's Event list \<Rightarrow> byte list \<Rightarrow> bool" where
  "describes_all snap [] T \<longleftrightarrow> True"
| "describes_all snap (e # es) T \<longleftrightarrow> describes snap e T \<and> describes_all snap es (apply_text snap e T)"

lemma describes_fold:
  "fst (fold (\<lambda>e (ok, T). (ok \<and> describes snap e T, apply_text snap e T)) es (ok, T)) \<longleftrightarrow> ok \<and> describes_all snap es T"
  by (induction es arbitrary: ok T) auto

lemma describes_Batch:
  "describes snap (Batch es d) T \<longleftrightarrow>
     (list_ex modifies_buffer es \<longrightarrow> those (map event_inverse es) \<noteq> None) \<and> describes_all snap es T"
  by (simp add: describes_fold)

declare describes.simps(3) [simp del]

lemma not_modifying_text: "\<not> modifies_buffer e \<Longrightarrow> apply_text snap e T = T"
proof (induction e arbitrary: T)
  case (Batch es d)
  have "fold (apply_text snap) xs T = T" if "set xs \<subseteq> set es" for xs T
    using that Batch by (induction xs arbitrary: T) (auto simp: list_ex_iff)
  then show ?case by simp
qed simp_all

lemma write_if_modifies: "modifies_buffer e \<Longrightarrow> is_write_action e"
  by (induction e) (auto simp: list_ex_iff)

lemma those_Some_iff: "those xs = Some ys \<longleftrightarrow> xs = map Some ys"
  by (induction xs arbitrary: ys) (auto split: option.splits simp: Cons_eq_map_conv)

lemma those_rev: "those (rev xs) = map_option rev (those xs)"
proof (cases "those xs")
  case None
  then have "those (rev xs) = None"
    using those_Some_iff[of xs] those_Some_iff[of "rev xs"] by (cases "those (rev xs)") (auto simp: rev_map rev_swap)
  then show ?thesis using None by simp
next
  case (Some ys)
  then have "those (rev xs) = Some (rev ys)" by (simp add: those_Some_iff rev_map)
  then show ?thesis using Some by simp
qed

lemma inverse_text:
  "event_inverse e = Some i \<Longrightarrow> describes snap e T \<Longrightarrow> apply_text snap i (apply_text snap e T) = T"
proof (induction e arbitrary: i T)
  case (Insert pos new c)
  then show ?case by (auto simp: et_len_def)
next
  case (Delete r old c)
  then obtain a b where r: "r = (a, b)" "a \<le> b" "b \<le> length T" "as_bytes old = take (b - a) (drop a T)"
      "i = Insert a old UNDO_SENTINEL" by (cases r) auto
  have "take a T @ take (b - a) (drop a T) @ drop (a + (b - a)) T = T"
    by (metis append_take_drop_id drop_drop add.commute)
  then show ?case using r by simp
next
  case (Batch es d)
  obtain is' where is': "map event_inverse es = map Some is'" "i = Batch (rev is') (''Undo: '' @ d)"
    using Batch.prems(1) by (auto simp: those_rev those_Some_iff)
  have "fold (apply_text snap) (rev js) (fold (apply_text snap) xs T) = T"
    if "set xs \<subseteq> set es" "map event_inverse xs = map Some js" "describes_all snap xs T" for xs js T
    using that
  proof (induction xs arbitrary: js T)
    case (Cons x xs)
    then obtain j js' where js: "js = j # js'" "event_inverse x = Some j" "map event_inverse xs = map Some js'"
      by (cases js) auto
    show ?case using Cons.IH[of js' "apply_text snap x T"] Cons.prems js Batch.IH[of x j T] by simp
  qed simp
  then show ?case using is' Batch.prems(2) by (simp add: describes_Batch)
next
  case (BulkEdit old_snapshot new_snapshot a b d edits ms)
  then show ?case by (auto split: option.splits)
qed auto

lemma no_inverse_text: "event_inverse e = None \<Longrightarrow> describes snap e T \<Longrightarrow> apply_text snap e T = T"
proof (rule not_modifying_text, cases e)
  case (Batch es d)
  assume "event_inverse e = None" "describes snap e T"
  then show "\<not> modifies_buffer e" unfolding Batch by (auto simp: describes_Batch those_rev)
qed (auto split: prod.splits)

subsection \<open>Replaying the log\<close>

definition replay :: "('s \<Rightarrow> byte list) \<Rightarrow> 's LogEntry list \<Rightarrow> byte list \<Rightarrow> byte list" where
  "replay snap es T = fold (\<lambda>e. apply_text snap (le_event e)) es T"

abbreviation fold_events :: "('s \<Rightarrow> byte list) \<Rightarrow> 's Event list \<Rightarrow> byte list \<Rightarrow> byte list" where
  "fold_events snap es T \<equiv> fold (apply_text snap) es T"

lemma replay_simps [simp]:
  "replay snap [] T = T"
  "replay snap (e # es) T = replay snap es (apply_text snap (le_event e) T)"
  "replay snap (xs @ ys) T = replay snap ys (replay snap xs T)"
  by (simp_all add: replay_def)

lemma fold_events_replay: "fold_events snap (map le_event es) T = replay snap es T"
  by (induction es arbitrary: T) simp_all

lemma describes_all_append:
  "describes_all snap (xs @ ys) T \<longleftrightarrow> describes_all snap xs T \<and> describes_all snap ys (fold_events snap xs T)"
  by (induction xs arbitrary: T) auto

abbreviation described :: "('s \<Rightarrow> byte list) \<Rightarrow> 's LogEntry list \<Rightarrow> byte list \<Rightarrow> bool" where
  "described snap es T \<equiv> describes_all snap (map le_event es) T"

lemma described_take: "described snap es T \<Longrightarrow> described snap (take c es) T"
  using describes_all_append[of snap "map le_event (take c es)" "map le_event (drop c es)" T]
  by (simp flip: map_append)

lemma undo_loop_text:
  assumes "undo_loop es c found g = (evs, i)" "c \<le> length es" "described snap es T"
  shows "i \<le> c \<and> fold_events snap (map fst evs) (replay snap (take c es) T) = replay snap (take i es) T"
  using assms
proof (induction es c found g arbitrary: evs i rule: undo_loop.induct)
  case (2 es idx found g)
  let ?e = "es ! idx" and ?T = "replay snap (take idx es) T"
  show ?case
  proof (cases "found \<and> (g = None \<or> le_group ?e \<noteq> g)")
    case True
    then show ?thesis using 2(2) by (auto simp: Let_def)
  next
    case False
    define g' where "g' = (if is_write_action (le_event ?e) \<and> \<not> found then le_group ?e else g)"
    obtain rest i' where rest: "undo_loop es idx (found \<or> is_write_action (le_event ?e)) g' = (rest, i')" by force
    have i: "i = i'" and evs: "evs = (case event_inverse (le_event ?e) of Some u \<Rightarrow> (u, le_displaced ?e) # rest | None \<Rightarrow> rest)"
      using 2(2) False rest by (auto simp: Let_def g'_def[symmetric] split: option.splits)
    have ih: "i' \<le> idx \<and> fold_events snap (map fst rest) ?T = replay snap (take i' es) T"
      using 2(1)[OF refl refl False g'_def _ ] rest 2(3,4) by simp
    have take: "take (Suc idx) es = take idx es @ [?e]" using 2(3) by (simp add: take_Suc_conv_app_nth)
    have "described snap (take (Suc idx) es) T" by (rule described_take[OF 2(4)])
    then have "describes snap (le_event ?e) ?T"
      by (simp add: take describes_all_append fold_events_replay)
    then have "fold_events snap (map fst evs) (replay snap (take (Suc idx) es) T) = fold_events snap (map fst rest) ?T"
      by (cases "event_inverse (le_event ?e)") (simp_all add: evs take inverse_text no_inverse_text)
    then show ?thesis using ih i by simp
  qed
qed simp

lemma redo_loop_prefix: "redo_loop es found g = map le_event (take (length (redo_loop es found g)) es)"
  by (induction es found g rule: redo_loop.induct) (simp_all add: Let_def)

lemma redo_loop_length: "length (redo_loop es found g) \<le> length es"
  by (induction es found g rule: redo_loop.induct) (simp_all add: Let_def)

lemma undo_loop_progress: "undo_loop es (Suc c) False g = (evs, i) \<Longrightarrow> i \<le> c"
proof -
  have le: "i \<le> c" if "undo_loop es c found g = (evs, i)" for c found g evs i
    using that
    by (induction es c found g arbitrary: evs i rule: undo_loop.induct)
       (auto simp: Let_def le_SucI split: if_splits prod.splits option.splits)
  assume "undo_loop es (Suc c) False g = (evs, i)"
  then show ?thesis
    by (auto simp: Let_def split: prod.splits option.splits dest: le)
qed

subsection \<open>Editing sessions\<close>

text \<open>
  A document that was opened with the bytes \<open>T0\<close>, its log, its bytes now, and the bytes of the last save,
  after any number of edits, undos, redos, saves and undo groups.
\<close>

inductive session :: "('s \<Rightarrow> byte list) \<Rightarrow> byte list \<Rightarrow> 's EventLog \<Rightarrow> byte list \<Rightarrow> byte list \<Rightarrow> bool"
  for snap T0 where
  opened: "session snap T0 log_new T0 T0"
| edited: "session snap T0 log T S \<Longrightarrow> describes snap e T \<Longrightarrow>
    session snap T0 (fst (log_append log e now)) (apply_text snap e T) S"
| displaced: "session snap T0 log T S \<Longrightarrow> session snap T0 (set_displaced_markers_on_last log ms) T S"
| undone: "session snap T0 log T S \<Longrightarrow> log_undo log = (evs, log') \<Longrightarrow>
    session snap T0 log' (fold_events snap (map fst evs) T) S"
| redone: "session snap T0 log T S \<Longrightarrow> log_redo log = (evs, log') \<Longrightarrow>
    session snap T0 log' (fold_events snap evs T) S"
| saved: "session snap T0 log T S \<Longrightarrow> session snap T0 (log_mark_saved log) T T"
| unsaved: "session snap T0 log T S \<Longrightarrow> session snap T0 (clear_saved_position log) T S"
| group_begun: "session snap T0 log T S \<Longrightarrow> session snap T0 (begin_undo_group log) T S"
| group_ended: "session snap T0 log T S \<Longrightarrow> session snap T0 (end_undo_group log) T S"

definition session_ok :: "('s \<Rightarrow> byte list) \<Rightarrow> byte list \<Rightarrow> 's EventLog \<Rightarrow> byte list \<Rightarrow> byte list \<Rightarrow> bool" where
  "session_ok snap T0 log T S \<longleftrightarrow> current_index log \<le> length (log_entries log) \<and>
     described snap (log_entries log) T0 \<and> T = replay snap (take (current_index log) (log_entries log)) T0 \<and>
     (\<forall>k. saved_at_index log = Some k \<longrightarrow>
        k \<le> length (log_entries log) \<and> S = replay snap (take k (log_entries log)) T0)"

lemma session_ok_append:
  assumes "session_ok snap T0 log T S" "describes snap e T"
  shows "session_ok snap T0 (fst (log_append log e now)) (apply_text snap e T) S"
proof -
  let ?c = "current_index log" and ?es = "log_entries log"
  have ok: "?c \<le> length ?es" "described snap ?es T0" "T = replay snap (take ?c ?es) T0"
    "\<And>k. saved_at_index log = Some k \<Longrightarrow> k \<le> length ?es \<and> S = replay snap (take k ?es) T0"
    using assms(1) by (auto simp: session_ok_def)
  show ?thesis
  proof (cases "?c < length ?es")
    case True
    show ?thesis
    proof (cases "is_write_action e")
      case False
      then have "apply_text snap e T = T" using not_modifying_text[of e snap T] write_if_modifies[of e] by blast
      then show ?thesis using True False assms(1) by (simp add: log_append_def)
    next
      case wr: True
      have "described snap (take ?c ?es @ [(entry_new e now)\<lparr>le_group := current_group log\<rparr>]) T0"
        using described_take[OF ok(2), of ?c] assms(2) ok(3)
        by (simp add: describes_all_append fold_events_replay entry_new_def)
      then show ?thesis using True wr ok
        by (auto simp: session_ok_def log_append_def Let_def entry_new_def min_def split: option.splits if_splits)
    qed
  next
    case False
    then have "?c = length ?es" using ok(1) by simp
    then show ?thesis using ok assms(2)
      by (auto simp: session_ok_def log_append_def Let_def entry_new_def describes_all_append fold_events_replay)
  qed
qed

lemma session_ok_undo:
  assumes "session_ok snap T0 log T S" "log_undo log = (evs, log')"
  shows "session_ok snap T0 log' (fold_events snap (map fst evs) T) S"
  using assms undo_loop_text[of "log_entries log" "current_index log" False None evs _ snap T0]
  by (force simp: session_ok_def log_undo_def split: prod.splits)

lemma session_ok_redo:
  assumes "session_ok snap T0 log T S" "log_redo log = (evs, log')"
  shows "session_ok snap T0 log' (fold_events snap evs T) S"
proof -
  let ?c = "current_index log" and ?es = "log_entries log"
  have evs: "evs = map le_event (take (length evs) (drop ?c ?es))" "length evs \<le> length ?es - ?c"
    and log': "log' = log\<lparr>current_index := ?c + length evs\<rparr>"
    using assms(2) redo_loop_prefix[of "drop ?c ?es" False None] redo_loop_length[of "drop ?c ?es" False None]
    by (auto simp: log_redo_def Let_def)
  have "fold_events snap evs T = replay snap (take (length evs) (drop ?c ?es)) T"
    by (subst evs(1)) (rule fold_events_replay)
  then have "fold_events snap evs T = replay snap (take (?c + length evs) ?es) T0"
    using assms(1) by (simp add: session_ok_def take_add)
  then show ?thesis using assms(1) evs(2) by (auto simp: session_ok_def log')
qed

lemma session_is_ok: "session snap T0 log T S \<Longrightarrow> session_ok snap T0 log T S"
proof (induction rule: session.induct)
  case (displaced log T S ms)
  show ?case
  proof (cases "log_entries log" rule: rev_cases)
    case (snoc es e)
    have "map le_event (es @ [e\<lparr>le_displaced := ms\<rparr>]) = map le_event (es @ [e])" by simp
    moreover have "replay snap (take k (es @ [e\<lparr>le_displaced := ms\<rparr>])) T0 = replay snap (take k (es @ [e])) T0" for k
      by (cases "k \<le> length es") (simp_all add: take_Cons')
    ultimately show ?thesis using displaced snoc
      by (simp add: set_displaced_markers_on_last_def session_ok_def)
  qed (use displaced in \<open>simp add: set_displaced_markers_on_last_def\<close>)
next
  case (edited log T S e now)
  then show ?case by (simp add: session_ok_append)
next
  case (undone log T S evs log')
  then show ?case by (simp add: session_ok_undo)
next
  case (redone log T S evs log')
  then show ?case by (simp add: session_ok_redo)
qed (auto simp: session_ok_def log_new_def log_mark_saved_def clear_saved_position_def begin_undo_group_def
    end_undo_group_def Let_def)

definition undo_text :: "('s \<Rightarrow> byte list) \<Rightarrow> 's EventLog \<times> byte list \<Rightarrow> 's EventLog \<times> byte list" where
  "undo_text snap = (\<lambda>(log, T). case log_undo log of (evs, log') \<Rightarrow> (log', fold_events snap (map fst evs) T))"

lemma undo_text_progress:
  assumes "session_ok snap T0 log T S" "can_undo log" "undo_text snap (log, T) = (log', T')"
  shows "session_ok snap T0 log' T' S \<and> current_index log' < current_index log"
proof -
  obtain evs where evs: "log_undo log = (evs, log')" "T' = fold_events snap (map fst evs) T"
    using assms(3) by (auto simp: undo_text_def split: prod.splits)
  obtain c where "current_index log = Suc c" using assms(2) by (cases "current_index log") (auto simp: can_undo_def)
  then show ?thesis using session_ok_undo[OF assms(1) evs(1)] evs undo_loop_progress[of "log_entries log" c None]
    by (auto simp: log_undo_def le_imp_less_Suc split: prod.splits)
qed

lemma undo_text_reaches:
  assumes "session_ok snap T0 log T S"
  shows "\<exists>n log'. n \<le> current_index log \<and> (undo_text snap ^^ n) (log, T) = (log', T0) \<and> \<not> can_undo log'"
  using assms
proof (induction "current_index log" arbitrary: log T rule: less_induct)
  case less
  show ?case
  proof (cases "can_undo log")
    case True
    obtain log1 T1 where one: "undo_text snap (log, T) = (log1, T1)" by force
    then have one': "session_ok snap T0 log1 T1 S" "current_index log1 < current_index log"
      using undo_text_progress[OF less.prems True] by auto
    obtain n log' where "n \<le> current_index log1" "(undo_text snap ^^ n) (log1, T1) = (log', T0)" "\<not> can_undo log'"
      using less.hyps[OF one'(2,1)] by blast
    then show ?thesis using one one' by (intro exI[of _ "Suc n"] exI[of _ log']) (simp add: funpow_Suc_right del: funpow.simps)
  next
    case False
    then show ?thesis using less.prems by (intro exI[of _ 0] exI[of _ log]) (simp add: session_ok_def can_undo_def)
  qed
qed

text \<open>
  C13: the document is the replay of its log. However edits, undos, redos, saves and undo groups are
  interleaved, the bytes of the document are what the entries before the current index make of
  the bytes it was opened with; and undoing leads back to those bytes, after at most as many undos as there are
  entries.
\<close>

theorem document_is_replay:
  assumes "session snap T0 log T S"
  shows "T = replay snap (take (current_index log) (log_entries log)) T0 \<and>
    (\<exists>n log'. n \<le> current_index log \<and> (undo_text snap ^^ n) (log, T) = (log', T0) \<and> \<not> can_undo log')"
  using session_is_ok[OF assms] undo_text_reaches[OF session_is_ok[OF assms]] unfolding session_ok_def by blast

lemma session_saved_position:
  assumes "session snap T0 log T S"
  shows "\<exists>b. is_at_saved_position log = Some b \<and> (b \<longrightarrow> T = S)"
proof (cases "saved_at_index log")
  case (Some k)
  let ?es = "log_entries log" and ?c = "current_index log"
  have ok: "?c \<le> length ?es" "T = replay snap (take ?c ?es) T0" "k \<le> length ?es" "S = replay snap (take k ?es) T0"
    using session_is_ok[OF assms] Some by (auto simp: session_ok_def)
  have same: "replay snap (take b ?es) T0 = replay snap (take a ?es) T0"
    if "a \<le> b" "list_all (\<lambda>e. \<not> modifies_buffer (le_event e)) (take (b - a) (drop a ?es))" for a b
  proof -
    have "replay snap xs T1 = T1" if "list_all (\<lambda>e. \<not> modifies_buffer (le_event e)) xs" for xs T1
      using that by (induction xs arbitrary: T1) (auto simp: not_modifying_text)
    from this[OF that(2)] show ?thesis using that(1) take_add[of a "b - a" ?es] by simp
  qed
  consider "k = ?c" | "k < ?c" | "?c < k" by linarith
  then show ?thesis
  proof cases
    case 2
    then show ?thesis using Some ok(1) same[of k ?c] unfolding ok(2,4)
      by (simp add: is_at_saved_position_def index_range_def)
  next
    case 3
    then show ?thesis using Some ok(3) same[of ?c k] unfolding ok(2,4)
      by (simp add: is_at_saved_position_def index_range_def)
  qed (auto simp: is_at_saved_position_def Some ok(2,4))
qed (auto simp: is_at_saved_position_def)

text \<open>
  C17: a log that reports the saved position is right. The query never panics, and when it
  answers yes the bytes of the document are those of the last save, also after undoing past the save,
  editing anew, and moving back and forth over entries that do not change the document.
\<close>

theorem saved_position_right:
  assumes "session snap T0 log T S"
  shows "\<exists>b. is_at_saved_position log = Some b \<and> (b \<longrightarrow> T = S)"
  using session_saved_position[OF assms] .

text \<open>A session that types, saves, deletes a byte that is not UTF-8, undoes, and types again.\<close>

definition sample_insert :: "unit Event" where
  "sample_insert = Insert 1 (et_from_bytes [98]) 0"

definition sample_delete :: "unit Event" where
  "sample_delete = Delete (1, 3) (et_from_bytes [98, 255]) 0"

definition sample_log :: "unit EventLog" where
  "sample_log = snd (log_undo (fst (log_append (log_mark_saved (fst (log_append log_new sample_insert 1))) sample_delete 2)))"

lemma sample_session: "session (\<lambda>_. []) [97, 255] sample_log [97, 98, 255] [97, 98, 255]"
proof -
  have bytes: "as_bytes (et_from_bytes bs) = bs" for bs by (simp add: as_bytes_def et_from_bytes_def)
  have 1: "session (\<lambda>_. []) [97, 255] (fst (log_append log_new sample_insert 1)) [97, 98, 255] [97, 255]"
    using edited[OF opened, of "\<lambda>_. []" sample_insert "[97, 255]" 1] by (simp add: sample_insert_def bytes)
  have 2: "session (\<lambda>_. []) [97, 255] (fst (log_append (log_mark_saved (fst (log_append log_new sample_insert 1))) sample_delete 2))
      [97] [97, 98, 255]"
    using edited[OF saved[OF 1], of sample_delete 2] by (simp add: sample_delete_def bytes numeral_2_eq_2 numeral_3_eq_3)
  have "fst (log_undo (fst (log_append (log_mark_saved (fst (log_append log_new sample_insert 1))) sample_delete 2))) =
      [(Insert 1 (et_from_bytes [98, 255]) UNDO_SENTINEL, [])]"
    by (simp add: log_undo_def log_append_def log_mark_saved_def log_new_def sample_insert_def sample_delete_def
        entry_new_def numeral_2_eq_2)
  then show ?thesis using undone[OF 2 surjective_pairing] by (simp add: sample_log_def bytes)
qed

theorem document_is_replay_witness:
  "session (\<lambda>_. []) [97, 255] sample_log [97, 98, 255] [97, 98, 255] \<and>
   replay (\<lambda>_. []) (take (current_index sample_log) (log_entries sample_log)) [97, 255] = [97, 98, 255] \<and>
   (\<exists>n log'. n \<le> current_index sample_log \<and> (undo_text (\<lambda>_. []) ^^ n) (sample_log, [97, 98, 255]) = (log', [97, 255]))"
  using sample_session document_is_replay[OF sample_session] by auto

theorem saved_position_right_witness:
  "\<exists>T S. session (\<lambda>_. []) [97, 255] sample_log T S \<and> is_at_saved_position sample_log = Some True \<and> T = S"
proof -
  have "is_at_saved_position sample_log = Some True"
    by (simp add: sample_log_def is_at_saved_position_def log_undo_def log_append_def log_mark_saved_def log_new_def
        sample_insert_def sample_delete_def entry_new_def numeral_2_eq_2)
  moreover obtain T S where "session (\<lambda>_. []) [97, 255] sample_log T S" using sample_session by blast
  ultimately show ?thesis using saved_position_right[of "\<lambda>_. []" "[97, 255]" sample_log T S] by auto
qed

subsection \<open>The buffer\<close>



lemma fold_bind_Some: "fold (\<lambda>e r. Option.bind r (f e)) es None = None"
  by (induction es) simp_all


definition run_events :: "'e FileSystem \<Rightarrow> BufferSnapshot Event list \<Rightarrow> TextBuffer \<Rightarrow> TextBuffer option" where
  "run_events fs es tb = fold (\<lambda>e r. Option.bind r (apply_buffer fs e)) es (Some tb)"


lemma run_events_Nil [simp]: "run_events fs [] tb = Some tb"
  by (simp add: run_events_def)

lemma run_events_Cons [simp]: "run_events fs (e # es) tb = Option.bind (apply_buffer fs e tb) (run_events fs es)"
  by (cases "apply_buffer fs e tb") (simp_all add: run_events_def fold_bind_Some)















subsection \<open>Where undo is not right\<close>

text \<open>
  C27: clearing a log does not forget the saved position. After one event, a save and a clear, the
  query for the saved position slices the empty list of entries up to the old index and panics.
\<close>

theorem cleared_log_panics:
  "is_at_saved_position (log_clear (log_mark_saved (fst (log_append log_new e now)))) = None"
  by (simp add: is_at_saved_position_def log_clear_def log_mark_saved_def log_append_def log_new_def
      entry_new_def index_range_def)

text \<open>The events of the command that removes the secondary cursors (\<open>input/actions.rs\<close>).\<close>

definition remove_secondary_cursors :: "Cursors \<Rightarrow> 's Event list option" where
  "remove_secondary_cursors cs =
     (if cursor_map cs = [] then None
      else
        (let first_id = Min (fst ` set (cursor_map cs))
         in Some (concat (map (\<lambda>(i, c). (if i \<noteq> first_id then [RemoveCursor i (position c) (anchor c)] else []) @ [ClearAnchor i])
                    (cursor_map cs)))))"

lemma those_None: "None \<in> set xs \<Longrightarrow> those xs = None"
  by (induction xs) (auto split: option.splits)

lemma concat_map_elem: "x \<in> set xs \<Longrightarrow> y \<in> set (f x) \<Longrightarrow> y \<in> set (concat (map f xs))"
  by (induction xs) auto

lemma undo_loop_stop: "undo_loop es c True None = ([], c)"
  by (cases c) (simp_all add: Let_def)

lemma undo_appended:
  assumes "is_write_action b" "event_inverse b = None" "current_group log = None" "current_index log \<le> length (log_entries log)"
  shows "case log_undo (fst (log_append log b now)) of (evs, log') \<Rightarrow> evs = [] \<and> current_index log' = current_index log"
proof -
  let ?e = "(entry_new b now)\<lparr>le_group := None\<rparr>" and ?es = "take (current_index log) (log_entries log)"
  have log: "log_entries (fst (log_append log b now)) = ?es @ [?e]"
      "current_index (fst (log_append log b now)) = Suc (length ?es)"
    using assms by (auto simp: log_append_def Let_def)
  have "undo_loop (?es @ [?e]) (Suc (length ?es)) False None = ([], length ?es)"
    using assms(1,2) by (simp only: undo_loop.simps nth_append_length Let_def) (simp add: entry_new_def undo_loop_stop)
  then show ?thesis using assms(4) unfolding log_undo_def log by simp
qed

text \<open>
  C26: removing the secondary cursors cannot be undone. The command wraps its events in a batch for
  atomic undo, but the batch always has an event without an inverse, so it has none itself: with
  two or more cursors it counts as a write action, and the next undo steps back over it, stops, and restores nothing.
\<close>

theorem remove_secondary_not_undone:
  fixes log :: "'s EventLog"
  assumes "distinct (map fst (cursor_map cs))" "2 \<le> length (cursor_map cs)"
    and "current_group log = None" "current_index log \<le> length (log_entries log)"
  shows "\<exists>events. remove_secondary_cursors cs = Some events \<and> is_write_action (Batch events d) \<and>
    (case log_undo (fst (log_append log (Batch events d) now)) of (evs, log') \<Rightarrow>
       evs = [] \<and> current_index log' = current_index log)"
proof -
  let ?m = "cursor_map cs" and ?first = "Min (fst ` set (cursor_map cs))"
  let ?evs = "concat (map (\<lambda>(i, c). (if i \<noteq> ?first then [RemoveCursor i (position c) (anchor c)] else []) @ [ClearAnchor i]) ?m) :: 's Event list"
  have ne: "?m \<noteq> []" using assms(2) by auto
  obtain i c where ic: "(i, c) \<in> set ?m" "i \<noteq> ?first"
  proof -
    obtain x y xs where m: "?m = x # y # xs" using assms(2) by (cases ?m; cases "tl ?m") auto
    then have "fst x \<noteq> fst y" using assms(1) by simp
    show thesis
    proof (cases "fst x = ?first")
      case True
      show thesis by (rule that[of "fst y" "snd y"]) (use m True \<open>fst x \<noteq> fst y\<close> in simp_all)
    next
      case False
      show thesis by (rule that[of "fst x" "snd x"]) (use m False in simp_all)
    qed
  qed
  have ev: "RemoveCursor i (position c) (anchor c) \<in> set ?evs" "ClearAnchor i \<in> set ?evs"
    by (rule concat_map_elem[OF ic(1)], use ic(2) in simp)+
  have wr: "is_write_action (Batch ?evs d)"
    unfolding is_write_action.simps list_ex_iff by (rule bexI[OF _ ev(1)]) simp
  have "None \<in> set (map event_inverse ?evs)"
    unfolding set_map image_iff by (rule bexI[OF _ ev(2)]) simp
  from those_None[OF this] have none: "event_inverse (Batch ?evs d) = None"
    unfolding event_inverse.simps those_rev by (simp only: option.map)
  have "remove_secondary_cursors cs = Some ?evs" using ne by (simp add: remove_secondary_cursors_def Let_def)
  then show ?thesis using wr undo_appended[OF wr none assms(3,4)] by (intro exI[of _ ?evs] conjI)
qed

definition sample_cursors :: Cursors where
  "sample_cursors = \<lparr>cursor_map = [(0, cursor_new 3), (1, cursor_new 7)], next_id = 2, primary_id = 1\<rparr>"

theorem remove_secondary_not_undone_witness:
  "\<exists>events. remove_secondary_cursors sample_cursors = Some events \<and>
     fst (log_undo (fst (log_append log_new (Batch events ''Remove secondary cursors'') 0))) = []"
proof -
  have "distinct (map fst (cursor_map sample_cursors))" "2 \<le> length (cursor_map sample_cursors)"
    "current_group log_new = None" "current_index log_new \<le> length (log_entries log_new)"
    by (simp_all add: sample_cursors_def log_new_def)
  from remove_secondary_not_undone[OF this, of "''Remove secondary cursors''" 0]
  show ?thesis by (auto simp: case_prod_beta)
qed




end
