(* ===== verification/Glob_Match.thy ===== *)
theory Glob_Match
  imports Edit_Text
begin

text \<open>
  Glob patterns for file names and paths (\<open>primitives/glob_match.rs\<close>). Both matchers are loops over indices
  with backtracking; each is first compared with a direct reading of the pattern byte by byte, and then with the
  dialect that the comments of the source describe. The loop on file names is a total function. The loop on
  paths keeps two backtracking points and is a partial function, which is shown to return on every input. Strings are their UTF-8 bytes, and a path is one that is valid UTF-8, so
  that \<open>to_string_lossy\<close> is the identity.
\<close>

subsection \<open>The matchers\<close>

abbreviation star :: byte where "star \<equiv> 42"
abbreviation question :: byte where "question \<equiv> 63"
abbreviation slash :: byte where "slash \<equiv> 47"
abbreviation backslash :: byte where "backslash \<equiv> 92"

definition is_glob_pattern :: "byte list \<Rightarrow> bool" where
  "is_glob_pattern pattern \<longleftrightarrow> star \<in> set pattern \<or> question \<in> set pattern"

definition is_path_pattern :: "byte list \<Rightarrow> bool" where
  "is_path_pattern pattern \<longleftrightarrow> slash \<in> set pattern \<or> backslash \<in> set pattern"

text \<open>The loop that consumes the stars at the end of the pattern.\<close>

function skip_stars :: "byte list \<Rightarrow> nat \<Rightarrow> nat" where
  "skip_stars pattern p =
     (if p < length pattern \<and> pattern ! p = star then skip_stars pattern (p + 1) else p)"
  by pat_completeness auto
termination by (relation "measure (\<lambda>(pattern, p). length pattern - p)") auto

declare skip_stars.simps [simp del]

text \<open>\<open>star_p\<close> with \<open>usize::MAX\<close> for none is an option.\<close>

function glob_loop :: "byte list \<Rightarrow> byte list \<Rightarrow> nat \<Rightarrow> nat \<Rightarrow> nat option \<Rightarrow> nat \<Rightarrow> bool" where
  "glob_loop pattern chars p t star_p star_t =
     (if t < length chars then
        (if p < length pattern \<and> (pattern ! p = question \<or> pattern ! p = chars ! t)
         then glob_loop pattern chars (p + 1) (t + 1) star_p star_t
         else if p < length pattern \<and> pattern ! p = star
         then glob_loop pattern chars (p + 1) t (Some p) t
         else case star_p of
                Some sp \<Rightarrow> glob_loop pattern chars (sp + 1) (star_t + 1) (Some sp) (star_t + 1)
              | None \<Rightarrow> False)
      else skip_stars pattern p = length pattern)"
  by pat_completeness auto

text \<open>
  In a run \<open>star_t \<le> t\<close>; a state that violates it is left by the first star or backtracking step.
\<close>

termination
  by (relation "measures [\<lambda>(pattern, chars, p, t, sp, st). if t < st then 1 else 0,
      \<lambda>(pattern, chars, p, t, sp, st). length chars - st, \<lambda>(pattern, chars, p, t, sp, st). length pattern - p]") auto

declare glob_loop.simps [simp del]

definition glob_match_bytes :: "byte list \<Rightarrow> byte list \<Rightarrow> bool" where
  "glob_match_bytes pattern chars = glob_loop pattern chars 0 0 None 0"

definition filename_glob_matches :: "byte list \<Rightarrow> byte list \<Rightarrow> bool" where
  "filename_glob_matches pattern filename = glob_match_bytes pattern filename"

definition is_path_sep :: "byte \<Rightarrow> bool" where
  "is_path_sep b \<longleftrightarrow> b = slash \<or> b = backslash"

definition path_chars_match :: "byte \<Rightarrow> byte \<Rightarrow> bool" where
  "path_chars_match pattern_byte text_byte \<longleftrightarrow>
     pattern_byte = text_byte \<or> is_path_sep pattern_byte \<and> is_path_sep text_byte"

definition after_double_star :: "byte list \<Rightarrow> nat \<Rightarrow> nat" where
  "after_double_star pattern p =
     (let next_p = skip_stars pattern (p + 2)
      in if next_p < length pattern \<and> is_path_sep (pattern ! next_p) then next_p + 1 else next_p)"

partial_function (option) path_loop ::
  "byte list \<Rightarrow> byte list \<Rightarrow> nat \<Rightarrow> nat \<Rightarrow> (nat \<times> nat) option \<Rightarrow> (nat \<times> nat) option \<Rightarrow> bool option" where
  "path_loop pattern chars p t dstar star_at =
     (if t < length chars then
        (if p + 1 < length pattern \<and> pattern ! p = star \<and> pattern ! (p + 1) = star then
           (let next_p = after_double_star pattern p in path_loop pattern chars next_p t (Some (next_p, t)) None)
         else if p < length pattern \<and> pattern ! p = star then
           path_loop pattern chars (p + 1) t dstar (Some (p + 1, t))
         else if p < length pattern \<and> pattern ! p = question \<and> \<not> is_path_sep (chars ! t) then
           path_loop pattern chars (p + 1) (t + 1) dstar star_at
         else if p < length pattern \<and> path_chars_match (pattern ! p) (chars ! t) then
           path_loop pattern chars (p + 1) (t + 1) dstar star_at
         else if star_at \<noteq> None \<and> \<not> is_path_sep (chars ! snd (the star_at)) then
           (let (sp, star_t) = the star_at in path_loop pattern chars sp (star_t + 1) dstar (Some (sp, star_t + 1)))
         else
           (case dstar of
              Some (dp, dstar_t) \<Rightarrow> path_loop pattern chars dp (dstar_t + 1) (Some (dp, dstar_t + 1)) None
            | None \<Rightarrow> Some False))
      else Some (skip_stars pattern p = length pattern))"

definition path_glob_match_bytes :: "byte list \<Rightarrow> byte list \<Rightarrow> bool option" where
  "path_glob_match_bytes pattern chars = path_loop pattern chars 0 0 None None"

definition path_glob_matches :: "byte list \<Rightarrow> byte list \<Rightarrow> bool option" where
  "path_glob_matches pattern path = path_glob_match_bytes pattern path"

definition literal_entry_matches :: "byte list \<Rightarrow> byte list \<Rightarrow> bool" where
  "literal_entry_matches pattern filename \<longleftrightarrow> \<not> is_glob_pattern pattern \<and> pattern = filename"

definition glob_entry_matches :: "byte list \<Rightarrow> byte list \<Rightarrow> byte list \<Rightarrow> bool option" where
  "glob_entry_matches pattern path filename =
     (if is_glob_pattern pattern
      then (if is_path_pattern pattern then path_glob_matches pattern path
            else Some (filename_glob_matches pattern filename))
      else Some False)"

text \<open>
  \<open>Path::file_name\<close> of the standard library on Unix: the last component, unless there is none or it is
  \<open>..\<close>; empty components and \<open>.\<close> do not count.
\<close>

fun path_components :: "byte list \<Rightarrow> byte list \<Rightarrow> byte list list" where
  "path_components cur [] = [cur]"
| "path_components cur (b # bs) =
     (if b = slash then cur # path_components [] bs else path_components (cur @ [b]) bs)"

definition file_name :: "byte list \<Rightarrow> byte list option" where
  "file_name path =
     (let names = filter (\<lambda>c. c \<noteq> [] \<and> c \<noteq> [46]) (path_components [] path)
      in if names = [] \<or> last names = [46, 46] then None else Some (last names))"

fun any_entry :: "byte list list \<Rightarrow> byte list \<Rightarrow> byte list \<Rightarrow> bool option" where
  "any_entry [] path filename = Some False"
| "any_entry (p # ps) path filename =
     (if literal_entry_matches p filename then Some True
      else do {
        b \<leftarrow> glob_entry_matches p path filename;
        if b then Some True else any_entry ps path filename
      })"

definition matches_any_entry :: "byte list list \<Rightarrow> byte list \<Rightarrow> bool option" where
  "matches_any_entry patterns path =
     any_entry patterns path (case file_name path of Some f \<Rightarrow> f | None \<Rightarrow> [])"

subsection \<open>What a file name pattern means\<close>

fun glob_spec :: "byte list \<Rightarrow> byte list \<Rightarrow> bool" where
  "glob_spec [] xs \<longleftrightarrow> xs = []"
| "glob_spec (c # ps) [] \<longleftrightarrow> c = star \<and> glob_spec ps []"
| "glob_spec (c # ps) (x # xs) \<longleftrightarrow>
     (if c = star then glob_spec ps (x # xs) \<or> glob_spec (c # ps) xs
      else (c = question \<or> c = x) \<and> glob_spec ps xs)"

lemma skip_stars_spec: "p \<le> length pattern \<Longrightarrow> skip_stars pattern p = length pattern \<longleftrightarrow> glob_spec (drop p pattern) []"
proof (induction pattern p rule: skip_stars.induct)
  case (1 pattern p)
  show ?case
  proof (cases "p < length pattern")
    case True
    then have "drop p pattern = pattern ! p # drop (p + 1) pattern" by (simp add: Cons_nth_drop_Suc)
    then show ?thesis using 1 True by (subst skip_stars.simps) auto
  next
    case False
    with 1 show ?thesis by (subst skip_stars.simps) simp
  qed
qed

lemma glob_spec_star: "glob_spec (star # ps) xs \<longleftrightarrow> (\<exists>k \<le> length xs. glob_spec ps (drop k xs))"
proof (induction xs)
  case (Cons x xs)
  have "(\<exists>k \<le> length (x # xs). glob_spec ps (drop k (x # xs))) \<longleftrightarrow>
      glob_spec ps (x # xs) \<or> (\<exists>k \<le> length xs. glob_spec ps (drop k xs))"
    by (metis Suc_le_mono drop0 drop_Suc_Cons length_Cons not0_implies_Suc zero_le)
  with Cons show ?case by simp
qed simp

lemma glob_spec_fixed:
  "star \<notin> set mid \<Longrightarrow> glob_spec (mid @ ps) xs \<Longrightarrow> length mid \<le> length xs \<and> glob_spec ps (drop (length mid) xs)"
proof (induction mid arbitrary: xs)
  case (Cons c mid)
  then show ?case by (cases xs) auto
qed simp

lemma glob_spec_star_earlier:
  assumes "glob_spec (star # ps) (drop j xs)" "i \<le> j" "j \<le> length xs"
  shows "glob_spec (star # ps) (drop i xs)"
proof -
  obtain k where k: "k \<le> length xs - j" "glob_spec ps (drop (k + j) xs)"
    using assms(1) by (auto simp: glob_spec_star)
  then have "j - i + k \<le> length (drop i xs)" "drop (j - i + k) (drop i xs) = drop (k + j) xs"
    using assms(2,3) by (simp_all add: add.commute)
  with k(2) show ?thesis unfolding glob_spec_star by metis
qed

subsection \<open>The loop on file names\<close>

text \<open>
  The pattern since the last star has no star, so it is matched by as many bytes as it has; the star itself
  has been matched up to \<open>st\<close>. What else a run may still find is a longer match of that star.
\<close>

definition glob_state :: "byte list \<Rightarrow> nat \<Rightarrow> nat \<Rightarrow> nat option \<Rightarrow> nat \<Rightarrow> bool" where
  "glob_state pattern p t star_p st \<longleftrightarrow>
     p \<le> length pattern \<and>
     (case star_p of
        None \<Rightarrow> True
      | Some s \<Rightarrow> \<exists>mid. drop s pattern = star # mid @ drop p pattern \<and> star \<notin> set mid \<and>
          s + 1 + length mid = p \<and> st + length mid = t)"

definition glob_longer :: "byte list \<Rightarrow> byte list \<Rightarrow> nat option \<Rightarrow> nat \<Rightarrow> bool" where
  "glob_longer pattern chars star_p st \<longleftrightarrow>
     (case star_p of
        None \<Rightarrow> False
      | Some s \<Rightarrow> st < length chars \<and> glob_spec (drop s pattern) (drop (st + 1) chars))"

lemma glob_longer_later:
  assumes "glob_state pattern p t star_p st" "glob_longer pattern chars star_p st"
  obtains j where "t < j" "j \<le> length chars" "glob_spec (drop p pattern) (drop j chars)"
proof -
  obtain s mid where s: "star_p = Some s" "drop s pattern = star # mid @ drop p pattern" "star \<notin> set mid"
    "st + length mid = t"
    using assms by (auto simp: glob_state_def glob_longer_def split: option.splits)
  then have "glob_spec (star # mid @ drop p pattern) (drop (st + 1) chars)" "st < length chars"
    using assms(2) by (simp_all add: glob_longer_def)
  then obtain k where k: "k \<le> length chars - (st + 1)" "glob_spec (mid @ drop p pattern) (drop k (drop (st + 1) chars))"
    unfolding glob_spec_star by auto
  from glob_spec_fixed[OF s(3) k(2)]
  have "length mid \<le> length chars - (st + 1 + k)" "glob_spec (drop p pattern) (drop (length mid + (k + (st + 1))) chars)"
    by (simp_all add: add.commute)
  moreover from this(2) have "glob_spec (drop p pattern) (drop (t + 1 + k) chars)"
    unfolding s(4)[symmetric] by (simp add: ac_simps)
  moreover have "t + 1 + k \<le> length chars" using calculation(1) s(4) k(1) \<open>st < length chars\<close> by linarith
  ultimately show thesis using that[of "t + 1 + k"] by simp
qed

lemma drop_star: "drop s pattern = c # rest \<Longrightarrow> drop (s + 1) pattern = rest"
  by (simp add: drop_Suc flip: tl_drop)

lemma glob_longer_step:
  assumes "drop s pattern = star # rest" "drop (s + 1) pattern = rest" "st < length chars"
  shows "glob_longer pattern chars (Some s) st \<longleftrightarrow>
    glob_spec (drop (s + 1) pattern) (drop (st + 1) chars) \<or> glob_longer pattern chars (Some s) (st + 1)"
proof (cases "st + 1 < length chars")
  case True
  then have "drop (st + 1) chars = chars ! (st + 1) # drop (st + 2) chars" by (simp add: Cons_nth_drop_Suc)
  then show ?thesis using True assms(3) unfolding assms(2) by (simp add: glob_longer_def assms(1))
next
  case False
  then have "drop (st + 1) chars = []" by simp
  then show ?thesis using False assms(3) unfolding assms(2) by (simp add: glob_longer_def assms(1))
qed

lemma glob_state_step:
  assumes "glob_state pattern p t star_p st" "p < length pattern" "pattern ! p \<noteq> star"
  shows "glob_state pattern (p + 1) (t + 1) star_p st"
proof (cases star_p)
  case (Some s)
  then obtain mid where mid: "drop s pattern = star # mid @ drop p pattern" "star \<notin> set mid"
    "s + 1 + length mid = p" "st + length mid = t"
    using assms(1) by (auto simp: glob_state_def)
  have "drop p pattern = pattern ! p # drop (p + 1) pattern" using assms(2) by (simp add: Cons_nth_drop_Suc)
  then show ?thesis
    using Some mid assms(2,3) by (auto simp: glob_state_def intro!: exI[of _ "mid @ [pattern ! p]"])
qed (use assms in \<open>simp add: glob_state_def\<close>)

lemma glob_loop_correct:
  assumes "star \<notin> set chars" "glob_state pattern p t star_p st" "t \<le> length chars"
  shows "glob_loop pattern chars p t star_p st \<longleftrightarrow>
    glob_spec (drop p pattern) (drop t chars) \<or> glob_longer pattern chars star_p st"
  using assms
proof (induction pattern chars p t star_p st rule: glob_loop.induct)
  case (1 pattern chars p t star_p st)
  note later = glob_longer_later[OF "1.prems"(2), of chars]
  show ?case
  proof (cases "t < length chars")
    case False
    then have "\<not> glob_longer pattern chars star_p st" using later "1.prems"(3) by fastforce
    with False "1.prems" show ?thesis
      by (subst glob_loop.simps) (simp add: skip_stars_spec glob_state_def)
  next
    case True
    have x: "drop t chars = chars ! t # drop (t + 1) chars" using True by (simp add: Cons_nth_drop_Suc)
    have nostar: "chars ! t \<noteq> star" using True "1.prems"(1) by (metis nth_mem)
    have c: "drop p pattern = pattern ! p # drop (p + 1) pattern" if "p < length pattern"
      using that by (simp add: Cons_nth_drop_Suc)
    consider (byte) "p < length pattern" "pattern ! p = question \<or> pattern ! p = chars ! t"
      | (star) "p < length pattern" "pattern ! p = star" "\<not> (pattern ! p = question \<or> pattern ! p = chars ! t)"
      | (miss) "\<not> (p < length pattern \<and> (pattern ! p = question \<or> pattern ! p = chars ! t))"
          "\<not> (p < length pattern \<and> pattern ! p = star)" by blast
    then show ?thesis
    proof cases
      case byte
      then have "pattern ! p \<noteq> star" using nostar by auto
      with byte show ?thesis
        using "1.IH"(1) True "1.prems" glob_state_step[OF "1.prems"(2)] x c
        by (subst glob_loop.simps) (simp)
    next
      case star
      have st: "glob_state pattern (p + 1) t (Some p) t"
        using star c by (auto simp: glob_state_def)
      have "glob_loop pattern chars p t star_p st \<longleftrightarrow> glob_spec (drop p pattern) (drop t chars)"
        using "1.IH"(2)[OF True] star st "1.prems"(1,3) True x c
        by (subst glob_loop.simps) (auto simp: glob_longer_def)
      moreover have "glob_spec (drop p pattern) (drop t chars)" if "glob_longer pattern chars star_p st"
        using later[OF that] glob_spec_star_earlier[of "drop (p + 1) pattern"] star c
        by (metis less_imp_le_nat)
      ultimately show ?thesis by blast
    next
      case miss
      then have cur: "\<not> glob_spec (drop p pattern) (drop t chars)"
        using x c by (cases "p < length pattern") auto
      show ?thesis
      proof (cases star_p)
        case None
        with miss cur True show ?thesis by (subst glob_loop.simps) (auto simp: glob_longer_def)
      next
        case (Some s)
        then obtain mid where s: "drop s pattern = star # mid @ drop p pattern" "s + 1 + length mid = p" "st + length mid = t"
          using "1.prems"(2) by (auto simp: glob_state_def)
        from s(1) have sub: "drop (s + 1) pattern = mid @ drop p pattern" by (rule drop_star)
        have st: "glob_state pattern (s + 1) (st + 1) (Some s) (st + 1)"
          using s sub "1.prems"(2) by (auto simp: glob_state_def)
        have "glob_loop pattern chars p t star_p st \<longleftrightarrow>
            glob_spec (drop (s + 1) pattern) (drop (st + 1) chars) \<or> glob_longer pattern chars (Some s) (st + 1)"
          using "1.IH"(3)[OF True _ _ Some] miss st "1.prems"(1) True s(3) Some by (subst glob_loop.simps) auto
        then show ?thesis using glob_longer_step[OF s(1) sub] cur Some True s(3) by simp
      qed
    qed
  qed
qed

subsection \<open>What a path pattern means\<close>

text \<open>
  A run of two or more stars, together with one separator that follows it, is one token. With the
  separator it asks for a byte to be left; apart from that it matches any bytes.
\<close>

datatype token = Run bool | Within | Single | Exactly byte

function tokens :: "byte list \<Rightarrow> token list" where
  "tokens [] = []"
| "tokens (c # cs) =
     (if c = star then
        (if cs \<noteq> [] \<and> hd cs = star then
           (let rest = dropWhile (\<lambda>b. b = star) cs in
            if rest \<noteq> [] \<and> is_path_sep (hd rest) then Run True # tokens (tl rest) else Run False # tokens rest)
         else Within # tokens cs)
      else if c = question then Single # tokens cs
      else Exactly c # tokens cs)"
  by pat_completeness auto
termination
  by (relation "measure length") (auto intro!: le_imp_less_Suc intro: length_dropWhile_le le_trans[OF diff_le_self length_dropWhile_le])

declare tokens.simps(2) [simp del]

fun tok_spec :: "token list \<Rightarrow> byte list \<Rightarrow> bool" where
  "tok_spec [] xs \<longleftrightarrow> xs = []"
| "tok_spec (Run sep # ts) [] \<longleftrightarrow> \<not> sep \<and> tok_spec ts []"
| "tok_spec (Run sep # ts) (x # xs) \<longleftrightarrow> tok_spec ts (x # xs) \<or> tok_spec (Run False # ts) xs"
| "tok_spec (Within # ts) [] \<longleftrightarrow> tok_spec ts []"
| "tok_spec (Within # ts) (x # xs) \<longleftrightarrow> tok_spec ts (x # xs) \<or> \<not> is_path_sep x \<and> tok_spec (Within # ts) xs"
| "tok_spec (Single # ts) [] \<longleftrightarrow> False"
| "tok_spec (Single # ts) (x # xs) \<longleftrightarrow> \<not> is_path_sep x \<and> tok_spec ts xs"
| "tok_spec (Exactly c # ts) [] \<longleftrightarrow> False"
| "tok_spec (Exactly c # ts) (x # xs) \<longleftrightarrow> path_chars_match c x \<and> tok_spec ts xs"

subsection \<open>The tokens at an index\<close>

lemma skip_stars_drop:
  assumes "p \<le> length pattern"
  shows "drop (skip_stars pattern p) pattern = dropWhile (\<lambda>b. b = star) (drop p pattern)"
    "p \<le> skip_stars pattern p" "skip_stars pattern p \<le> length pattern"
proof -
  have "drop (skip_stars pattern p) pattern = dropWhile (\<lambda>b. b = star) (drop p pattern) \<and>
      p \<le> skip_stars pattern p \<and> skip_stars pattern p \<le> length pattern"
    using assms
  proof (induction pattern p rule: skip_stars.induct)
    case (1 pattern p)
    show ?case
    proof (cases "p < length pattern \<and> pattern ! p = star")
      case True
      then show ?thesis
        using 1 by (subst (1 2 3) skip_stars.simps) (auto simp: Cons_nth_drop_Suc[symmetric])
    next
      case False
      then have "dropWhile (\<lambda>b. b = star) (drop p pattern) = drop p pattern"
        using "1.prems" by (cases "p < length pattern") (auto simp: Cons_nth_drop_Suc[symmetric])
      with False "1.prems" show ?thesis by (subst (1 2 3) skip_stars.simps) auto
    qed
  qed
  then show "drop (skip_stars pattern p) pattern = dropWhile (\<lambda>b. b = star) (drop p pattern)"
    "p \<le> skip_stars pattern p" "skip_stars pattern p \<le> length pattern" by blast+
qed

lemma tokens_double_star:
  assumes "p + 1 < length pattern" "pattern ! p = star" "pattern ! (p + 1) = star"
  shows "\<exists>sep. tokens (drop p pattern) = Run sep # tokens (drop (after_double_star pattern p) pattern)"
    "p < after_double_star pattern p" "after_double_star pattern p \<le> length pattern"
proof -
  let ?n = "skip_stars pattern (p + 2)"
  have n: "drop ?n pattern = dropWhile (\<lambda>b. b = star) (drop (p + 2) pattern)" "p + 2 \<le> ?n" "?n \<le> length pattern"
    using skip_stars_drop[of "p + 2" pattern] assms(1) by simp_all
  have cs: "drop p pattern = star # star # drop (p + 2) pattern"
    using assms by (metis Cons_nth_drop_Suc Suc_eq_plus1 Suc_lessD add_2_eq_Suc')
  have rest: "dropWhile (\<lambda>b. b = star) (star # drop (p + 2) pattern) = drop ?n pattern" using n(1) by simp
  show "p < after_double_star pattern p" "after_double_star pattern p \<le> length pattern"
    using n by (auto simp: after_double_star_def Let_def)
  show "\<exists>sep. tokens (drop p pattern) = Run sep # tokens (drop (after_double_star pattern p) pattern)"
  proof (cases "?n < length pattern \<and> is_path_sep (pattern ! ?n)")
    case True
    then have "drop ?n pattern = pattern ! ?n # drop (?n + 1) pattern" by (simp add: Cons_nth_drop_Suc)
    with True rest show ?thesis
      unfolding cs by (intro exI[of _ True]) (simp add: tokens.simps(2) after_double_star_def Let_def)
  next
    case False
    then have "\<not> (drop ?n pattern \<noteq> [] \<and> is_path_sep (hd (drop ?n pattern)))"
      by (auto simp: hd_drop_conv_nth)
    moreover have "after_double_star pattern p = ?n" using False by (auto simp: after_double_star_def)
    ultimately show ?thesis using rest unfolding cs by (intro exI[of _ False]) (auto simp: tokens.simps(2) Let_def)
  qed
qed

lemma tokens_byte:
  assumes "p < length pattern" "pattern ! p \<noteq> star"
  shows "tokens (drop p pattern) =
    (if pattern ! p = question then Single else Exactly (pattern ! p)) # tokens (drop (p + 1) pattern)"
proof -
  have "drop p pattern = pattern ! p # drop (p + 1) pattern" using assms(1) by (simp add: Cons_nth_drop_Suc)
  then show ?thesis using assms(2) by (simp add: tokens.simps(2))
qed

lemma tokens_single_star:
  assumes "p < length pattern" "pattern ! p = star" "\<not> (p + 1 < length pattern \<and> pattern ! (p + 1) = star)"
  shows "tokens (drop p pattern) = Within # tokens (drop (p + 1) pattern)"
proof -
  have "drop p pattern = star # drop (p + 1) pattern" using assms(1,2) by (metis Cons_nth_drop_Suc Suc_eq_plus1)
  moreover have "\<not> (drop (p + 1) pattern \<noteq> [] \<and> hd (drop (p + 1) pattern) = star)"
    using assms(3) by (auto simp: hd_drop_conv_nth)
  ultimately show ?thesis by (auto simp: tokens.simps(2))
qed

lemma glob_spec_all_stars: "glob_spec cs [] \<longleftrightarrow> list_all (\<lambda>b. b = star) cs"
  by (induction cs) auto

lemma tokens_at_end: "tok_spec (tokens cs) [] \<longleftrightarrow> list_all (\<lambda>b. b = star) cs"
proof (induction cs rule: tokens.induct)
  case (2 c cs)
  show ?case
  proof (cases "c = star \<and> cs \<noteq> [] \<and> hd cs = star")
    case True
    let ?rest = "dropWhile (\<lambda>b. b = star) cs"
    have "list_all (\<lambda>b. b = star) cs \<longleftrightarrow> ?rest = []" by (auto simp: list_all_iff)
    moreover have "list_all (\<lambda>b. b = star) ?rest \<longleftrightarrow> ?rest = []"
      by (metis hd_dropWhile list.pred_inject(1) list.pred_inject(2) list.collapse)
    moreover have "\<not> is_path_sep star" by (simp add: is_path_sep_def)
    ultimately show ?thesis using True "2.IH"(2) by (auto simp: tokens.simps(2) Let_def)
  next
    case False
    then show ?thesis using "2.IH"(3-5) by (auto simp: tokens.simps(2))
  qed
qed simp

subsection \<open>Matches that start later\<close>

abbreviation no_sep :: "byte list \<Rightarrow> nat \<Rightarrow> nat \<Rightarrow> bool" where
  "no_sep chars i j \<equiv> \<forall>k. i \<le> k \<and> k < j \<longrightarrow> \<not> is_path_sep (chars ! k)"

lemma tok_spec_run:
  assumes "i \<le> length chars"
  shows "tok_spec (Run sep # ts) (drop i chars) \<longleftrightarrow>
    (sep \<longrightarrow> i < length chars) \<and> (\<exists>j. i \<le> j \<and> j \<le> length chars \<and> tok_spec ts (drop j chars))"
  using assms
proof (induction "length chars - i" arbitrary: i sep)
  case 0
  then show ?case by auto
next
  case (Suc n)
  then have i: "i < length chars" by simp
  have x: "drop i chars = chars ! i # drop (i + 1) chars" using i by (simp add: Cons_nth_drop_Suc)
  have "(\<exists>j. i \<le> j \<and> j \<le> length chars \<and> tok_spec ts (drop j chars)) \<longleftrightarrow>
      tok_spec ts (drop i chars) \<or> (\<exists>j. i + 1 \<le> j \<and> j \<le> length chars \<and> tok_spec ts (drop j chars))"
    using i by (metis Suc_eq_plus1 le_antisym less_imp_le_nat not_less_eq_eq order_refl Suc_leD)
  with Suc.hyps(1)[of "i + 1" False] Suc.hyps(2) i show ?case by (simp add: x)
qed

lemma tok_spec_within:
  assumes "i \<le> length chars"
  shows "tok_spec (Within # ts) (drop i chars) \<longleftrightarrow>
    (\<exists>j. i \<le> j \<and> j \<le> length chars \<and> no_sep chars i j \<and> tok_spec ts (drop j chars))"
  using assms
proof (induction "length chars - i" arbitrary: i)
  case 0
  then show ?case by auto
next
  case (Suc n)
  then have i: "i < length chars" by simp
  have x: "drop i chars = chars ! i # drop (i + 1) chars" using i by (simp add: Cons_nth_drop_Suc)
  have "(\<exists>j. i \<le> j \<and> j \<le> length chars \<and> no_sep chars i j \<and> tok_spec ts (drop j chars)) \<longleftrightarrow>
      tok_spec ts (drop i chars) \<or> \<not> is_path_sep (chars ! i) \<and>
      (\<exists>j. i + 1 \<le> j \<and> j \<le> length chars \<and> no_sep chars (i + 1) j \<and> tok_spec ts (drop j chars))" (is "?l \<longleftrightarrow> ?r")
  proof
    assume ?l
    then obtain j where j: "i \<le> j" "j \<le> length chars" "no_sep chars i j" "tok_spec ts (drop j chars)" by blast
    then show ?r by (cases "i = j") (auto intro!: exI[of _ j])
  next
    assume ?r
    then show ?l
    proof
      assume "tok_spec ts (drop i chars)"
      then show ?l using i by (intro exI[of _ i]) auto
    next
      assume "\<not> is_path_sep (chars ! i) \<and>
        (\<exists>j. i + 1 \<le> j \<and> j \<le> length chars \<and> no_sep chars (i + 1) j \<and> tok_spec ts (drop j chars))"
      then obtain j where j: "\<not> is_path_sep (chars ! i)" "i + 1 \<le> j" "j \<le> length chars"
        "no_sep chars (i + 1) j" "tok_spec ts (drop j chars)" by blast
      have "no_sep chars i j"
        using j(1,4) by (metis Suc_eq_plus1 le_neq_implies_less Suc_leI)
      with j show ?l by (intro exI[of _ j]) auto
    qed
  qed
  with Suc.hyps(1)[of "i + 1"] Suc.hyps(2) i show ?case by (simp add: x)
qed

lemma within_earlier:
  assumes "tok_spec (Within # ts) (drop j chars)" "i \<le> j" "j \<le> length chars" "no_sep chars i j"
  shows "tok_spec (Within # ts) (drop i chars)"
proof -
  obtain k where k: "j \<le> k" "k \<le> length chars" "no_sep chars j k" "tok_spec ts (drop k chars)"
    using assms(1) tok_spec_within[OF assms(3)] by blast
  have "no_sep chars i k" using assms(4) k(3) by (metis not_le)
  with k assms(2) show ?thesis
    using tok_spec_within[of i chars ts] assms(3) by (metis le_trans)
qed

subsection \<open>The loop on paths\<close>

text \<open>
  Besides the current attempt a run can still find a longer match of the last single star or of the last
  run of stars. The state keeps that a longer match of either continues behind the current position: one
  of the single star without a separator in between. So a later star, a later run of stars or the end of the
  text may forget them.
\<close>

abbreviation todo :: "byte list \<Rightarrow> nat \<Rightarrow> token list" where
  "todo pattern p \<equiv> tokens (drop p pattern)"

definition star_longer :: "byte list \<Rightarrow> byte list \<Rightarrow> (nat \<times> nat) option \<Rightarrow> bool" where
  "star_longer pattern chars star_at \<longleftrightarrow>
     (case star_at of
        None \<Rightarrow> False
      | Some (sp, st) \<Rightarrow> st < length chars \<and> \<not> is_path_sep (chars ! st) \<and>
          tok_spec (Within # todo pattern sp) (drop (st + 1) chars))"

definition run_longer :: "byte list \<Rightarrow> byte list \<Rightarrow> (nat \<times> nat) option \<Rightarrow> bool" where
  "run_longer pattern chars dstar \<longleftrightarrow>
     (case dstar of
        None \<Rightarrow> False
      | Some (dp, dt) \<Rightarrow> \<exists>j. dt < j \<and> j \<le> length chars \<and> tok_spec (todo pattern dp) (drop j chars))"

definition continues :: "byte list \<Rightarrow> byte list \<Rightarrow> nat \<Rightarrow> nat \<Rightarrow> bool" where
  "continues pattern chars p t \<longleftrightarrow> (\<exists>j. t \<le> j \<and> j \<le> length chars \<and> tok_spec (todo pattern p) (drop j chars))"

definition continues_within :: "byte list \<Rightarrow> byte list \<Rightarrow> nat \<Rightarrow> nat \<Rightarrow> bool" where
  "continues_within pattern chars p t \<longleftrightarrow>
     (\<exists>j. t \<le> j \<and> j \<le> length chars \<and> no_sep chars t j \<and> tok_spec (todo pattern p) (drop j chars))"

definition star_state :: "byte list \<Rightarrow> byte list \<Rightarrow> nat \<Rightarrow> nat \<Rightarrow> (nat \<times> nat) option \<Rightarrow> bool" where
  "star_state pattern chars p t star_at \<longleftrightarrow>
     (case star_at of
        None \<Rightarrow> True
      | Some (sp, st) \<Rightarrow> sp \<le> length pattern \<and> st \<le> t \<and>
          (tok_spec (todo pattern sp) (drop st chars) \<longrightarrow> tok_spec (todo pattern p) (drop t chars)) \<and>
          (star_longer pattern chars star_at \<longrightarrow> continues_within pattern chars p t))"

definition run_state ::
  "byte list \<Rightarrow> byte list \<Rightarrow> nat \<Rightarrow> nat \<Rightarrow> (nat \<times> nat) option \<Rightarrow> (nat \<times> nat) option \<Rightarrow> bool" where
  "run_state pattern chars p t dstar star_at \<longleftrightarrow>
     (case dstar of
        None \<Rightarrow> True
      | Some (dp, dt) \<Rightarrow> dp \<le> length pattern \<and> dt \<le> t \<and>
          (run_longer pattern chars dstar \<longrightarrow> continues pattern chars p t) \<and>
          (case star_at of
             None \<Rightarrow> True
           | Some (sp, st) \<Rightarrow> dt \<le> st \<and> (run_longer pattern chars dstar \<longrightarrow> continues pattern chars sp st)))"

definition path_state ::
  "byte list \<Rightarrow> byte list \<Rightarrow> nat \<Rightarrow> nat \<Rightarrow> (nat \<times> nat) option \<Rightarrow> (nat \<times> nat) option \<Rightarrow> bool" where
  "path_state pattern chars p t dstar star_at \<longleftrightarrow>
     p \<le> length pattern \<and> t \<le> length chars \<and> star_state pattern chars p t star_at \<and>
     run_state pattern chars p t dstar star_at"

definition path_outcome ::
  "byte list \<Rightarrow> byte list \<Rightarrow> nat \<Rightarrow> nat \<Rightarrow> (nat \<times> nat) option \<Rightarrow> (nat \<times> nat) option \<Rightarrow> bool" where
  "path_outcome pattern chars p t dstar star_at \<longleftrightarrow>
     tok_spec (todo pattern p) (drop t chars) \<or> star_longer pattern chars star_at \<or> run_longer pattern chars dstar"

text \<open>Consuming one byte.\<close>

fun takes :: "token \<Rightarrow> byte \<Rightarrow> bool" where
  "takes (Run _) x \<longleftrightarrow> False"
| "takes Within x \<longleftrightarrow> False"
| "takes Single x \<longleftrightarrow> \<not> is_path_sep x"
| "takes (Exactly c) x \<longleftrightarrow> path_chars_match c x"

definition byte_token :: "token \<Rightarrow> bool" where
  "byte_token tk \<longleftrightarrow> tk = Single \<or> (\<exists>c. tk = Exactly c)"

lemma tok_spec_byte:
  assumes "byte_token tk" "j \<le> length chars"
  shows "tok_spec (tk # ts) (drop j chars) \<longleftrightarrow> j < length chars \<and> takes tk (chars ! j) \<and> tok_spec ts (drop (j + 1) chars)"
proof (cases "j < length chars")
  case True
  then have "drop j chars = chars ! j # drop (j + 1) chars" by (simp add: Cons_nth_drop_Suc)
  with True assms(1) show ?thesis by (auto simp: byte_token_def)
qed (use assms in \<open>auto simp: byte_token_def\<close>)

lemma takes_same_kind:
  assumes "byte_token tk" "takes tk x" "\<not> is_path_sep x" "takes tk y"
  shows "\<not> is_path_sep y"
  using assms by (auto simp: byte_token_def path_chars_match_def)

lemma byte_step:
  assumes "path_state pattern chars p t dstar star_at" "t < length chars" "p < length pattern"
    and "todo pattern p = tk # todo pattern (p + 1)" "byte_token tk" "takes tk (chars ! t)"
  shows "path_state pattern chars (p + 1) (t + 1) dstar star_at"
    "path_outcome pattern chars (p + 1) (t + 1) dstar star_at = path_outcome pattern chars p t dstar star_at"
proof -
  have cur: "tok_spec (todo pattern p) (drop t chars) \<longleftrightarrow> tok_spec (todo pattern (p + 1)) (drop (t + 1) chars)"
    using tok_spec_byte[OF assms(5)] assms(2,4,6) by simp
  then show "path_outcome pattern chars (p + 1) (t + 1) dstar star_at = path_outcome pattern chars p t dstar star_at"
    by (simp add: path_outcome_def)
  have cont: "continues pattern chars (p + 1) (t + 1)" if "continues pattern chars p t"
  proof -
    obtain j where "t \<le> j" "j \<le> length chars" "tok_spec (todo pattern p) (drop j chars)"
      using \<open>continues pattern chars p t\<close> by (auto simp: continues_def)
    then show ?thesis
      using tok_spec_byte[OF assms(5), of j chars] assms(4) by (auto simp: continues_def intro!: exI[of _ "j + 1"])
  qed
  have within: "continues_within pattern chars (p + 1) (t + 1)" if "continues_within pattern chars p t"
  proof -
    obtain j where j: "t \<le> j" "j \<le> length chars" "no_sep chars t j" "tok_spec (todo pattern p) (drop j chars)"
      using \<open>continues_within pattern chars p t\<close> by (auto simp: continues_within_def)
    then have here: "j < length chars" "takes tk (chars ! j)" "tok_spec (todo pattern (p + 1)) (drop (j + 1) chars)"
      using tok_spec_byte[OF assms(5), of j chars] assms(4) by auto
    have "no_sep chars (t + 1) (j + 1)"
    proof (cases "t = j")
      case False
      then have "\<not> is_path_sep (chars ! t)" using j(1,3) by auto
      then have "\<not> is_path_sep (chars ! j)" using takes_same_kind[OF assms(5,6)] here(2) by blast
      then show ?thesis using j(3) by (metis Suc_eq_plus1 Suc_leD less_antisym)
    qed auto
    with here j(1) show ?thesis unfolding continues_within_def by (intro exI[of _ "j + 1"]) auto
  qed
  show "path_state pattern chars (p + 1) (t + 1) dstar star_at"
    using assms(1-3) cur cont within
    by (auto simp: path_state_def star_state_def run_state_def split: option.splits prod.splits)
qed

text \<open>A single star: a longer match of the star before it is one of this star.\<close>

lemma star_step:
  assumes "path_state pattern chars p t dstar star_at" "t < length chars" "p < length pattern"
    and "todo pattern p = Within # todo pattern (p + 1)"
  shows "path_state pattern chars (p + 1) t dstar (Some (p + 1, t))"
    "path_outcome pattern chars (p + 1) t dstar (Some (p + 1, t)) = path_outcome pattern chars p t dstar star_at"
proof -
  have x: "drop t chars = chars ! t # drop (t + 1) chars" using assms(2) by (simp add: Cons_nth_drop_Suc)
  have cur: "tok_spec (todo pattern p) (drop t chars) \<longleftrightarrow>
      tok_spec (todo pattern (p + 1)) (drop t chars) \<or> star_longer pattern chars (Some (p + 1, t))"
    using assms(2,4) by (simp add: x star_longer_def)
  have old: "tok_spec (todo pattern p) (drop t chars)" if "star_longer pattern chars star_at"
  proof -
    have "continues_within pattern chars p t"
      using assms(1) that by (cases star_at) (auto simp: path_state_def star_state_def star_longer_def)
    then show ?thesis unfolding assms(4) continues_within_def using within_earlier by blast
  qed
  show "path_outcome pattern chars (p + 1) t dstar (Some (p + 1, t)) = path_outcome pattern chars p t dstar star_at"
    using cur old by (auto simp: path_outcome_def)
  have new: "continues_within pattern chars (p + 1) t" if "star_longer pattern chars (Some (p + 1, t))"
  proof -
    have "tok_spec (Within # todo pattern (p + 1)) (drop (t + 1) chars)" "\<not> is_path_sep (chars ! t)"
      using that by (simp_all add: star_longer_def)
    then obtain j where "t + 1 \<le> j" "j \<le> length chars" "no_sep chars (t + 1) j"
      "tok_spec (todo pattern (p + 1)) (drop j chars)"
      using tok_spec_within[of "t + 1" chars] assms(2) by auto
    moreover have "no_sep chars t j"
      using \<open>\<not> is_path_sep (chars ! t)\<close> \<open>no_sep chars (t + 1) j\<close> by (metis Suc_eq_plus1 Suc_leI le_neq_implies_less)
    ultimately show ?thesis unfolding continues_within_def by (intro exI[of _ j]) auto
  qed
  have cont: "continues pattern chars (p + 1) t" if c: "continues pattern chars p t"
  proof -
    obtain j where j: "t \<le> j" "j \<le> length chars" "tok_spec (Within # todo pattern (p + 1)) (drop j chars)"
      using c assms(4) by (auto simp: continues_def)
    then obtain k where "j \<le> k" "k \<le> length chars" "tok_spec (todo pattern (p + 1)) (drop k chars)"
      using tok_spec_within[OF j(2)] by blast
    with j(1) show ?thesis unfolding continues_def by (intro exI[of _ k]) auto
  qed
  show "path_state pattern chars (p + 1) t dstar (Some (p + 1, t))"
    using assms(1-3) new cont
    by (auto simp: path_state_def star_state_def run_state_def split: option.splits prod.splits)
qed

text \<open>A run of stars takes over all that is still open.\<close>

lemma run_step:
  assumes "path_state pattern chars p t dstar star_at" "t < length chars" "n \<le> length pattern"
    and "todo pattern p = Run sep # todo pattern n"
  shows "path_state pattern chars n t (Some (n, t)) None"
    "path_outcome pattern chars n t (Some (n, t)) None = path_outcome pattern chars p t dstar star_at"
proof -
  have cur: "tok_spec (todo pattern p) (drop t chars) \<longleftrightarrow> continues pattern chars n t"
    using assms(2,4) tok_spec_run[of t chars] by (auto simp: continues_def)
  have later: "continues pattern chars n t" if c: "continues pattern chars p t"
  proof -
    obtain j where j: "t \<le> j" "j \<le> length chars" "tok_spec (Run sep # todo pattern n) (drop j chars)"
      using c assms(4) by (auto simp: continues_def)
    then obtain k where "j \<le> k" "k \<le> length chars" "tok_spec (todo pattern n) (drop k chars)"
      using tok_spec_run[OF j(2)] by blast
    with j(1) show ?thesis unfolding continues_def by (intro exI[of _ k]) auto
  qed
  have "continues_within pattern chars p t \<Longrightarrow> continues pattern chars p t"
    by (auto simp: continues_within_def continues_def)
  then have old: "continues pattern chars n t" if "star_longer pattern chars star_at \<or> run_longer pattern chars dstar"
    using assms(1) that later
    by (cases star_at; cases dstar) (auto simp: path_state_def star_state_def run_state_def star_longer_def run_longer_def)
  have "continues pattern chars n t \<longleftrightarrow> tok_spec (todo pattern n) (drop t chars) \<or> run_longer pattern chars (Some (n, t))"
    using assms(2) by (auto simp: continues_def run_longer_def le_less)
  then show "path_outcome pattern chars n t (Some (n, t)) None = path_outcome pattern chars p t dstar star_at"
    using cur old by (auto simp: path_outcome_def star_longer_def)
  show "path_state pattern chars n t (Some (n, t)) None"
    using assms(2,3) by (auto simp: path_state_def star_state_def run_state_def run_longer_def continues_def
        intro: less_imp_le)
qed

text \<open>Backtracking, when the current attempt has failed.\<close>

lemma star_backtrack:
  assumes "path_state pattern chars p t dstar (Some (sp, st))" "t < length chars"
    and "\<not> tok_spec (todo pattern p) (drop t chars)" "\<not> is_path_sep (chars ! st)"
  shows "path_state pattern chars sp (st + 1) dstar (Some (sp, st + 1))"
    "path_outcome pattern chars sp (st + 1) dstar (Some (sp, st + 1)) = path_outcome pattern chars p t dstar (Some (sp, st))"
proof -
  have st: "st \<le> t" "sp \<le> length pattern" "\<not> tok_spec (todo pattern sp) (drop st chars)"
    using assms(1,3) by (auto simp: path_state_def star_state_def)
  have more: "star_longer pattern chars (Some (sp, st)) \<longleftrightarrow>
      tok_spec (todo pattern sp) (drop (st + 1) chars) \<or> star_longer pattern chars (Some (sp, st + 1))"
  proof (cases "st + 1 < length chars")
    case True
    then have "drop (st + 1) chars = chars ! (st + 1) # drop (st + 2) chars" by (simp add: Cons_nth_drop_Suc)
    with True st(1) assms(2,4) show ?thesis by (simp add: star_longer_def)
  next
    case False
    then have "drop (st + 1) chars = []" by simp
    with False st(1) assms(2,4) show ?thesis by (simp add: star_longer_def)
  qed
  with assms(3) show "path_outcome pattern chars sp (st + 1) dstar (Some (sp, st + 1)) =
      path_outcome pattern chars p t dstar (Some (sp, st))"
    by (auto simp: path_outcome_def)
  have next_within: "continues_within pattern chars sp (st + 1)" if "star_longer pattern chars (Some (sp, st + 1))"
  proof -
    have s: "st + 1 < length chars" "\<not> is_path_sep (chars ! (st + 1))"
      "tok_spec (Within # todo pattern sp) (drop (st + 1 + 1) chars)"
      using that by (simp_all add: star_longer_def)
    then have "tok_spec (Within # todo pattern sp) (drop (st + 1) chars)"
      by (simp add: Cons_nth_drop_Suc[symmetric])
    then show ?thesis using tok_spec_within[of "st + 1" chars] s(1) by (auto simp: continues_within_def)
  qed
  have cont: "continues pattern chars sp (st + 1)" if "continues pattern chars sp st"
    using that st(3) unfolding continues_def by (metis Suc_eq_plus1 Suc_leI le_neq_implies_less)
  show "path_state pattern chars sp (st + 1) dstar (Some (sp, st + 1))"
    using assms(1,2) st next_within cont
    by (auto simp: path_state_def star_state_def run_state_def split: option.splits prod.splits)
qed

lemma run_backtrack:
  assumes "path_state pattern chars p t (Some (dp, dt)) star_at" "t < length chars"
    and "\<not> tok_spec (todo pattern p) (drop t chars)" "\<not> star_longer pattern chars star_at"
  shows "path_state pattern chars dp (dt + 1) (Some (dp, dt + 1)) None"
    "path_outcome pattern chars dp (dt + 1) (Some (dp, dt + 1)) None = path_outcome pattern chars p t (Some (dp, dt)) star_at"
proof -
  have dt: "dt \<le> t" "dp \<le> length pattern" using assms(1) by (auto simp: path_state_def run_state_def)
  have "run_longer pattern chars (Some (dp, dt)) \<longleftrightarrow>
      tok_spec (todo pattern dp) (drop (dt + 1) chars) \<or> run_longer pattern chars (Some (dp, dt + 1))"
    (is "?l \<longleftrightarrow> ?r")
  proof
    assume ?l
    then obtain j where "dt < j" "j \<le> length chars" "tok_spec (todo pattern dp) (drop j chars)"
      by (auto simp: run_longer_def)
    then show ?r by (cases "j = dt + 1") (auto simp: run_longer_def intro!: exI[of _ j])
  next
    assume ?r
    then show ?l
    proof
      assume "tok_spec (todo pattern dp) (drop (dt + 1) chars)"
      then show ?l using dt(1) assms(2) by (auto simp: run_longer_def intro!: exI[of _ "dt + 1"])
    qed (auto simp: run_longer_def dest: Suc_lessD)
  qed
  with assms(3,4) show "path_outcome pattern chars dp (dt + 1) (Some (dp, dt + 1)) None =
      path_outcome pattern chars p t (Some (dp, dt)) star_at"
    by (auto simp: path_outcome_def star_longer_def)
  show "path_state pattern chars dp (dt + 1) (Some (dp, dt + 1)) None"
    using dt assms(2) by (auto simp: path_state_def star_state_def run_state_def run_longer_def continues_def
        intro: less_imp_le)
qed

text \<open>At the end of the text nothing is open.\<close>

lemma outcome_at_end:
  assumes "path_state pattern chars p (length chars) dstar star_at"
  shows "path_outcome pattern chars p (length chars) dstar star_at \<longleftrightarrow> skip_stars pattern p = length pattern"
proof -
  have "star_longer pattern chars star_at \<or> run_longer pattern chars dstar \<longrightarrow> tok_spec (todo pattern p) []"
    using assms
    by (cases star_at; cases dstar) (auto simp: path_state_def star_state_def run_state_def star_longer_def
        run_longer_def continues_def continues_within_def)
  moreover have "skip_stars pattern p = length pattern \<longleftrightarrow> tok_spec (todo pattern p) []"
    using assms skip_stars_spec[of p pattern]
    by (simp add: path_state_def glob_spec_all_stars tokens_at_end)
  ultimately show ?thesis by (auto simp: path_outcome_def)
qed

definition run_at :: "(nat \<times> nat) option \<Rightarrow> nat" where
  "run_at dstar = (case dstar of None \<Rightarrow> 0 | Some (_, d) \<Rightarrow> d)"

definition star_from :: "(nat \<times> nat) option \<Rightarrow> (nat \<times> nat) option \<Rightarrow> nat" where
  "star_from dstar star_at = (case star_at of None \<Rightarrow> run_at dstar | Some (_, s) \<Rightarrow> s)"

lemma run_at_simps [simp]:
  "run_at (Some (n, d)) = d" "star_from dstar (Some (n, d)) = d" "star_from dstar None = run_at dstar"
  by (simp_all add: run_at_def star_from_def)

lemma path_state_order:
  "path_state pattern chars p t dstar star_at \<Longrightarrow> run_at dstar \<le> star_from dstar star_at \<and> star_from dstar star_at \<le> t"
  by (cases dstar; cases star_at) (auto simp: path_state_def star_state_def run_state_def run_at_def)

text \<open>When no byte and no star matches, the current attempt has failed.\<close>

lemma attempt_failed:
  assumes "p \<le> length pattern" "t < length chars" "\<not> (p < length pattern \<and> pattern ! p = star)"
    and "\<not> (p < length pattern \<and> pattern ! p = question \<and> \<not> is_path_sep (chars ! t))"
    and "\<not> (p < length pattern \<and> path_chars_match (pattern ! p) (chars ! t))"
  shows "\<not> tok_spec (todo pattern p) (drop t chars)"
proof (cases "p < length pattern")
  case True
  let ?tk = "if pattern ! p = question then Single else Exactly (pattern ! p)"
  have "byte_token ?tk" "\<not> takes ?tk (chars ! t)" using assms True by (auto simp: byte_token_def)
  then show ?thesis
    using tok_spec_byte[of ?tk t chars] tokens_byte[OF True] assms(2,3) True by (metis less_imp_le)
qed (use assms in simp)

lemma byte_matches:
  assumes "p < length pattern" "pattern ! p \<noteq> star"
    and "pattern ! p = question \<and> \<not> is_path_sep x \<or> path_chars_match (pattern ! p) x"
  obtains tk where "todo pattern p = tk # todo pattern (p + 1)" "byte_token tk" "takes tk x"
proof -
  let ?tk = "if pattern ! p = question then Single else Exactly (pattern ! p)"
  have "byte_token ?tk" by (simp add: byte_token_def)
  moreover have "takes ?tk x"
    using assms(3) by (auto simp: path_chars_match_def is_path_sep_def)
  ultimately show thesis using that tokens_byte[OF assms(1,2)] by blast
qed

lemma path_loop_returns:
  assumes "path_state pattern chars p t dstar star_at"
  shows "path_loop pattern chars p t dstar star_at = Some (path_outcome pattern chars p t dstar star_at)"
  using assms
proof (induction "(p, t, dstar, star_at)" arbitrary: p t dstar star_at
    rule: wf_induct_rule[OF wf_measures[of "[\<lambda>(p, t, d, s). length chars - run_at d,
      \<lambda>(p, t, d, s). length chars - star_from d s, \<lambda>(p, t, d, s). length pattern - p]"]])
  case less: 1
  note order = path_state_order[OF less.prems]
  have bounds: "p \<le> length pattern" "t \<le> length chars" using less.prems by (auto simp: path_state_def)
  show ?case
  proof (cases "t < length chars")
    case False
    then have "t = length chars" using bounds by simp
    with outcome_at_end less.prems show ?thesis by (subst path_loop.simps) simp
  next
    case t: True
    consider (run) "p + 1 < length pattern" "pattern ! p = star" "pattern ! (p + 1) = star"
      | (star) "p < length pattern" "pattern ! p = star" "\<not> (p + 1 < length pattern \<and> pattern ! (p + 1) = star)"
      | (byte) "p < length pattern" "pattern ! p \<noteq> star"
          "pattern ! p = question \<and> \<not> is_path_sep (chars ! t) \<or> path_chars_match (pattern ! p) (chars ! t)"
      | (miss) "\<not> (p < length pattern \<and> pattern ! p = star)"
          "\<not> (p < length pattern \<and> pattern ! p = question \<and> \<not> is_path_sep (chars ! t))"
          "\<not> (p < length pattern \<and> path_chars_match (pattern ! p) (chars ! t))"
      by blast
    then show ?thesis
    proof cases
      case run
      let ?n = "after_double_star pattern p"
      obtain sep where n: "todo pattern p = Run sep # todo pattern ?n" "p < ?n" "?n \<le> length pattern"
        using tokens_double_star[OF run] by blast
      have "path_loop pattern chars ?n t (Some (?n, t)) None = Some (path_outcome pattern chars ?n t (Some (?n, t)) None)"
        using run_step(1)[OF less.prems t n(3,1)] order n(2) run(1) by (intro less.hyps) (auto simp: le_less)
      then show ?thesis
        using run_step(2)[OF less.prems t n(3,1)] run t by (subst path_loop.simps) (simp add: Let_def)
    next
      case star
      note tk = tokens_single_star[OF star]
      have "path_loop pattern chars (p + 1) t dstar (Some (p + 1, t)) =
          Some (path_outcome pattern chars (p + 1) t dstar (Some (p + 1, t)))"
        using star_step(1)[OF less.prems t star(1) tk] order star(1) by (intro less.hyps) (auto simp: le_less)
      then show ?thesis
        using star_step(2)[OF less.prems t star(1) tk] star t by (subst path_loop.simps) auto
    next
      case byte
      obtain tk where tk: "todo pattern p = tk # todo pattern (p + 1)" "byte_token tk" "takes tk (chars ! t)"
        by (rule byte_matches[OF byte])
      have "path_loop pattern chars (p + 1) (t + 1) dstar star_at =
          Some (path_outcome pattern chars (p + 1) (t + 1) dstar star_at)"
        using byte_step(1)[OF less.prems t byte(1) tk] byte(1) by (intro less.hyps) auto
      then show ?thesis
        using byte_step(2)[OF less.prems t byte(1) tk] byte t by (subst path_loop.simps) auto
    next
      case miss
      have cur: "\<not> tok_spec (todo pattern p) (drop t chars)"
        by (rule attempt_failed[OF bounds(1) t miss])
      show ?thesis
      proof (cases "\<exists>sp st. star_at = Some (sp, st) \<and> \<not> is_path_sep (chars ! st)")
        case True
        then obtain sp st where s: "star_at = Some (sp, st)" "\<not> is_path_sep (chars ! st)" by blast
        note bt = star_backtrack[OF less.prems[unfolded s(1)] t cur s(2)]
        have "path_loop pattern chars sp (st + 1) dstar (Some (sp, st + 1)) =
            Some (path_outcome pattern chars sp (st + 1) dstar (Some (sp, st + 1)))"
          using bt(1) order s(1) t by (intro less.hyps) auto
        then show ?thesis
          using bt(2) miss s t by (subst path_loop.simps) auto
      next
        case False
        then have nolonger: "\<not> star_longer pattern chars star_at" by (auto simp: star_longer_def split: option.splits)
        show ?thesis
        proof (cases dstar)
          case None
          with False miss t cur nolonger show ?thesis
            by (subst path_loop.simps) (auto simp: path_outcome_def run_longer_def)
        next
          case (Some d)
          obtain dp dt where d: "dstar = Some (dp, dt)" using Some by (cases d) auto
          note bt = run_backtrack[OF less.prems[unfolded d] t cur nolonger]
          have "path_loop pattern chars dp (dt + 1) (Some (dp, dt + 1)) None =
              Some (path_outcome pattern chars dp (dt + 1) (Some (dp, dt + 1)) None)"
            using bt(1) order d t by (intro less.hyps) auto
          then show ?thesis
            using bt(2) miss d t False by (subst path_loop.simps) auto
        qed
      qed
    qed
  qed
qed

lemma path_glob_value: "path_glob_matches pattern path = Some (tok_spec (tokens pattern) path)"
proof -
  have "path_state pattern path 0 0 None None"
    by (simp add: path_state_def star_state_def run_state_def)
  from path_loop_returns[OF this] show ?thesis
    by (simp add: path_glob_matches_def path_glob_match_bytes_def path_outcome_def star_longer_def run_longer_def)
qed

subsection \<open>The documented dialect\<close>

text \<open>
  The comments of \<open>path_glob_matches\<close>: a run of stars with a separator behind it is a unit that matches zero or more
  directory levels, that is nothing or a part of the path up to and including a separator; another run of stars
  matches anything, and a question mark one character, which is as many bytes as its encoding has. This is not
  quite what the loop does: \<open>tok_spec\<close> is.
\<close>

function doc_spec :: "token list \<Rightarrow> byte list \<Rightarrow> bool" where
  "doc_spec [] xs \<longleftrightarrow> xs = []"
| "doc_spec (Run True # ts) xs \<longleftrightarrow>
     doc_spec ts xs \<or> list_ex (\<lambda>n. is_path_sep (xs ! n) \<and> doc_spec ts (drop (Suc n) xs)) [0..<length xs]"
| "doc_spec (Run False # ts) xs \<longleftrightarrow> list_ex (\<lambda>n. doc_spec ts (drop n xs)) [0..<Suc (length xs)]"
| "doc_spec (Within # ts) xs \<longleftrightarrow>
     list_ex (\<lambda>n. list_all (\<lambda>b. \<not> is_path_sep b) (take n xs) \<and> doc_spec ts (drop n xs)) [0..<Suc (length xs)]"
| "doc_spec (Single # ts) xs \<longleftrightarrow>
     xs \<noteq> [] \<and> \<not> is_path_sep (hd xs) \<and> doc_spec ts (drop (snd (utf8_step xs)) xs)"
| "doc_spec (Exactly c # ts) xs \<longleftrightarrow> xs \<noteq> [] \<and> path_chars_match c (hd xs) \<and> doc_spec ts (tl xs)"
  by pat_completeness auto
termination by (relation "measure (\<lambda>(ts, _). length ts)") auto

text \<open>Whether the last token takes a byte of the path.\<close>

definition ends_in_byte :: "token list \<Rightarrow> bool" where
  "ends_in_byte ts \<longleftrightarrow> ts \<noteq> [] \<and> (case last ts of Single \<Rightarrow> True | Exactly _ \<Rightarrow> True | _ \<Rightarrow> False)"

lemma ascii_step: "list_all (\<lambda>b. b < 128) xs \<Longrightarrow> xs \<noteq> [] \<Longrightarrow> drop (snd (utf8_step xs)) xs = tl xs"
  by (cases xs) (auto simp: utf8_step_def byte_or_0_def utf8_char_width_def Let_def)

lemma ascii_drop: "list_all (\<lambda>b. b < (128 :: byte)) xs \<Longrightarrow> list_all (\<lambda>b. b < 128) (drop n xs)"
  by (auto simp: list_all_iff dest: in_set_dropD)

lemma ascii_tl: "list_all (\<lambda>b. b < (128 :: byte)) xs \<Longrightarrow> list_all (\<lambda>b. b < 128) (tl xs)"
  by (cases xs) auto

text \<open>The documented dialect of file names: a question mark matches one character.\<close>

fun glob_doc :: "byte list \<Rightarrow> byte list \<Rightarrow> bool" where
  "glob_doc [] xs \<longleftrightarrow> xs = []"
| "glob_doc (c # ps) xs \<longleftrightarrow>
     (if c = star then list_ex (\<lambda>n. glob_doc ps (drop n xs)) [0..<Suc (length xs)]
      else if c = question then xs \<noteq> [] \<and> glob_doc ps (drop (snd (utf8_step xs)) xs)
      else xs \<noteq> [] \<and> hd xs = c \<and> glob_doc ps (tl xs))"

lemma glob_doc_exact: "list_all (\<lambda>b. b < 128) xs \<Longrightarrow> glob_doc ps xs \<longleftrightarrow> glob_spec ps xs"
proof (induction ps arbitrary: xs)
  case (Cons c ps)
  show ?case
  proof (cases "c = star")
    case True
    then show ?thesis using Cons.IH ascii_drop[OF Cons.prems] glob_spec_star[of ps xs]
      by (auto simp: list_ex_iff less_Suc_eq_le simp del: upt_Suc glob_spec.simps)
  next
    case False
    then show ?thesis using Cons.IH[OF ascii_tl[OF Cons.prems]] Cons.prems ascii_step[OF Cons.prems] by (cases xs) auto
  qed
qed simp

lemmas tok_spec_run_whole = tok_spec_run[of 0, simplified]
lemmas tok_spec_within_whole = tok_spec_within[of 0, simplified]

lemma no_sep_take: "n \<le> length xs \<Longrightarrow> list_all (\<lambda>b. \<not> is_path_sep b) (take n xs) \<longleftrightarrow> no_sep xs 0 n"
  by (auto simp: list_all_length)

lemma doc_spec_Within: "doc_spec (Within # ts) xs \<longleftrightarrow> (\<exists>n\<le>length xs. no_sep xs 0 n \<and> doc_spec ts (drop n xs))"
  by (auto simp: list_ex_iff no_sep_take less_Suc_eq_le simp del: upt_Suc)

lemma doc_spec_Run: "doc_spec (Run False # ts) xs \<longleftrightarrow> (\<exists>n\<le>length xs. doc_spec ts (drop n xs))"
  by (auto simp: list_ex_iff less_Suc_eq_le simp del: upt_Suc)

lemma tok_spec_Single: "tok_spec (Single # ts) xs \<longleftrightarrow> xs \<noteq> [] \<and> \<not> is_path_sep (hd xs) \<and> tok_spec ts (tl xs)"
  by (cases xs) auto

lemma tok_spec_Exactly: "tok_spec (Exactly c # ts) xs \<longleftrightarrow> xs \<noteq> [] \<and> path_chars_match c (hd xs) \<and> tok_spec ts (tl xs)"
  by (cases xs) auto

lemmas token_specs = tok_spec_run_whole tok_spec_within_whole tok_spec_Single tok_spec_Exactly

declare doc_spec.simps(3,4) [simp del]

text \<open>Without a run of stars that takes a separator with it, the loop follows the documentation.\<close>

lemma doc_spec_exact: "Run True \<notin> set ts \<Longrightarrow> list_all (\<lambda>b. b < 128) xs \<Longrightarrow> doc_spec ts xs \<longleftrightarrow> tok_spec ts xs"
proof (induction ts arbitrary: xs)
  case (Cons t ts)
  then show ?case
    by (cases t) (auto simp: token_specs doc_spec_Within doc_spec_Run ascii_step ascii_drop ascii_tl simp del: tok_spec.simps(2-9))
qed simp

text \<open>With one, what the documentation accepts is accepted, if the pattern ends in a byte.\<close>

lemma ends_in_byte_Cons: "ends_in_byte (t # ts) \<longleftrightarrow> (if ts = [] then byte_token t else ends_in_byte ts)"
  by (auto simp: ends_in_byte_def byte_token_def split: token.splits)

lemma doc_spec_sound:
  "doc_spec ts xs \<Longrightarrow> ends_in_byte ts \<Longrightarrow> list_all (\<lambda>b. b < 128) xs \<Longrightarrow> xs \<noteq> [] \<and> tok_spec ts xs"
proof (induction ts arbitrary: xs)
  case (Cons t ts)
  show ?case
  proof (cases t)
    case (Run sep)
    then have "ends_in_byte ts" using Cons.prems(2) by (auto simp: ends_in_byte_Cons byte_token_def split: if_splits)
    moreover have "\<exists>n\<le>length xs. doc_spec ts (drop n xs)"
      using Cons.prems(1) Run by (cases sep) (auto simp: doc_spec_Run list_ex_iff Suc_le_eq intro: exI[of _ 0] exI[of _ "Suc _"])
    then obtain n where "n \<le> length xs" "doc_spec ts (drop n xs)" by blast
    ultimately have "drop n xs \<noteq> []" "tok_spec ts (drop n xs)" "n \<le> length xs"
      using Cons.IH[of "drop n xs"] ascii_drop[OF Cons.prems(3)] by blast+
    then show ?thesis using Run by (auto simp: tok_spec_run_whole simp del: tok_spec.simps(2-9))
  next
    case Within
    then have "ends_in_byte ts" using Cons.prems(2) by (auto simp: ends_in_byte_Cons byte_token_def split: if_splits)
    then show ?thesis using Cons Within
      by (force simp: doc_spec_Within tok_spec_within_whole ascii_drop simp del: tok_spec.simps(2-9))
  next
    case Single
    have "xs \<noteq> []" "\<not> is_path_sep (hd xs)" "doc_spec ts (tl xs)"
      using Cons.prems(1,3) Single ascii_step[of xs] by auto
    then show ?thesis using Cons Single
      by (cases "ts = []") (auto simp: tok_spec_Single ends_in_byte_Cons ascii_tl simp del: tok_spec.simps(2-9))
  next
    case (Exactly c)
    then show ?thesis using Cons by (cases "ts = []") (auto simp: tok_spec_Exactly ends_in_byte_Cons ascii_tl simp del: tok_spec.simps(2-9))
  qed
qed (simp add: ends_in_byte_def)

subsection \<open>Properties\<close>

text \<open>
  C22: matching a file name against a pattern is what the documentation says. For a file name of ASCII characters
  without a star, the loop with its one backtracking point accepts exactly the names that the pattern
  describes: a star any sequence of characters, a question mark exactly one character, and every other
  character itself. On other names the code deviates: a question mark takes one byte, and a star in the name
  can be taken for the star of the pattern.
\<close>

theorem filename_glob_exact:
  assumes "star \<notin> set filename" and "list_all (\<lambda>b. b < 128) filename"
  shows "filename_glob_matches pattern filename \<longleftrightarrow> glob_doc pattern filename"
  using glob_loop_correct[OF assms(1), of pattern 0 0 None 0] glob_doc_exact[OF assms(2), of pattern]
  by (simp add: filename_glob_matches_def glob_match_bytes_def glob_state_def glob_longer_def)

theorem filename_glob_exact_witness:
  "filename_glob_matches [42, 97, 42, 98] [99, 97, 97, 98, 97, 98] \<and> \<not> filename_glob_matches [42, 97, 63] [99, 97]"
proof -
  have "glob_doc [42, 97, 42, 98] [99, 97, 97, 98, 97, 98]" "\<not> glob_doc [42, 97, 63] [99, 97]" by code_simp+
  moreover have "filename_glob_matches [42, 97, 42, 98] [99, 97, 97, 98, 97, 98] \<longleftrightarrow>
      glob_doc [42, 97, 42, 98] [99, 97, 97, 98, 97, 98]" by (rule filename_glob_exact) simp_all
  moreover have "filename_glob_matches [42, 97, 63] [99, 97] \<longleftrightarrow> glob_doc [42, 97, 63] [99, 97]"
    by (rule filename_glob_exact) simp_all
  ultimately show ?thesis by simp
qed

text \<open>
  C21: matching a path ends, and follows the documentation where no run of stars takes a separator with it. On every
  pattern and every path of ASCII characters the loop returns, although it keeps only the last single star and the
  last run of stars to backtrack to. Without \<open>**/\<close> in the pattern it accepts exactly the paths that the documented
  dialect accepts. With it, every path that the documentation accepts is accepted when the pattern ends in a
  byte to be matched; the code accepts more, since the directory levels need not be complete.
\<close>

theorem path_glob_documented:
  assumes "list_all (\<lambda>b. b < 128) path"
  shows "\<exists>b. path_glob_matches pattern path = Some b \<and>
    (Run True \<notin> set (tokens pattern) \<longrightarrow> (b \<longleftrightarrow> doc_spec (tokens pattern) path)) \<and>
    (ends_in_byte (tokens pattern) \<longrightarrow> doc_spec (tokens pattern) path \<longrightarrow> b)"
  using path_glob_value[of pattern path] doc_spec_exact[OF _ assms, of "tokens pattern"]
    doc_spec_sound[OF _ _ assms, of "tokens pattern"] by auto

theorem path_glob_documented_witness:
  "path_glob_matches [47, 101, 47, 42, 46, 99] [47, 101, 47, 97, 46, 99] = Some True \<and>
   path_glob_matches [47, 101, 47, 42, 46, 99] [47, 101, 47, 115, 47, 97, 46, 99] = Some False \<and>
   path_glob_matches [47, 101, 47, 42, 42, 47, 114, 99] [47, 101, 47, 105, 47, 110, 47, 114, 99] = Some True"
proof -
  have "Run True \<notin> set (tokens [47, 101, 47, 42, 46, 99])" "doc_spec (tokens [47, 101, 47, 42, 46, 99]) [47, 101, 47, 97, 46, 99]"
    "\<not> doc_spec (tokens [47, 101, 47, 42, 46, 99]) [47, 101, 47, 115, 47, 97, 46, 99]"
    "ends_in_byte (tokens [47, 101, 47, 42, 42, 47, 114, 99])"
    "doc_spec (tokens [47, 101, 47, 42, 42, 47, 114, 99]) [47, 101, 47, 105, 47, 110, 47, 114, 99]"
    by code_simp+
  then show ?thesis
    using path_glob_documented[of "[47, 101, 47, 97, 46, 99]" "[47, 101, 47, 42, 46, 99]"]
      path_glob_documented[of "[47, 101, 47, 115, 47, 97, 46, 99]" "[47, 101, 47, 42, 46, 99]"]
      path_glob_documented[of "[47, 101, 47, 105, 47, 110, 47, 114, 99]" "[47, 101, 47, 42, 42, 47, 114, 99]"]
    by auto
qed

text \<open>
  The deviations. A star in the file name is compared with a star in the pattern as a byte before it is taken for a
  wildcard, so \<open>*b\<close> does not match the name \<open>*ab\<close>. A question mark does not match a character of two bytes. The separator
  behind a run of stars is dropped, so \<open>**/a\<close> matches \<open>ba\<close>, where no directory level ends before the \<open>a\<close>; and
  \<open>a/**/\<close> does not match \<open>a/\<close>.
\<close>

lemma glob_star_in_name: "\<not> filename_glob_matches [42, 98] [42, 97, 98]" "glob_doc [42, 98] [42, 97, 98]"
  by code_simp+

lemma glob_question_one_byte: "2 \<le> length name \<Longrightarrow> \<not> filename_glob_matches [63] name"
  by (cases name; cases "tl name") (auto simp: filename_glob_matches_def glob_match_bytes_def glob_loop.simps)

lemma glob_partial_level:
  "path_glob_matches [42, 42, 47, 97] [98, 97] = Some True" "\<not> doc_spec (tokens [42, 42, 47, 97]) [98, 97]"
  "path_glob_matches [97, 47, 42, 42, 47] [97, 47] = Some False" "doc_spec (tokens [97, 47, 42, 42, 47]) [97, 47]"
proof -
  have "tok_spec (tokens [42, 42, 47, 97]) [98, 97]" "\<not> tok_spec (tokens [97, 47, 42, 42, 47]) [97, 47]" by code_simp+
  then show "path_glob_matches [42, 42, 47, 97] [98, 97] = Some True" "path_glob_matches [97, 47, 42, 42, 47] [97, 47] = Some False"
    by (simp_all add: path_glob_value)
qed code_simp+

text \<open>A list of patterns is searched to its end or to the first match.\<close>

lemma any_entry_returns:
  "any_entry ps path filename = Some (\<exists>p\<in>set ps. literal_entry_matches p filename \<or>
     is_glob_pattern p \<and> (if is_path_pattern p then tok_spec (tokens p) path else filename_glob_matches p filename))"
  by (induction ps) (auto simp: glob_entry_matches_def path_glob_value)

end
