(* ===== verification/Path_Encode.thy ===== *)
theory Path_Encode
  imports Edit_Text "HOL-Library.Monad_Syntax"
begin

text \<open>
  The names of the files that belong to a directory (\<open>path_encode.rs\<close>, and \<open>decode_filename_to_path\<close> of
  \<open>fresh-editor/src/workspace.rs\<close>). A path is the list of its bytes, a \<open>str\<close> is the list of its bytes in UTF-8 and
  a \<open>char\<close> the list of the bytes that encode it; the calls of the standard library are written out. The names are
  safe and short, short paths are decoded to themselves, and long ones are cut between their escapes.
\<close>

unbundle bit_operations_syntax

subsection \<open>Definitions\<close>

text \<open>The characters of a string, and a byte taken for a character (\<open>byte as char\<close>).\<close>

function chars_of :: "byte list \<Rightarrow> byte list list" where
  "chars_of s =
     (if s = [] then [] else take (snd (utf8_step s)) s # chars_of (drop (snd (utf8_step s)) s))"
  by pat_completeness auto
termination
proof (relation "measure length", goal_cases)
  case (2 s)
  then show ?case using utf8_step_pos[of s] by (cases s) simp_all
qed simp

declare chars_of.simps [simp del]

definition as_char :: "byte \<Rightarrow> byte list" where
  "as_char b = (if b < 128 then [b] else [192 OR drop_bit 6 b, 128 OR (b AND 63)])"

definition is_ascii_alphanumeric :: "byte \<Rightarrow> bool" where
  "is_ascii_alphanumeric b \<longleftrightarrow> 48 \<le> b \<and> b \<le> 57 \<or> 65 \<le> b \<and> b \<le> 90 \<or> 97 \<le> b \<and> b \<le> 122"

text \<open>A digit in hexadecimal, with the letters from \<open>letters\<close> on: \<open>{:X}\<close> and \<open>{:x}\<close>.\<close>

definition hex_digit :: "byte \<Rightarrow> byte \<Rightarrow> byte" where
  "hex_digit letters d = (if d < 10 then 48 + d else letters + (d - 10))"

definition percent_byte :: "byte \<Rightarrow> byte list" where
  "percent_byte b = [37, hex_digit 65 (drop_bit 4 b), hex_digit 65 (b AND 15)]"

definition hex_16 :: "64 word \<Rightarrow> byte list" where
  "hex_16 h = map (\<lambda>i. hex_digit 97 (ucast (drop_bit (4 * i) h AND 15))) (rev [0..<16])"

definition MAX_ENCODED_LEN :: nat where
  "MAX_ENCODED_LEN = 255"

definition FOLD_MARK :: byte where
  "FOLD_MARK = 126"

definition fold_hash :: "byte list \<Rightarrow> 64 word" where
  "fold_hash bytes = foldl (\<lambda>h b. (h XOR ucast b) * 0x100000001b3) 0xcbf29ce484222325 bytes"

definition is_char_boundary :: "byte list \<Rightarrow> nat \<Rightarrow> bool" where
  "is_char_boundary s i \<longleftrightarrow> i = 0 \<or> i = length s \<or> i < length s \<and> \<not> continuation (s ! i)"

fun char_boundary_before :: "byte list \<Rightarrow> nat \<Rightarrow> nat" where
  "char_boundary_before name 0 = 0"
| "char_boundary_before name (Suc keep) =
     (if is_char_boundary name (Suc keep) then Suc keep else char_boundary_before name keep)"

definition whole_escapes :: "byte list \<Rightarrow> byte list" where
  "whole_escapes head =
     (if head \<noteq> [] \<and> last head = 37 then butlast head
      else if 2 \<le> length head \<and> head ! (length head - 2) = 37 then take (length head - 2) head
      else head)"

definition fold_to_len :: "byte list \<Rightarrow> nat \<Rightarrow> byte list" where
  "fold_to_len name max_len =
     (if length name \<le> max_len then name
      else let keep = char_boundary_before name (max_len - 17);
               head = whole_escapes (take keep name)
           in head @ FOLD_MARK # hex_16 (fold_hash name))"

definition fold_to_max_len :: "byte list \<Rightarrow> byte list" where
  "fold_to_max_len encoded =
     (if length encoded \<le> MAX_ENCODED_LEN then encoded else fold_to_len encoded MAX_ENCODED_LEN)"

definition encode_char :: "byte list \<Rightarrow> byte list" where
  "encode_char c =
     (if c = [47] \<or> c = [92] then [95]
      else if length c = 1 \<and> is_ascii_alphanumeric (hd c) then c
      else if c = [45] \<or> c = [46] then c
      else if c = [95] then [37, 53, 70]
      else concat (map percent_byte c))"

fun collapse :: "bool \<Rightarrow> byte list \<Rightarrow> byte list" where
  "collapse last_was_underscore [] = []"
| "collapse last_was_underscore (c # cs) =
     (if c = 95 then (if last_was_underscore then collapse True cs else c # collapse True cs)
      else c # collapse False cs)"

text \<open>The name before it is shortened, and the name.\<close>

definition encode_path_unfolded :: "byte list \<Rightarrow> byte list" where
  "encode_path_unfolded path =
     (let path_str = from_utf8_lossy path;
          result = concat (map encode_char (chars_of path_str));
          final_result = collapse False (dropWhile (\<lambda>c. c = 95) result)
      in if final_result = [] then [114, 111, 111, 116] else final_result)"

definition encode_path_for_filename :: "byte list \<Rightarrow> byte list" where
  "encode_path_for_filename path = fold_to_max_len (encode_path_unfolded path)"

text \<open>\<open>u8::from_str_radix(_, 16)\<close>, which also takes a plus sign in front.\<close>

definition hex_value :: "byte \<Rightarrow> nat option" where
  "hex_value c =
     (if 48 \<le> c \<and> c \<le> 57 then Some (unat c - 48)
      else if 65 \<le> c \<and> c \<le> 70 then Some (unat c - 55)
      else if 97 \<le> c \<and> c \<le> 102 then Some (unat c - 87) else None)"

fun radix_16 :: "nat \<Rightarrow> byte list \<Rightarrow> nat option" where
  "radix_16 acc [] = Some acc"
| "radix_16 acc (c # cs) =
     do {
       d \<leftarrow> hex_value c;
       if acc * 16 + d < 256 then radix_16 (acc * 16 + d) cs else None
     }"

definition from_str_radix_16 :: "byte list \<Rightarrow> byte option" where
  "from_str_radix_16 s =
     (if s = [] \<or> s = [43] \<or> s = [45] then None
      else map_option of_nat (radix_16 0 (if hd s = 43 then tl s else s)))"

function decode_chars :: "byte list list \<Rightarrow> byte list" where
  "decode_chars [] = []"
| "decode_chars (c # cs) =
     (if c = [37] then
        (let hex = concat (take 2 cs) in
         (if length hex = 2 then (case from_str_radix_16 hex of Some b \<Rightarrow> as_char b | None \<Rightarrow> []) else []) @
         decode_chars (drop 2 cs))
      else if c = [95] then 47 # decode_chars cs
      else c @ decode_chars cs)"
  by pat_completeness auto
termination by (relation "measure length") auto

definition decode_filename_to_path :: "byte list \<Rightarrow> byte list option" where
  "decode_filename_to_path encoded =
     (if encoded = [114, 111, 111, 116] then Some [47]
      else if 126 \<in> set encoded then None
      else Some (47 # decode_chars (chars_of encoded)))"

subsection \<open>Names made of safe bytes and whole escapes\<close>

definition plain_byte :: "byte \<Rightarrow> bool" where
  "plain_byte b \<longleftrightarrow> is_ascii_alphanumeric b \<or> b = 45 \<or> b = 46 \<or> b = 95"

definition upper_hex :: "byte \<Rightarrow> bool" where
  "upper_hex b \<longleftrightarrow> 48 \<le> b \<and> b \<le> 57 \<or> 65 \<le> b \<and> b \<le> 70"

fun escaped :: "byte list \<Rightarrow> bool" where
  "escaped [] \<longleftrightarrow> True"
| "escaped (c # cs) \<longleftrightarrow>
     (if c = 37 then (case cs of x # y # ds \<Rightarrow> upper_hex x \<and> upper_hex y \<and> escaped ds | _ \<Rightarrow> False)
      else plain_byte c \<and> escaped cs)"

lemma escaped_cases [consumes 1, case_names Nil Escape Plain]:
  assumes "escaped s"
  obtains "s = []"
    | x y ds where "s = 37 # x # y # ds" "upper_hex x" "upper_hex y" "escaped ds"
    | c cs where "s = c # cs" "c \<noteq> 37" "plain_byte c" "escaped cs"
  using assms by (cases s) (auto split: if_splits list.splits)

lemma escaped_induct [consumes 1, case_names Nil Escape Plain]:
  assumes "escaped s" "P []"
    and "\<And>x y ds. upper_hex x \<Longrightarrow> upper_hex y \<Longrightarrow> escaped ds \<Longrightarrow> P ds \<Longrightarrow> P (37 # x # y # ds)"
    and "\<And>c cs. c \<noteq> 37 \<Longrightarrow> plain_byte c \<Longrightarrow> escaped cs \<Longrightarrow> P cs \<Longrightarrow> P (c # cs)"
  shows "P s"
  using assms(1)
proof (induction s rule: length_induct)
  case (1 s)
  show ?case using 1(2)
  proof (cases rule: escaped_cases)
    case (Escape x y ds)
    then show ?thesis using 1(1) assms(3) by simp
  next
    case (Plain c cs)
    then show ?thesis using 1(1) assms(4) by simp
  qed (simp add: assms(2))
qed

lemma upper_hex_not [simp]: "\<not> upper_hex 37" "\<not> upper_hex 95" "\<not> upper_hex 126"
  by (simp_all add: upper_hex_def)

lemma plain_not [simp]: "\<not> plain_byte 37" "\<not> plain_byte 126"
  by (simp_all add: plain_byte_def is_ascii_alphanumeric_def)

lemma escaped_append: "escaped xs \<Longrightarrow> escaped ys \<Longrightarrow> escaped (xs @ ys)"
  by (induction xs rule: escaped_induct) simp_all

lemma escaped_concat: "(\<And>x. x \<in> set xss \<Longrightarrow> escaped x) \<Longrightarrow> escaped (concat xss)"
  by (induction xss) (simp_all add: escaped_append)

lemma all_nibbles:
  assumes "list_all (\<lambda>n. P (word_of_nat n :: byte)) [0..<16]" "unat d < 16"
  shows "P d"
proof -
  have "unat d \<in> set [0..<16]" using assms(2) by simp
  then have "P (word_of_nat (unat d))" using assms(1) by (simp only: list_all_iff)
  then show ?thesis by simp
qed

lemma high_nibble: "unat (drop_bit 4 b :: byte) = unat b div 16"
  by (simp add: drop_bit_eq_div unat_div_distrib)

lemma low_nibble: "unat (b AND 15 :: byte) = unat b mod 16"
proof -
  have "b AND 15 = take_bit 4 b" by (simp add: take_bit_eq_mask mask_eq_exp_minus_1)
  then show ?thesis by (simp add: take_bit_eq_mod unat_mod_distrib)
qed

lemma nibbles: "unat (drop_bit 4 b :: byte) < 16" "unat (b AND 15 :: byte) < 16"
proof -
  have "unat b < 2 ^ LENGTH(8)" by (rule unsigned_less)
  then show "unat (drop_bit 4 b :: byte) < 16" by (simp add: high_nibble)
  show "unat (b AND 15 :: byte) < 16" by (simp add: low_nibble)
qed

lemma upper_hex_digit: "unat d < 16 \<Longrightarrow> upper_hex (hex_digit 65 d)"
  by (rule all_nibbles[of "\<lambda>d. upper_hex (hex_digit 65 d)"], code_simp)

lemma hex_value_digit: "unat d < 16 \<Longrightarrow> hex_value (hex_digit 65 d) = Some (unat d)"
  by (rule all_nibbles[of "\<lambda>d. hex_value (hex_digit 65 d) = Some (unat d)"], code_simp)

lemma escaped_percent: "escaped (percent_byte b)"
  by (simp add: percent_byte_def upper_hex_digit nibbles)

lemma escaped_encode_char: "escaped (encode_char c)"
proof -
  have "escaped (concat (map percent_byte c))"
    by (rule escaped_concat) (auto simp: escaped_percent)
  then show ?thesis
    by (cases c) (auto simp: encode_char_def plain_byte_def upper_hex_def is_ascii_alphanumeric_def)
qed

lemma escaped_dropWhile: "escaped xs \<Longrightarrow> escaped (dropWhile (\<lambda>c. c = 95) xs)"
  by (induction xs rule: escaped_induct) simp_all

lemma escaped_collapse: "escaped xs \<Longrightarrow> escaped (collapse l xs)"
  by (induction xs arbitrary: l rule: escaped_induct) auto

lemma escaped_unfolded: "escaped (encode_path_unfolded path)"
proof -
  have "escaped (collapse False (dropWhile (\<lambda>c. c = 95) (concat (map encode_char xs))))" for xs
    by (intro escaped_collapse escaped_dropWhile escaped_concat) (auto simp: escaped_encode_char)
  moreover have "escaped [114, 111, 111, 116]" by (simp add: plain_byte_def is_ascii_alphanumeric_def)
  ultimately show ?thesis by (simp add: encode_path_unfolded_def Let_def)
qed

subsection \<open>Shortening\<close>

lemma escaped_ascii: "escaped s \<Longrightarrow> b \<in> set s \<Longrightarrow> b < 128 \<and> b \<noteq> 126"
  by (induction s rule: escaped_induct)
    (auto simp: upper_hex_def plain_byte_def is_ascii_alphanumeric_def word_le_nat_alt word_less_nat_alt)

lemma ascii_not_continuation: "b < 128 \<Longrightarrow> \<not> continuation b"
  using word_and_le2[of b 192] by (auto simp: continuation_def)

lemma escaped_boundary: "escaped s \<Longrightarrow> n \<le> length s \<Longrightarrow> char_boundary_before s n = n"
  using escaped_ascii[of s "s ! n"] ascii_not_continuation
  by (cases n) (auto simp: is_char_boundary_def Suc_le_eq order_le_less dest!: escaped_ascii ascii_not_continuation)

text \<open>A cut lands between two units, one byte into an escape, or two.\<close>

lemma escaped_take:
  "escaped s \<Longrightarrow> n \<le> length s \<Longrightarrow>
     escaped (take n s) \<or>
     (\<exists>ys. take n s = ys @ [37] \<and> escaped ys) \<or>
     (\<exists>ys x. take n s = ys @ [37, x] \<and> escaped ys \<and> x \<noteq> 37)"
proof (induction s arbitrary: n rule: escaped_induct)
  case (Escape x y ds)
  have x: "x \<noteq> 37" using Escape by auto
  consider "n = 0" | "n = 1" | "n = 2" | k where "n = Suc (Suc (Suc k))" "k \<le> length ds"
    using Escape.prems by (metis One_nat_def Suc_1 Suc_le_mono length_Cons not0_implies_Suc)
  then show ?case
  proof cases
    case 4
    from Escape.IH[OF 4(2)] show ?thesis
    proof (elim disjE exE conjE)
      fix ys assume "take k ds = ys @ [37]" "escaped ys"
      then show ?thesis using 4 Escape by (intro disjI2 disjI1 exI[of _ "37 # x # y # ys"]) simp
    next
      fix ys z assume "take k ds = ys @ [37, z]" "escaped ys" "z \<noteq> 37"
      then show ?thesis using 4 Escape by (intro disjI2 exI[of _ "37 # x # y # ys"] exI[of _ z]) simp
    qed (use 4 Escape in simp)
  qed (use x in \<open>simp_all add: numeral_2_eq_2\<close>)
next
  case (Plain c cs)
  show ?case
  proof (cases n)
    case (Suc k)
    then have "k \<le> length cs" using Plain.prems by simp
    from Plain.IH[OF this] show ?thesis
    proof (elim disjE exE conjE)
      fix ys assume "take k cs = ys @ [37]" "escaped ys"
      then show ?thesis using Suc Plain by (intro disjI2 disjI1 exI[of _ "c # ys"]) simp
    next
      fix ys z assume "take k cs = ys @ [37, z]" "escaped ys" "z \<noteq> 37"
      then show ?thesis using Suc Plain by (intro disjI2 exI[of _ "c # ys"] exI[of _ z]) simp
    qed (use Suc Plain in simp)
  qed simp
qed simp

lemma escaped_last: "escaped s \<Longrightarrow> s \<noteq> [] \<Longrightarrow> last s \<noteq> 37"
  by (induction s rule: escaped_induct) auto

lemma escaped_last_but_one: "escaped s \<Longrightarrow> 2 \<le> length s \<Longrightarrow> s ! (length s - 2) \<noteq> 37"
proof (induction s rule: escaped_induct)
  case (Escape x y ds)
  show ?case
  proof (cases ds)
    case (Cons d ds')
    show ?thesis
    proof (cases ds')
      case Nil
      then show ?thesis using Escape Cons by auto
    qed (use Escape Cons in simp)
  qed (use Escape in auto)
next
  case (Plain c cs)
  show ?case
  proof (cases "2 \<le> length cs")
    case True
    then have "length (c # cs) - 2 = Suc (length cs - 2)" by simp
    then show ?thesis using Plain.IH[OF True] by simp
  next
    case False
    then have "length (c # cs) - 2 = 0" by simp
    then show ?thesis using Plain by simp
  qed
qed simp

lemma whole_escapes_id: "escaped s \<Longrightarrow> whole_escapes s = s"
  unfolding whole_escapes_def using escaped_last[of s] escaped_last_but_one[of s] by auto

text \<open>What is left of a cut name: at most two bytes less, and whole escapes only.\<close>

lemma whole_escapes_take:
  assumes "escaped s" "n \<le> length s"
  shows "\<exists>k. n - 2 \<le> k \<and> k \<le> n \<and> whole_escapes (take n s) = take k s \<and> escaped (take k s)"
proof -
  consider "escaped (take n s)" | ys where "take n s = ys @ [37]" "escaped ys"
    | ys x where "take n s = ys @ [37, x]" "escaped ys" "x \<noteq> 37"
    using escaped_take[OF assms] by blast
  then show ?thesis
  proof cases
    case 1
    then have "whole_escapes (take n s) = take n s" by (rule whole_escapes_id)
    then show ?thesis using 1 by (intro exI[of _ n]) simp
  next
    case 2
    have "n = length ys + 1" using arg_cong[OF 2(1), of length] assms(2) by simp
    then have "ys = take (n - 1) s" using arg_cong[OF 2(1), of "take (n - 1)"] assms(2) by (simp add: min_def)
    then show ?thesis using 2 by (intro exI[of _ "n - 1"]) (auto simp: whole_escapes_def)
  next
    case 3
    have n: "n = length ys + 2" using arg_cong[OF 3(1), of length] assms(2) by simp
    then have "ys = take (n - 2) s" using arg_cong[OF 3(1), of "take (n - 2)"] assms(2) by (simp add: min_def)
    then show ?thesis using 3 n by (intro exI[of _ "n - 2"]) (auto simp: whole_escapes_def)
  qed
qed

lemma hex_16_plain: "length (hex_16 h) = 16" "list_all plain_byte (hex_16 h)"
proof -
  have "unat (ucast (x AND 15) :: byte) < 16" for x :: "64 word"
  proof -
    have "x AND 15 = take_bit 4 x" by (simp add: take_bit_eq_mask mask_eq_exp_minus_1)
    then have "unat (x AND 15) = unat x mod 16" by (simp add: take_bit_eq_mod unat_mod_distrib)
    then show ?thesis by (simp add: unsigned_ucast_eq take_bit_eq_mod)
  qed
  moreover have "plain_byte (hex_digit 97 d)" if "unat d < 16" for d
    by (rule all_nibbles[of "\<lambda>d. plain_byte (hex_digit 97 d)", OF _ that]) code_simp
  ultimately show "list_all plain_byte (hex_16 h)" by (simp add: hex_16_def list_all_iff)
qed (simp add: hex_16_def)

lemma upper_hex_plain: "upper_hex b \<Longrightarrow> plain_byte b"
  by (auto simp: upper_hex_def plain_byte_def is_ascii_alphanumeric_def word_le_nat_alt)

lemma escaped_safe: "escaped s \<Longrightarrow> list_all (\<lambda>b. plain_byte b \<or> b = 37) s"
  by (induction s rule: escaped_induct) (auto simp: upper_hex_plain)

lemma unfolded_nonempty: "encode_path_unfolded path \<noteq> []"
  by (simp add: encode_path_unfolded_def Let_def)

lemma fold_to_len_long:
  assumes "escaped e" "MAX_ENCODED_LEN < length e"
  shows "\<exists>k. 236 \<le> k \<and> k \<le> 238 \<and> escaped (take k e) \<and>
    fold_to_max_len e = take k e @ FOLD_MARK # hex_16 (fold_hash e)"
proof -
  have n: "(238::nat) \<le> length e" using assms(2) by (simp add: MAX_ENCODED_LEN_def)
  obtain k where "236 \<le> k" "k \<le> 238" "whole_escapes (take 238 e) = take k e" "escaped (take k e)"
    using whole_escapes_take[OF assms(1) n] by auto
  then show ?thesis using assms(2) escaped_boundary[OF assms(1) n]
    by (auto simp: fold_to_max_len_def fold_to_len_def MAX_ENCODED_LEN_def)
qed

text \<open>
  C23: the names are safe to use as file names. Whatever the bytes of the path, its name is not empty, has at most
  255 bytes, and consists of ASCII letters and digits, dashes, dots, underscores, percent signs and the mark of
  a shortened name. A name that fits is returned whole, without the mark, and is made of safe
  bytes and whole escapes. A name that does not fit is cut between two escapes, keeps at least 236
  bytes, ends in the mark and the hash of the whole name, and is refused by the decoder.
\<close>

theorem encode_path_well_formed:
  "encode_path_for_filename path \<noteq> [] \<and> length (encode_path_for_filename path) \<le> MAX_ENCODED_LEN \<and>
   list_all (\<lambda>b. plain_byte b \<or> b = 37 \<or> b = FOLD_MARK) (encode_path_for_filename path) \<and>
   (if length (encode_path_unfolded path) \<le> MAX_ENCODED_LEN
    then encode_path_for_filename path = encode_path_unfolded path \<and> escaped (encode_path_for_filename path) \<and>
         FOLD_MARK \<notin> set (encode_path_for_filename path)
    else (\<exists>k. 236 \<le> k \<and> k \<le> 238 \<and> escaped (take k (encode_path_unfolded path)) \<and>
            encode_path_for_filename path =
              take k (encode_path_unfolded path) @ FOLD_MARK # hex_16 (fold_hash (encode_path_unfolded path))) \<and>
         decode_filename_to_path (encode_path_for_filename path) = None)"
proof -
  let ?e = "encode_path_unfolded path"
  note e = escaped_unfolded[of path]
  have safe: "list_all (\<lambda>b. plain_byte b \<or> b = 37 \<or> b = FOLD_MARK) s" if "escaped s" for s
    using escaped_safe[OF that] by (auto simp: list_all_iff)
  show ?thesis
  proof (cases "length ?e \<le> MAX_ENCODED_LEN")
    case True
    then show ?thesis using e safe[OF e] unfolded_nonempty[of path] escaped_ascii[OF e, of 126]
      by (auto simp: encode_path_for_filename_def fold_to_max_len_def FOLD_MARK_def)
  next
    case False
    then obtain k where k: "236 \<le> k" "k \<le> 238" "escaped (take k ?e)"
        "encode_path_for_filename path = take k ?e @ FOLD_MARK # hex_16 (fold_hash ?e)"
      using fold_to_len_long[OF e] by (auto simp: encode_path_for_filename_def)
    have "decode_filename_to_path (encode_path_for_filename path) = None"
    proof -
      have "126 \<notin> set [114, 111, 111, 116 :: byte]" by simp
      moreover have "126 \<in> set (encode_path_for_filename path)" using k(4) by (simp add: FOLD_MARK_def)
      ultimately show ?thesis by (auto simp: decode_filename_to_path_def)
    qed
    moreover have "length (encode_path_for_filename path) \<le> MAX_ENCODED_LEN"
      using k(2,4) hex_16_plain(1) by (simp add: MAX_ENCODED_LEN_def)
    moreover have "list_all (\<lambda>b. plain_byte b \<or> b = 37 \<or> b = FOLD_MARK) (encode_path_for_filename path)"
      using safe[OF k(3)] hex_16_plain(2)[of "fold_hash ?e"] k(4) by (auto simp: list_all_iff)
    ultimately show ?thesis using False k by auto
  qed
qed

subsection \<open>Decoding\<close>

lemma ascii_utf8_step: "b < 128 \<Longrightarrow> utf8_step (b # s) = (True, 1)"
  by (simp add: utf8_step_def byte_or_0_def utf8_char_width_def Let_def)

lemma ascii_lossy: "list_all (\<lambda>b. b < 128) s \<Longrightarrow> from_utf8_lossy s = s"
proof (induction s)
  case (Cons b s)
  then show ?case by (subst from_utf8_lossy.simps) (simp add: ascii_utf8_step)
qed (simp add: from_utf8_lossy.simps)

lemma ascii_chars: "list_all (\<lambda>b. b < 128) s \<Longrightarrow> chars_of s = map (\<lambda>b. [b]) s"
proof (induction s)
  case (Cons b s)
  then show ?case by (subst chars_of.simps) (simp add: ascii_utf8_step)
qed (simp add: chars_of.simps)

abbreviation encoded :: "byte list \<Rightarrow> byte list" where
  "encoded s \<equiv> concat (map (\<lambda>b. encode_char [b]) s)"

lemma escaped_encoded: "escaped (encoded s)"
  by (rule escaped_concat) (auto simp: escaped_encode_char)

lemma encode_char_sep [simp]: "encode_char [47] = [95]" "encode_char [95] = [37, 53, 70]"
  by (simp_all add: encode_char_def is_ascii_alphanumeric_def)

lemma encode_char_no_underscore: "b \<noteq> 47 \<Longrightarrow> b \<noteq> 92 \<Longrightarrow> 95 \<notin> set (encode_char [b]) \<and> encode_char [b] \<noteq> []"
proof -
  have "95 \<notin> set (percent_byte b)"
    using upper_hex_digit[OF nibbles(1)[of b]] upper_hex_digit[OF nibbles(2)[of b]] by (auto simp: percent_byte_def)
  then show "b \<noteq> 47 \<Longrightarrow> b \<noteq> 92 \<Longrightarrow> ?thesis"
    by (auto simp: encode_char_def percent_byte_def is_ascii_alphanumeric_def)
qed

lemma percent_decodes: "from_str_radix_16 [hex_digit 65 (drop_bit 4 b), hex_digit 65 (b AND 15)] = Some b"
proof -
  have "hex_digit 65 (drop_bit 4 b) \<noteq> 43"
    using upper_hex_digit[OF nibbles(1)[of b]] by (auto simp: upper_hex_def)
  moreover have "unat b < 256" using unsigned_less[of b] by simp
  ultimately show ?thesis
    by (simp add: from_str_radix_16_def hex_value_digit nibbles high_nibble low_nibble)
qed

lemma decode_percent: "decode_chars (map (\<lambda>b. [b]) (percent_byte b @ s)) = as_char b @ decode_chars (map (\<lambda>b. [b]) s)"
  by (simp add: percent_byte_def percent_decodes)

lemma decode_encode_char:
  assumes "b < 128" "b \<noteq> 92"
  shows "decode_chars (map (\<lambda>b. [b]) (encode_char [b] @ s)) = b # decode_chars (map (\<lambda>b. [b]) s)"
proof -
  have under: "percent_byte 95 = [37, 53, 70]" by code_simp
  let ?plain = "is_ascii_alphanumeric b \<or> b = 45 \<or> b = 46"
  consider "b = 47" | "b = 95" | "?plain" "b \<noteq> 47" "b \<noteq> 95" | "\<not> ?plain" "b \<noteq> 47" "b \<noteq> 95" by blast
  then show ?thesis
  proof cases
    case 2
    then show ?thesis using decode_percent[of 95 s] by (simp add: under as_char_def)
  next
    case 3
    then have "encode_char [b] = [b]" "b \<noteq> 37" using assms(2) by (auto simp: encode_char_def is_ascii_alphanumeric_def)
    then show ?thesis using 3 by simp
  next
    case 4
    then have "encode_char [b] = percent_byte b" using assms(2) by (simp add: encode_char_def)
    then show ?thesis using decode_percent[of b s] assms(1) by (simp add: as_char_def)
  qed simp
qed

text \<open>No separator directly behind another.\<close>

fun single_seps :: "byte list \<Rightarrow> bool" where
  "single_seps [] \<longleftrightarrow> True"
| "single_seps (b # s) \<longleftrightarrow> \<not> (b = 47 \<and> s \<noteq> [] \<and> hd s = 47) \<and> single_seps s"

lemma collapse_unit: "95 \<notin> set xs \<Longrightarrow> xs \<noteq> [] \<Longrightarrow> collapse l (xs @ ys) = xs @ collapse False ys"
proof (induction xs arbitrary: l)
  case (Cons x xs)
  then show ?case by (cases "xs = []") auto
qed simp

lemma collapse_encoded:
  "single_seps s \<Longrightarrow> 92 \<notin> set s \<Longrightarrow> \<not> (l \<and> s \<noteq> [] \<and> hd s = 47) \<Longrightarrow> collapse l (encoded s) = encoded s"
proof (induction s arbitrary: l)
  case (Cons b s)
  show ?case
  proof (cases "b = 47")
    case True
    then show ?thesis using Cons.IH[of True] Cons.prems by auto
  next
    case False
    then show ?thesis using encode_char_no_underscore[of b] Cons.IH[of False] Cons.prems by (simp add: collapse_unit)
  qed
qed simp

lemma decode_encoded:
  "list_all (\<lambda>b. b < 128) s \<Longrightarrow> 92 \<notin> set s \<Longrightarrow> decode_chars (map (\<lambda>b. [b]) (encoded s)) = s"
proof (induction s)
  case (Cons b s)
  then show ?case using decode_encode_char[of b "encoded s"] by simp
qed simp

lemma unfolded_absolute:
  assumes "list_all (\<lambda>b. b < 128) s" "92 \<notin> set s" "single_seps (47 # s)"
  shows "encode_path_unfolded (47 # s) = (if s = [] then [114, 111, 111, 116] else encoded s)"
proof -
  have "dropWhile (\<lambda>c. c = 95) (encoded s) = encoded s"
  proof (cases s)
    case (Cons b t)
    then have "b \<noteq> 47" "b \<noteq> 92" using assms by auto
    from encode_char_no_underscore[OF this] obtain c cs where "encode_char [b] = c # cs" "c \<noteq> 95"
      by (cases "encode_char [b]") auto
    then show ?thesis using Cons by simp
  qed simp
  moreover have "collapse False (encoded s) = encoded s" using collapse_encoded[of s False] assms by simp
  moreover have "encoded s = [] \<longleftrightarrow> s = []"
    using encode_char_no_underscore by (cases s) (auto simp: encode_char_def percent_byte_def)
  moreover have "list_all (\<lambda>b. b < 128) (47 # s)" using assms(1) by simp
  ultimately show ?thesis
    unfolding encode_path_unfolded_def Let_def ascii_lossy[OF \<open>list_all (\<lambda>b. b < 128) (47 # s)\<close>]
      ascii_chars[OF \<open>list_all (\<lambda>b. b < 128) (47 # s)\<close>] by (simp add: comp_def)
qed

text \<open>
  C24: a name leads back to its path. For an absolute path of ASCII characters without backslashes and without
  doubled separators, other than \<open>/root\<close>, whose name is not shortened, decoding the name gives the path. So
  two such paths never share a name. The name of \<open>/root\<close> is the one that stands for \<open>/\<close>.
\<close>

theorem decode_encode_path:
  assumes "list_all (\<lambda>b. b < 128) s" and "92 \<notin> set s" and "single_seps (47 # s)"
    and "s \<noteq> [114, 111, 111, 116]" and "length (encode_path_unfolded (47 # s)) \<le> MAX_ENCODED_LEN"
  shows "decode_filename_to_path (encode_path_for_filename (47 # s)) = Some (47 # s)"
proof -
  have name: "encode_path_for_filename (47 # s) = (if s = [] then [114, 111, 111, 116] else encoded s)"
    using assms(5) unfolded_absolute[OF assms(1-3)] by (simp add: encode_path_for_filename_def fold_to_max_len_def)
  note decoded = decode_encoded[OF assms(1,2)]
  show ?thesis
  proof (cases "s = []")
    case False
    have "decode_chars (map (\<lambda>b. [b]) [114, 111, 111, 116]) = [114, 111, 111, 116]" by code_simp
    then have "encoded s \<noteq> [114, 111, 111, 116]" using decoded assms(4) by metis
    moreover have "126 \<notin> set (encoded s)" using escaped_ascii[OF escaped_encoded[of s], of 126] by blast
    moreover have "list_all (\<lambda>b. b < 128) (encoded s)"
      using escaped_ascii[OF escaped_encoded[of s]] by (simp add: list_all_iff)
    ultimately show ?thesis using False name decoded ascii_chars[of "encoded s"]
      by (simp add: decode_filename_to_path_def)
  next
    case True
    then show ?thesis using name by (simp add: decode_filename_to_path_def)
  qed
qed

theorem decode_encode_path_witness:
  "decode_filename_to_path (encode_path_for_filename [47, 97, 95, 32, 47, 98, 46]) = Some [47, 97, 95, 32, 47, 98, 46]"
proof (rule decode_encode_path)
  show "length (encode_path_unfolded (47 # [97, 95, 32, 47, 98, 46])) \<le> MAX_ENCODED_LEN" by code_simp
qed simp_all

text \<open>
  Outside these conditions the name does not lead back. \<open>/\<close> and \<open>/root\<close> share a name. A character that is not ASCII is
  decoded byte by byte, so the decoded path is not the path. And \<open>..\<close> is its own name: joined to a
  directory, it leads out of it.
\<close>

lemma root_shares_name: "encode_path_for_filename [47] = encode_path_for_filename [47, 114, 111, 111, 116]"
  by code_simp

lemma non_ascii_not_decoded:
  "decode_filename_to_path (encode_path_for_filename [47, 195, 169]) = Some [47, 195, 131, 194, 169]"
  by code_simp

lemma parent_names_itself: "encode_path_for_filename [46, 46] = [46, 46]"
  by code_simp

text \<open>A trailing separator gives another name, and spellings of one path share a name otherwise.\<close>

lemma spellings:
  "encode_path_for_filename [47, 97, 47, 98, 47] \<noteq> encode_path_for_filename [47, 97, 47, 98]"
  "encode_path_for_filename [47, 97, 47, 47, 98] = encode_path_for_filename [47, 97, 47, 98]"
  "encode_path_for_filename [97, 47, 98] = encode_path_for_filename [47, 97, 47, 98]"
  by code_simp+

end
