(* ===== verification/Spec2Isabelle.thy ===== *)
theory Spec2Isabelle
  imports Pristine_Rebuild Marker_Width Undo_History Glob_Match Path_Encode
begin

text \<open>
  A verification of the text model of the Fresh editor
  (\<open>src/crates/fresh-editor-core/src/model\<close>), with the parts of the editor that drive it and some of its helpers.

  \<^bold>\<open>The program.\<close> A \<open>TextBuffer\<close> (\<open>buffer/mod.rs\<close>) holds a document as a persistent \<open>PieceTree\<close>
  (\<open>piece_tree.rs\<close>) whose leaves refer to ranges of append-only \<open>StringBuffer\<close>s. A large file is opened
  without reading it: its buffers are regions of the file, loaded in chunks on demand. Edits
  copy the path from the root to the changed leaves, so that a snapshot is a pointer. The \<open>Persistence\<close>
  record (\<open>buffer/persistence.rs\<close>) keeps the tree of the last save; \<open>piece_tree_diff.rs\<close> compares it with the
  current one. A save (\<open>buffer/save.rs\<close>) turns the tree into a recipe of copies from the
  old file and inserted data, after which the buffers are consolidated; a crash is survived by storing the
  changed chunks (\<open>buffer/recovery_chunks.rs\<close>). Every edit is an event in a log (\<open>event.rs\<close>), from which undo and redo
  (\<open>app/undo_actions.rs\<close>) take the events to apply. Cursors (\<open>cursor.rs\<close>) and markers (\<open>marker.rs\<close>, over the
  interval tree of \<open>marker_tree.rs\<close>) are adjusted for the edits that are made. Patterns of file names
  (\<open>primitives/glob_match.rs\<close>) and the names of the files kept for a directory (\<open>path_encode.rs\<close>) stand apart.

  \<^bold>\<open>The document.\<close>
  \<^item> \<open>Prelude\<close>: bytes, the slice methods of the standard library, line feeds and line starts of a byte list.
  \<^item> \<open>String_Buffer\<close>: \<open>BufferData\<close> and \<open>StringBuffer\<close>. The line index is maintained incrementally, and lines of a
    piece are found through it.
  \<^item> \<open>Piece_Tree\<close>: \<open>PieceTreeNode\<close>, its queries, its balanced construction; the abstraction \<open>node_text\<close> to the
    text and the invariant \<open>node_ok\<close> (cached sums right, pieces inside their buffers, counts right where known).
  \<^item> \<open>Piece_Edit\<close>: \<open>PieceTree\<close>, insertion and deletion by path copying, rebalancing, splitting. The edits
    refine list splicing; the depth stays logarithmic.
  \<^item> \<open>Piece_Scan\<close>: recording line feed counts; path copying against rebuilding; cutting leaves to a chunk size, a
    loop that may diverge and is a \<open>partial_function\<close>, with termination proved for positive sizes.
  \<^item> \<open>Piece_Lines\<close>: piece iteration, \<open>read_range\<close>, offsets and positions, line ranges.
  \<^item> \<open>Byte_Sequence\<close>: the interface of an editable byte sequence as a locale, with its edit scripts and their undo;
    \<open>Text_Buffer\<close> interprets it on \<open>insert_bytes\<close> and \<open>delete_bytes\<close>, and \<open>Recovery_Edits\<close> a second time with the
    stronger invariant of a recoverable buffer.
  \<^item> \<open>Bulk_Edit\<close>: \<open>apply_bulk_edits\<close> of the tree, equal to the edits one by one.
  \<^item> \<open>Buffer_Format\<close>: \<open>Encoding\<close>, \<open>LineEnding\<close>, \<open>BufferFormat\<close>, detection and conversion of line endings.
  \<^item> \<open>Tree_Diff\<close>: \<open>diff_piece_trees\<close>. Pointer equality of subtrees is the parameter \<open>ptr_eq\<close>.
  \<^item> \<open>Save_State\<close>: \<open>Persistence\<close>, with the saved root under chunk loads and \<open>diff_since_saved\<close>.
  \<^item> \<open>Text_Buffer\<close>: the \<open>TextBuffer\<close> record and its operations; the invariant \<open>tb_ok\<close>, the abstraction \<open>tb_text\<close>, and
    the refinement of every edit.
  \<^item> \<open>Lazy_Load\<close>: loading chunks, consolidation after a save, the difference to the saved document.
  \<^item> \<open>Pristine_Rebuild\<close>: rebuilding the tree after a scan of the file for line feeds.
  \<^item> \<open>Save_Recipe\<close>: \<open>WriteRecipe\<close>, \<open>build_write_recipe\<close> and its two ways of execution.
  \<^item> \<open>Recovery_Chunks\<close> and \<open>Recovery_Edits\<close>: building, storing and applying recovery chunks
    (\<open>recovery_types.rs\<close>, \<open>services/recovery/storage.rs\<close>); an edited large file is recovered, and a failed read is reported.

  \<^bold>\<open>What is kept beside the document.\<close>
  \<^item> \<open>Cursors\<close>: \<open>Cursor\<close> and \<open>Cursors\<close>, with the reachable sets of cursors as an inductive relation.
  \<^item> \<open>Marker_Tree\<close>, \<open>Marker_Adjust\<close>, \<open>Marker_Bulk\<close> and \<open>Marker_Query\<close>: \<open>IntervalTree\<close> with its lazily pushed shifts. The
    abstraction \<open>markers\<close> is the list of its markers in order; single and bulk edits move every marker by the gravity
    rule, and order statistics read the list.
  \<^item> \<open>Marker_List\<close>: the wrapper \<open>MarkerList\<close> and sequences of its operations.
  \<^item> \<open>Marker_Width\<close>: the same arithmetic with the casts and overflows of \<open>u64\<close> and \<open>i64\<close>, and the bound below which
    the unbounded model is exact.
  \<^item> \<open>Edit_Text\<close>, \<open>Event_Log\<close> and \<open>Undo_History\<close>: the text of an edit, events with their inverses, the log with undo
    groups and the saved position, and \<open>handle_undo\<close> and \<open>handle_redo\<close> on the log and the buffer. The relation \<open>session\<close>
    is every interleaving of edits, undo, redo, saves and groups; the document is the replay of the log.
  \<^item> This theory: a marker created at a cursor stays at the cursor.

  \<^bold>\<open>Helpers.\<close>
  \<^item> \<open>Glob_Match\<close>: both matchers, against the dialect that the comments describe.
  \<^item> \<open>Path_Encode\<close>: the file name of a path and its decoding.

  \<^bold>\<open>Conventions.\<close> \<open>usize\<close> is \<open>nat\<close> and sums of offsets do not overflow: offsets and lengths are bounded by the document
  they are offsets of, and the statements are about those; a \<open>usize\<close> near its maximum, as an argument made up by a
  caller, is outside the model. Markers, whose arithmetic is in \<open>i64\<close>, have their bound stated in \<open>Marker_Width\<close>.
  The wrapping 64-bit version counters and hashes are words. A panic is \<open>None\<close> of an outer \<open>option\<close>, so that
  "never panics" is part of the statements; \<open>io::Result\<close> is a sum. Nothing runs on fuel: recursion is structural or
  has a termination proof, except where a loop can diverge or its end is itself a theorem. The file system is the
  record \<open>FileSystem\<close> of the operations the code calls; what is assumed of it is \<open>fs_contract\<close> (a successful read
  returns the requested bytes of the file, a successful count counts them) and, where a result is claimed,
  \<open>fs_serves\<close> (ranges inside a file can be read). Both hold of \<open>memory_fs\<close>, on which the witnesses run. In undo and
  redo, what events do to markers, decorations and views is the parameter \<open>Views\<close>.

  \<^bold>\<open>Where the code deviates.\<close> Theorems whose names end in \<open>_wrong\<close>, and \<open>diff_shared_unsound\<close>,
  \<open>diff_since_saved_misses_shift\<close>, \<open>split_crlf_doubled\<close>, \<open>mixed_endings_rewritten\<close>, \<open>normalize_keeps_overlaps\<close>,
  \<open>typed_after_chunk_not_recovered\<close>, \<open>rebuild_loses_text\<close>, \<open>scan_after_edit_miscounts\<close>, \<open>query_range_misses\<close>,
  \<open>span_end_by_shape\<close>, \<open>remove_secondary_not_undone\<close>, \<open>cleared_log_panics\<close>, \<open>glob_star_in_name\<close>,
  \<open>glob_question_one_byte\<close>, \<open>glob_partial_level\<close>, \<open>root_shares_name\<close>, \<open>non_ascii_not_decoded\<close> and
  \<open>parent_names_itself\<close> state behaviour of the code that its documentation excludes or that loses data.
  The hypotheses of the positive theorems are the conditions that keep these cases out.

  \<^bold>\<open>Not modelled.\<close> Encoding detection and conversion (third-party packages; the conversion is a parameter of the
  recipe), staging and in-place writing of files and the metadata of recovery files (file system I/O and JSON), search
  by regular expressions (a third-party package), grapheme and display width (tables of other packages), the
  mapping of old coordinates (\<open>coord_map.rs\<close>), composite buffers, and everything above the model: overlays and views,
  input, application, services, plugins.
\<close>

subsection \<open>Cursors and markers\<close>

text \<open>
  A text edit as both components see it: an insertion or a deletion of a number of bytes. The two are used
  side by side on one document, and each has its own arithmetic: cursors shift by a signed difference of
  \<open>usize\<close>s, markers by lazily pushed deltas.
\<close>

datatype TextChange = Inserted nat nat | Deleted nat nat

fun marker_op :: "TextChange \<Rightarrow> MarkerOp" where
  "marker_op (Inserted p n) = InsertText p n"
| "marker_op (Deleted p n) = DeleteText p n"

fun cursor_change :: "Cursor \<Rightarrow> TextChange \<Rightarrow> Cursor" where
  "cursor_change c (Inserted p n) = cursor_adjust_for_edit c p 0 n"
| "cursor_change c (Deleted p n) = cursor_adjust_for_edit c p n 0"

lemma adjusted_start_offset:
  "adjusted_start (int p) (int n) True (int q) = int (adjust_offset q p 0 n)"
  "adjusted_start (int p) (- int n) True (int q) = int (adjust_offset q p n 0)"
  by (auto simp: adjusted_start_def adjust_offset_def Let_def max_def)

lemma point_right_gravity_run:
  assumes "ml_ok ml" "lookup (markers (it_root (ml_tree ml))) i = Some m" "is_point m" "right_gravity m"
    and "m_start m = int (position c)"
  shows "\<exists>ml' m'. run_ops (map marker_op es) ml = Some ml' \<and> ml_ok ml' \<and>
    lookup (markers (it_root (ml_tree ml'))) i = Some m' \<and> is_point m' \<and>
    m_start m' = int (position (foldl cursor_change c es))"
  using assms
proof (induction es arbitrary: ml m c)
  case (Cons x es)
  have it: "it_ok (ml_tree ml)" using Cons.prems(1) by (rule ml_ok_it)
  obtain p d n where x: "x = Inserted p n \<and> d = int n \<or> x = Deleted p n \<and> d = - int n" by (cases x) auto
  obtain tr' where tr': "adjust_for_edit (ml_tree ml) (int p) d = Some tr'"
    "\<And>j. rel_option (moved (int p) d) (lookup (markers (it_root (ml_tree ml))) j) (lookup (markers (it_root tr')) j)"
    using adjust_for_edit_lookup[OF it, of "int p" d] by auto
  obtain m' where m': "lookup (markers (it_root tr')) i = Some m'" "moved (int p) d m m'"
    using tr'(2)[of i] Cons.prems(2) by (auto simp: option_rel_Some1)
  obtain ml1 where ml1: "run_op (marker_op x) ml = Some ml1" "ml_ok ml1" using run_op_ok[OF Cons.prems(1)] by blast
  have "\<exists>m1. lookup (markers (it_root (ml_tree ml1))) i = Some m1 \<and> is_point m1 \<and> right_gravity m1 \<and>
      m_start m1 = int (position (cursor_change c x))"
  proof (cases "n = 0")
    case True
    then show ?thesis using x ml1(1) Cons.prems
      by (auto simp: adjust_for_insert_def adjust_for_delete_def cursor_adjust_for_edit_def adjust_offset_def Let_def)
  next
    case False
    then have "ml_tree ml1 = tr'" using x ml1(1) tr'(1) by (auto simp: adjust_for_insert_def adjust_for_delete_def)
    moreover have "is_point m'" "right_gravity m'" "m_start m' = adjusted_start (int p) d True (int (position c))"
      using moved_point[OF m'(2) Cons.prems(3)] moved_simps(2,5)[OF m'(2)] Cons.prems(4,5) by auto
    moreover have "position (cursor_change c x) = (if d = int n then adjust_offset (position c) p 0 n else adjust_offset (position c) p n 0)"
      using x False by (auto simp: cursor_adjust_for_edit_def)
    ultimately show ?thesis using m'(1) x False by (auto simp: adjusted_start_offset)
  qed
  then obtain m1 where "lookup (markers (it_root (ml_tree ml1))) i = Some m1" "is_point m1" "right_gravity m1"
      "m_start m1 = int (position (cursor_change c x))" by blast
  from Cons.IH[OF ml1(2) this] show ?case using ml1(1) by simp
qed auto

text \<open>
  C16: a marker created at a cursor stays at the cursor. Whatever markers there are, and whatever
  insertions and deletions follow, the marker that \<open>create\<close> makes at the cursor's position is found at the
  position to which the edits have taken the cursor.
\<close>

theorem marker_stays_at_cursor:
  assumes "run_ops ops ml_new = Some ml"
  shows "\<exists>ml1 i ml2. ml_create ml (position c) = Some (ml1, i) \<and> run_ops (map marker_op es) ml1 = Some ml2 \<and>
    ml_get_position ml2 i = Some (position (foldl cursor_change c es))"
proof -
  have ok: "ml_ok ml" using run_ops_ml_ok[OF ml_ok_new assms] .
  let ?p = "int (position c)" and ?i = "it_next_id (ml_tree ml)"
  let ?m = "\<lparr>m_id = ?i, m_start = ?p, m_end = ?p, m_type = Position_Marker, right_gravity = True, m_order = 0\<rparr>"
  obtain tr where tr: "insert_full (ml_tree ml) ?p ?p Position_Marker True 0 = Some (tr, ?i)" "it_ok tr"
    "mset (markers (it_root tr)) = add_mset ?m (mset (markers (it_root (ml_tree ml))))"
    using it_insert_ok[OF ml_ok_it[OF ok], of ?p ?p Position_Marker True 0] by auto
  let ?ml1 = "\<lparr>ml_tree = tr, ml_affinity = AList.update ?i False (ml_affinity ml)\<rparr>"
  have ml1: "ml_create ml (position c) = Some (?ml1, ?i)" "ml_ok ?ml1"
    using tr(1) ml_ok_insert[OF ok, of ?p ?p Position_Marker True 0 False] by (auto simp: ml_create_def it_insert_def)
  have "?m \<in> set (markers (it_root tr))" using arg_cong[OF tr(3), of set_mset] by simp
  then have "lookup (markers (it_root (ml_tree ?ml1))) ?i = Some ?m"
    using tr(2) by (subst lookup_in) (auto simp: it_ok_def markers_ok_def)
  from point_right_gravity_run[OF ml1(2) this, of c es]
  obtain ml2 m' where ml2: "run_ops (map marker_op es) ?ml1 = Some ml2" "ml_ok ml2"
    "lookup (markers (it_root (ml_tree ml2))) ?i = Some m'" "m_start m' = int (position (foldl cursor_change c es))"
    by (auto simp: is_point_def)
  then have "ml_get_position ml2 ?i = Some (position (foldl cursor_change c es))"
    by (simp add: ml_get_position_def get_position_lookup[OF ml_ok_it])
  then show ?thesis using ml1(1) ml2(1) by blast
qed

theorem marker_stays_at_cursor_witness:
  "\<exists>ml ml1 i ml2. run_ops sample_ops ml_new = Some ml \<and> ml_create ml 8 = Some (ml1, i) \<and>
     run_ops [InsertText 8 4, DeleteText 5 6] ml1 = Some ml2 \<and> ml_get_position ml2 i = Some 6 \<and>
     position (foldl cursor_change (cursor_new 8) [Inserted 8 4, Deleted 5 6]) = 6"
proof -
  obtain ml where ml: "run_ops sample_ops ml_new = Some ml" using run_ops_ok[OF ml_ok_new] by blast
  have "position (foldl cursor_change (cursor_new 8) [Inserted 8 4, Deleted 5 6]) = 6" by code_simp
  moreover have "position (cursor_new 8) = 8" by code_simp
  ultimately show ?thesis using marker_stays_at_cursor[OF ml, of "cursor_new 8" "[Inserted 8 4, Deleted 5 6]"] ml by auto
qed

end
